(* ===== verification/KB_Prelude.thy ===== *)
theory KB_Prelude
  imports Main "HOL-Library.AList" "HOL-Library.List_Lexorder" "HOL-Library.Char_ord"
begin

text \<open>
  The prelude of the development: Python's string methods on \<open>string\<close> (a list of characters, each a
  code point below 256), decimal numerals, \<open>repr\<close> of a text, the insertion-ordered dictionary as an
  association list, and results that are either a value (\<open>Inr\<close>) or a raised exception (\<open>Inl\<close>), with
  the generic lemmas the components share. \<open>pystr\<close> collects the round trips of splitting and
  joining, \<open>results\<close> the unfolding rules of results.
\<close>

named_theorems pystr \<open>round trips of Python's string methods\<close>
named_theorems results \<open>characteristic equations of results\<close>

section \<open>Results\<close>

definition rbind :: "'e + 'a \<Rightarrow> ('a \<Rightarrow> 'e + 'b) \<Rightarrow> 'e + 'b" where
  "rbind r f = (case r of Inl e \<Rightarrow> Inl e | Inr a \<Rightarrow> f a)"

lemma rbind_simps [simp]: "rbind (Inl e) f = Inl e" "rbind (Inr a) f = f a"
  by (simp_all add: rbind_def)

lemma rbind_Inr_iff [results]: "rbind r f = Inr b \<longleftrightarrow> (\<exists>a. r = Inr a \<and> f a = Inr b)"
  by (cases r) auto

lemma rbind_Inl_iff [results]: "rbind r f = Inl e \<longleftrightarrow> r = Inl e \<or> (\<exists>a. r = Inr a \<and> f a = Inl e)"
  by (cases r) auto

lemma rbind_cong [fundef_cong]:
  "r = r' \<Longrightarrow> (\<And>a. r' = Inr a \<Longrightarrow> f a = g a) \<Longrightarrow> rbind r f = rbind r' g"
  by (cases r') auto

text \<open>A list of results, the first exception raised first, as a comprehension over calls raises.\<close>

fun rall :: "('e + 'a) list \<Rightarrow> 'e + 'a list" where
  "rall [] = Inr []"
| "rall (r # rs) = rbind r (\<lambda>a. rbind (rall rs) (\<lambda>as. Inr (a # as)))"

lemma rall_Inr_iff: "rall rs = Inr xs \<longleftrightarrow> rs = map Inr xs"
  by (induction rs arbitrary: xs) (auto simp: results Cons_eq_map_conv)

section \<open>Python's string methods\<close>

fun split_on :: "char \<Rightarrow> string \<Rightarrow> string list" where
  "split_on c [] = [[]]"
| "split_on c (x # xs) =
     (if x = c then [] # split_on c xs
      else case split_on c xs of [] \<Rightarrow> [[x]] | p # ps \<Rightarrow> (x # p) # ps)"

fun join_with :: "string \<Rightarrow> string list \<Rightarrow> string" where
  "join_with sep [] = []"
| "join_with sep [x] = x"
| "join_with sep (x # y # ys) = x @ sep @ join_with sep (y # ys)"

definition starts_with :: "string \<Rightarrow> string \<Rightarrow> bool" where
  "starts_with p s \<longleftrightarrow> take (length p) s = p"

definition ends_with :: "string \<Rightarrow> string \<Rightarrow> bool" where
  "ends_with q s \<longleftrightarrow> length q \<le> length s \<and> drop (length s - length q) s = q"

definition removeprefix :: "string \<Rightarrow> string \<Rightarrow> string" where
  "removeprefix p s = (if starts_with p s then drop (length p) s else s)"

definition removesuffix :: "string \<Rightarrow> string \<Rightarrow> string" where
  "removesuffix q s = (if ends_with q s then take (length s - length q) s else s)"

text \<open>\<open>str.partition\<close> at one character: what is before it, the character found, what is after.\<close>

definition partition_on :: "char \<Rightarrow> string \<Rightarrow> string \<times> string \<times> string" where
  "partition_on c s =
     (case dropWhile (\<lambda>x. x \<noteq> c) s of [] \<Rightarrow> (s, [], [])
      | y # ys \<Rightarrow> (takeWhile (\<lambda>x. x \<noteq> c) s, [y], ys))"

lemma split_on_not_Nil [simp]: "split_on c s \<noteq> []"
  by (induction s) (auto split: list.splits)

lemma split_on_pieces: "p \<in> set (split_on c s) \<Longrightarrow> c \<notin> set p"
  by (induction s arbitrary: p) (auto split: list.splits if_splits)

lemma split_on_cover: "x \<in> set s \<Longrightarrow> x = c \<or> (\<exists>p \<in> set (split_on c s). x \<in> set p)"
  by (induction s) (auto split: list.splits)

lemma split_on_none: "c \<notin> set s \<Longrightarrow> split_on c s = [s]"
  by (induction s) auto

lemma split_on_append:
  "c \<notin> set p \<Longrightarrow> split_on c (p @ c # s) = p # split_on c s"
  by (induction p) auto

lemma split_on_append_sep: "split_on c (p @ c # s) = split_on c p @ split_on c s"
  by (induction p) (auto split: list.splits)

lemma join_split [pystr]: "join_with [c] (split_on c s) = s"
proof (induction s)
  case (Cons x xs)
  obtain p ps where p: "split_on c xs = p # ps"
    using split_on_not_Nil [of c xs] by (cases "split_on c xs") auto
  show ?case
  proof (cases "x = c")
    case True
    with Cons p show ?thesis by simp
  next
    case False
    with Cons p show ?thesis by (cases ps) auto
  qed
qed simp

lemma split_join [pystr]:
  "xs \<noteq> [] \<Longrightarrow> \<forall>x \<in> set xs. c \<notin> set x \<Longrightarrow> split_on c (join_with [c] xs) = xs"
  by (induction "[c]" xs rule: join_with.induct) (auto simp: split_on_none split_on_append)

lemma join_with_Cons: "xs \<noteq> [] \<Longrightarrow> join_with sep (x # xs) = x @ sep @ join_with sep xs"
  by (cases xs) auto

lemma join_with_append:
  "xs \<noteq> [] \<Longrightarrow> ys \<noteq> [] \<Longrightarrow> join_with sep (xs @ ys) = join_with sep xs @ sep @ join_with sep ys"
  by (induction sep xs rule: join_with.induct) (auto simp: join_with_Cons neq_Nil_conv)

lemma starts_with_append [simp]: "starts_with p (p @ s)"
  by (simp add: starts_with_def)

lemma starts_with_iff: "starts_with p s \<longleftrightarrow> (\<exists>t. s = p @ t)"
  by (metis append_eq_conv_conj append_take_drop_id starts_with_def)

lemma removeprefix_append [simp]: "removeprefix p (p @ s) = s"
  by (simp add: removeprefix_def)

lemma ends_with_append [simp]: "ends_with q (s @ q)"
  by (simp add: ends_with_def)

lemma ends_with_iff: "ends_with q s \<longleftrightarrow> (\<exists>t. s = t @ q)"
  unfolding ends_with_def
  by (metis append_take_drop_id diff_add_inverse2 le_add2 length_append append_eq_conv_conj)

lemma removesuffix_append [simp]: "removesuffix q (s @ q) = s"
  by (simp add: removesuffix_def)

lemma partition_on_none: "c \<notin> set s \<Longrightarrow> partition_on c s = (s, [], [])"
proof -
  assume "c \<notin> set s"
  then have "dropWhile (\<lambda>x. x \<noteq> c) s = []" by (auto simp: dropWhile_eq_Nil_conv)
  then show ?thesis unfolding partition_on_def by (simp only: list.case)
qed

lemma partition_on_append [simp]:
  "c \<notin> set p \<Longrightarrow> partition_on c (p @ c # s) = (p, [c], s)"
proof -
  assume "c \<notin> set p"
  then have "dropWhile (\<lambda>x. x \<noteq> c) (p @ c # s) = c # s"
    and "takeWhile (\<lambda>x. x \<noteq> c) (p @ c # s) = p"
    by (induction p) auto
  then show ?thesis by (simp add: partition_on_def)
qed

lemma partition_on_cases:
  assumes "partition_on c s = (a, m, b)"
  obtains (found) "m = [c]" "s = a @ c # b" "c \<notin> set a" | (none) "m = []" "a = s" "b = []" "c \<notin> set s"
proof (cases "c \<in> set s")
  case True
  then obtain p q where "s = p @ c # q" "c \<notin> set p" by (blast dest: split_list_first)
  with assms show ?thesis by (auto intro: found)
next
  case False
  with assms show ?thesis by (auto simp: partition_on_none intro: none)
qed

section \<open>Decimal numerals\<close>

definition digit :: "nat \<Rightarrow> char" where
  "digit d = char_of (48 + d)"

definition is_digit :: "char \<Rightarrow> bool" where
  "is_digit c \<longleftrightarrow> (48::nat) \<le> of_char c \<and> of_char c \<le> (57::nat)"

fun nat_str :: "nat \<Rightarrow> string" where
  "nat_str n = (if n < 10 then [digit n] else nat_str (n div 10) @ [digit (n mod 10)])"

declare nat_str.simps [simp del]

definition str_nat :: "string \<Rightarrow> nat" where
  "str_nat s = foldl (\<lambda>a c. 10 * a + (of_char c - 48)) 0 s"

definition int_str :: "int \<Rightarrow> string" where
  "int_str i = (if i < 0 then ''-'' @ nat_str (nat (- i)) else nat_str (nat i))"

lemma of_char_digit [simp]: "d < 10 \<Longrightarrow> of_char (digit d) = (48 + d :: nat)"
  by (simp add: digit_def of_char_of)

lemma is_digit_digit [simp]: "d < 10 \<Longrightarrow> is_digit (digit d)"
  by (simp add: is_digit_def)

lemma str_nat_snoc: "str_nat (s @ [c]) = 10 * str_nat s + (of_char c - 48)"
  by (simp add: str_nat_def)

lemma str_nat_str [simp, pystr]: "str_nat (nat_str n) = n"
proof (induction n rule: nat_str.induct)
  case (1 n)
  show ?case
  proof (cases "n < 10")
    case True
    then show ?thesis by (simp add: nat_str.simps [of n] str_nat_def)
  next
    case False
    with 1 show ?thesis by (simp add: nat_str.simps [of n] str_nat_snoc)
  qed
qed

lemma nat_str_digits: "c \<in> set (nat_str n) \<Longrightarrow> is_digit c"
proof (induction n rule: nat_str.induct)
  case (1 n)
  then show ?case by (cases "n < 10") (auto simp: nat_str.simps [of n])
qed

lemma nat_str_not_Nil [simp]: "nat_str n \<noteq> []"
  by (subst nat_str.simps) simp

lemma nat_str_inj [simp]: "nat_str m = nat_str n \<longleftrightarrow> m = n"
  by (metis str_nat_str)

lemma digit_zero_iff: "d < 10 \<Longrightarrow> digit d = CHR ''0'' \<longleftrightarrow> d = 0"
proof -
  assume "d < 10"
  have "digit d = CHR ''0'' \<longleftrightarrow> of_char (digit d) = (of_char (CHR ''0'') :: nat)"
    by (metis of_char_eq_iff)
  with \<open>d < 10\<close> show ?thesis by simp
qed

lemma hd_nat_str: "0 < n \<Longrightarrow> hd (nat_str n) \<noteq> CHR ''0''"
proof (induction n rule: nat_str.induct)
  case (1 n)
  then show ?case
    by (cases "n < 10") (auto simp: nat_str.simps [of n] digit_zero_iff hd_append)
qed

lemma digit_of_char: "is_digit c \<Longrightarrow> digit (of_char c - 48) = c"
  by (simp add: digit_def is_digit_def)

lemma nat_str_snoc: "0 < m \<Longrightarrow> d < 10 \<Longrightarrow> nat_str (10 * m + d) = nat_str m @ [digit d]"
  by (subst nat_str.simps) (auto simp: add.commute)

lemma str_nat_pos: "ds \<noteq> [] \<Longrightarrow> list_all is_digit ds \<Longrightarrow> hd ds \<noteq> CHR ''0'' \<Longrightarrow> 0 < str_nat ds"
proof (induction ds rule: rev_induct)
  case (snoc c ds)
  show ?case
  proof (cases "ds = []")
    case True
    with snoc.prems have c: "is_digit c" "c \<noteq> CHR ''0''" by auto
    then have "of_char c \<noteq> (48::nat)"
      by (metis add.right_neutral digit_def digit_of_char diff_self_eq_0 digit_zero_iff zero_less_numeral)
    with c True show ?thesis by (simp add: str_nat_def is_digit_def)
  next
    case False
    with snoc show ?thesis by (simp add: str_nat_snoc hd_append)
  qed
qed simp

lemma nat_str_of_str [pystr]:
  "ds \<noteq> [] \<Longrightarrow> list_all is_digit ds \<Longrightarrow> hd ds \<noteq> CHR ''0'' \<Longrightarrow> nat_str (str_nat ds) = ds"
proof (induction ds rule: rev_induct)
  case (snoc c ds)
  then have c: "is_digit c" by simp
  then have d: "of_char c - 48 < (10::nat)" unfolding is_digit_def by linarith
  show ?case
  proof (cases "ds = []")
    case True
    with c d show ?thesis by (simp add: str_nat_def nat_str.simps digit_of_char)
  next
    case False
    with snoc.prems have "0 < str_nat ds" by (intro str_nat_pos) (auto simp: hd_append)
    with snoc False c d show ?thesis
      by (simp add: str_nat_snoc nat_str_snoc digit_of_char hd_append)
  qed
qed simp

section \<open>The text Python writes of a text: repr\<close>

definition hex_digit :: "nat \<Rightarrow> char" where
  "hex_digit d = (if d < 10 then char_of (48 + d) else char_of (87 + d))"

definition unprintable :: "char \<Rightarrow> bool" where
  "unprintable c = (let n = of_char c :: nat in n < 32 \<or> (127 \<le> n \<and> n \<le> 160) \<or> n = 173)"

definition repr_char :: "char \<Rightarrow> char \<Rightarrow> string" where
  "repr_char q c =
     (if c = q \<or> c = CHR 0x5C then [CHR 0x5C, c]
      else if c = CHR 0x0A then [CHR 0x5C, CHR ''n'']
      else if c = CHR 0x0D then [CHR 0x5C, CHR ''r'']
      else if c = CHR 0x09 then [CHR 0x5C, CHR ''t'']
      else if unprintable c
        then [CHR 0x5C, CHR ''x'', hex_digit (of_char c div 16), hex_digit (of_char c mod 16)]
      else [c])"

definition repr_str :: "string \<Rightarrow> string" where
  "repr_str s =
     (let q = (if CHR 0x27 \<in> set s \<and> CHR 0x22 \<notin> set s then CHR 0x22 else CHR 0x27)
      in [q] @ concat (map (repr_char q) s) @ [q])"

section \<open>Dictionaries and lists in order\<close>

text \<open>\<open>dict.fromkeys\<close>: each element once, where it first stands.\<close>

fun once_each :: "'a list \<Rightarrow> 'a list" where
  "once_each [] = []"
| "once_each (x # xs) = x # filter (\<lambda>y. y \<noteq> x) (once_each xs)"

lemma set_once_each [simp]: "set (once_each xs) = set xs"
  by (induction xs) auto

lemma distinct_once_each [simp]: "distinct (once_each xs)"
  by (induction xs) auto

lemma once_each_distinct: "distinct xs \<Longrightarrow> once_each xs = xs"
proof (induction xs)
  case (Cons x xs)
  then have "filter (\<lambda>y. y \<noteq> x) xs = xs" by (auto simp: filter_id_conv)
  with Cons show ?case by simp
qed simp

text \<open>\<open>dict.update\<close> and \<open>{**a, **b}\<close>: the entries of the second over the first, each where it stands.\<close>

definition dict_over :: "('k \<times> 'v) list \<Rightarrow> ('k \<times> 'v) list \<Rightarrow> ('k \<times> 'v) list" where
  "dict_over a b = fold (\<lambda>(k, v). AList.update k v) b a"

lemma map_of_rev_distinct: "distinct (map fst xs) \<Longrightarrow> map_of (rev xs) = map_of xs"
proof (induction xs)
  case (Cons x xs)
  then have "fst x \<notin> dom (map_of xs)" by (simp add: dom_map_of_conv_image_fst)
  with Cons show ?case by (cases x) (auto simp: map_add_def fun_eq_iff split: option.splits)
qed simp

lemma map_of_dict_over:
  "map_of (dict_over a b) k = (case map_of (rev b) k of None \<Rightarrow> map_of a k | Some v \<Rightarrow> Some v)"
  unfolding dict_over_def
  by (induction b arbitrary: a) (auto simp: update_conv' map_of_append split: option.splits prod.splits)

lemma distinct_dict_over:
  "distinct (map fst a) \<Longrightarrow> distinct (map fst (dict_over a b))"
  unfolding dict_over_def
  by (induction b arbitrary: a) (auto simp: distinct_update split: prod.splits)

text \<open>\<open>enumerate\<close>.\<close>

definition enum_from :: "nat \<Rightarrow> 'a list \<Rightarrow> (nat \<times> 'a) list" where
  "enum_from n xs = zip [n ..< n + length xs] xs"

lemma enum_from_simps [simp]:
  "enum_from n [] = []" "enum_from n (x # xs) = (n, x) # enum_from (Suc n) xs"
  by (simp_all add: enum_from_def upt_conv_Cons del: upt_Suc)

lemma set_enum_from: "set (enum_from n xs) = {(n + i, xs ! i) | i. i < length xs}"
proof -
  have "set (enum_from n xs) = {([n ..< n + length xs] ! i, xs ! i) | i. i < length xs}"
    by (simp add: enum_from_def set_zip)
  also have "\<dots> = {(n + i, xs ! i) | i. i < length xs}"
    by (rule Collect_cong) (metis add_less_cancel_left nth_upt)
  finally show ?thesis .
qed

lemma snd_enum_from [simp]: "map snd (enum_from n xs) = xs"
  by (simp add: enum_from_def)

end
