(* ===== verification/KB_Names.thy ===== *)
theory KB_Names
  imports KB_Prelude "HOL-Library.Option_ord"
begin

text \<open>
  \<open>names.py\<close>: kb's IRI grammar, how an IRI is split into its host and segments, the IRIs one sits
  under, a type version's IRI, the place an export gives an artifact and the IRI a file's place gives,
  a link as a field holds it and a place inside an artifact as it is written. The recognisers are the
  executable reading of the module's regular expressions; \<open>rx_match\<close> is what such an expression
  matches, and \<open>plain_regex\<close>, \<open>segment_regex\<close> and \<open>iri_regex\<close> show that the two agree.
\<close>

section \<open>The grammar\<close>

definition plain_char :: "char \<Rightarrow> bool" where
  "plain_char c = (let n = of_char c :: nat in (97 \<le> n \<and> n \<le> 122) \<or> (48 \<le> n \<and> n \<le> 57))"

text \<open>\<open>PLAIN\<close>: one or more of a-z and 0-9, in runs joined by single hyphens.\<close>

definition plain :: "string \<Rightarrow> bool" where
  "plain s = list_all (\<lambda>p. p \<noteq> [] \<and> list_all plain_char p) (split_on (CHR ''-'') s)"

text \<open>\<open>SEGMENT\<close>: plain names joined by single dots.\<close>

definition segment :: "string \<Rightarrow> bool" where
  "segment s = list_all plain (split_on (CHR ''.'') s)"

definition LONGEST :: nat where "LONGEST = 512"
definition SCHEME :: string where "SCHEME = ''https://''"
definition FILE :: string where "FILE = ''.yaml''"
definition TYPES :: string where "TYPES = ''https://missingmass.io/kb/type''"
definition TYPE_URI :: string where "TYPE_URI = ''kb:''"

text \<open>\<open>IRI.fullmatch\<close>: the scheme, a host, and one or more segments, each after a slash.\<close>

definition iri_shape :: "string \<Rightarrow> bool" where
  "iri_shape s = (starts_with SCHEME s \<and>
     (case split_on (CHR ''/'') (drop (length SCHEME) s) of
        [] \<Rightarrow> False
      | host # segments \<Rightarrow> segments \<noteq> [] \<and> segment host \<and> list_all segment segments))"

definition iri :: "string \<Rightarrow> bool" where
  "iri text = (length text \<le> LONGEST \<and> iri_shape text)"

definition iri_split :: "string \<Rightarrow> string \<times> string list" where
  "iri_split t = (case split_on (CHR ''/'') (removeprefix SCHEME t) of
     [] \<Rightarrow> ([], []) | host # segments \<Rightarrow> (host, segments))"

definition above :: "string \<Rightarrow> string list" where
  "above t = (let (host, segments) = iri_split t in
     map (\<lambda>count. SCHEME @ join_with ''/'' (host # take count segments)) (rev [1 ..< length segments]))"

definition below :: "string \<Rightarrow> string \<Rightarrow> string list option" where
  "below t type_iri = (let under = type_iri @ ''/'' in
     if starts_with under t then Some (split_on (CHR ''/'') (removeprefix under t)) else None)"

definition selects :: "string list \<Rightarrow> string \<Rightarrow> string \<Rightarrow> bool" where
  "selects segments t type_iri = (case below t type_iri of
     None \<Rightarrow> False | Some found \<Rightarrow> take (length segments) found = segments)"

definition names_path :: "string \<Rightarrow> string list option" where
  "names_path text = (let segments = split_on (CHR ''/'') text in
     if list_all segment segments then Some segments else None)"

text \<open>\<open>VERSION.fullmatch\<close>, then the checks \<open>version\<close> makes of what it found: what stands before the
  one \<open>@\<close> an IRI, a number written from 1 up with no leading zero, the whole not too long.\<close>

definition number_shape :: "string \<Rightarrow> bool" where
  "number_shape ds = (ds \<noteq> [] \<and> list_all is_digit ds \<and> hd ds \<noteq> CHR ''0'')"

definition names_version :: "string \<Rightarrow> (string \<times> int) option" where
  "names_version text = (case partition_on (CHR ''@'') text of
     (name, mark, number) \<Rightarrow>
       if mark = [] \<or> name = [] \<or> \<not> number_shape number then None
       else if \<not> iri name \<or> LONGEST < length text then None
       else Some (name, int (str_nat number)))"

definition versioned :: "string \<Rightarrow> int \<Rightarrow> string" where
  "versioned type_iri number = type_iri @ ''@'' @ int_str number"

text \<open>\<open>place\<close>: None where the source raises \<open>IndexError\<close>, for a name with no segment.\<close>

definition names_place :: "string \<Rightarrow> int option \<Rightarrow> string list option" where
  "names_place artifact_id number = (let (host, segments) = iri_split artifact_id in
     if segments = [] then None
     else let final = (case number of None \<Rightarrow> last segments | Some n \<Rightarrow> versioned (last segments) n)
          in Some (host # butlast segments @ [final @ FILE]))"

definition names_order :: "string \<Rightarrow> string list option" where
  "names_order artifact_id = names_place artifact_id None"

definition placing :: "string \<Rightarrow> int option \<Rightarrow> string option" where
  "placing artifact_id number = map_option (join_with ''/'') (names_place artifact_id number)"

definition filed :: "string list \<Rightarrow> (string \<times> int option) option" where
  "filed steps =
     (if length steps < 2 \<or> \<not> ends_with FILE (last steps) then None
      else let written = SCHEME @ join_with ''/'' (butlast steps @ [removesuffix FILE (last steps)])
           in case names_version written of
                Some (name, number) \<Rightarrow> Some (name, Some number)
              | None \<Rightarrow> if iri written then Some (written, None) else None)"

definition linked :: "string \<Rightarrow> string \<times> string" where
  "linked text = (case partition_on (CHR ''#'') text of (name, _, place) \<Rightarrow> (name, place))"

definition pointing :: "string \<Rightarrow> string \<Rightarrow> string" where
  "pointing name place = (if place \<noteq> [] then name @ ''#'' @ place else name)"

definition names_placed :: "string list \<Rightarrow> string" where
  "names_placed steps = join_with ''/'' steps"

definition names_steps :: "string \<Rightarrow> string list" where
  "names_steps text = (if text \<noteq> [] then split_on (CHR ''/'') text else [])"

definition referred :: "string \<Rightarrow> (string \<times> string) option" where
  "referred ref = (if starts_with TYPE_URI ref
     then case partition_on (CHR ''#'') (removeprefix TYPE_URI ref) of
            (name, mark, fragment) \<Rightarrow> Some (name, mark @ fragment)
     else None)"

section \<open>What the regular expressions match\<close>

datatype rx = Cls "char \<Rightarrow> bool" | Lit string | Seq rx rx | Star rx

inductive rx_match :: "rx \<Rightarrow> string \<Rightarrow> bool" where
  cls: "p c \<Longrightarrow> rx_match (Cls p) [c]"
| lit: "rx_match (Lit s) s"
| seq: "rx_match a s \<Longrightarrow> rx_match b t \<Longrightarrow> rx_match (Seq a b) (s @ t)"
| star_none: "rx_match (Star a) []"
| star_more: "rx_match a s \<Longrightarrow> rx_match (Star a) t \<Longrightarrow> rx_match (Star a) (s @ t)"

inductive_simps rx_cls_iff: "rx_match (Cls p) s"
inductive_simps rx_lit_iff: "rx_match (Lit l) s"
inductive_simps rx_seq_iff: "rx_match (Seq a b) s"

definition Plus :: "rx \<Rightarrow> rx" where "Plus a = Seq a (Star a)"

text \<open>The expressions as the module writes them: an expression, then any number of it after a separator.\<close>

definition joined :: "rx \<Rightarrow> char \<Rightarrow> rx" where "joined a c = Seq a (Star (Seq (Lit [c]) a))"

definition PLAIN :: rx where "PLAIN = joined (Plus (Cls plain_char)) (CHR ''-'')"
definition SEGMENT :: rx where "SEGMENT = joined PLAIN (CHR ''.'')"
definition IRI :: rx where
  "IRI = Seq (Lit SCHEME) (Seq SEGMENT (Plus (Seq (Lit ''/'') SEGMENT)))"

lemma rx_star_cls: "rx_match (Star (Cls p)) s \<longleftrightarrow> list_all p s"
proof
  show "list_all p s" if "rx_match (Star (Cls p)) s"
    using that by (induction "Star (Cls p)" s rule: rx_match.induct) (auto simp: rx_cls_iff)
  show "rx_match (Star (Cls p)) s" if "list_all p s"
    using that
  proof (induction s)
    case (Cons c s)
    then show ?case using rx_match.star_more [OF rx_match.cls, of p c s] by simp
  qed (rule rx_match.star_none)
qed

lemma rx_plus_cls: "rx_match (Plus (Cls p)) s \<longleftrightarrow> s \<noteq> [] \<and> list_all p s"
proof
  show "s \<noteq> [] \<and> list_all p s" if "rx_match (Plus (Cls p)) s"
    using that by (auto simp: Plus_def rx_seq_iff rx_star_cls rx_cls_iff)
  show "rx_match (Plus (Cls p)) s" if s: "s \<noteq> [] \<and> list_all p s"
  proof -
    from s obtain c t where "s = [c] @ t" "p c" "list_all p t" by (cases s) auto
    then show ?thesis unfolding Plus_def
      by (metis rx_match.cls rx_match.seq rx_star_cls)
  qed
qed

text \<open>Pieces after a separator the expression never matches are the pieces of the text split at it.\<close>

lemma rx_star_sep:
  "rx_match (Star (Seq (Lit [c]) a)) s \<longleftrightarrow>
     (\<exists>ps. s = concat (map (\<lambda>p. c # p) ps) \<and> (\<forall>p \<in> set ps. rx_match a p))"
proof
  assume "rx_match (Star (Seq (Lit [c]) a)) s"
  then show "\<exists>ps. s = concat (map (\<lambda>p. c # p) ps) \<and> (\<forall>p \<in> set ps. rx_match a p)"
  proof (induction "Star (Seq (Lit [c]) a)" s rule: rx_match.induct)
    case star_none
    show ?case by (rule exI [of _ "[]"]) simp
  next
    case (star_more u t)
    then obtain p ps where "u = c # p" "rx_match a p"
      "t = concat (map (\<lambda>p. c # p) ps)" "\<forall>p \<in> set ps. rx_match a p"
      by (auto simp: rx_seq_iff rx_lit_iff)
    then show ?case by (intro exI [of _ "p # ps"]) simp
  qed
next
  assume "\<exists>ps. s = concat (map (\<lambda>p. c # p) ps) \<and> (\<forall>p \<in> set ps. rx_match a p)"
  then obtain ps where "s = concat (map (\<lambda>p. c # p) ps)" "\<forall>p \<in> set ps. rx_match a p" by blast
  then show "rx_match (Star (Seq (Lit [c]) a)) s"
  proof (induction ps arbitrary: s)
    case (Cons p ps)
    from Cons.prems have "rx_match (Seq (Lit [c]) a) ([c] @ p)"
      by (intro rx_match.seq rx_match.lit) simp
    from rx_match.star_more [OF this] Cons show ?case by simp
  qed (simp add: rx_match.star_none)
qed

lemma join_with_concat: "join_with [c] (p # ps) = p @ concat (map (\<lambda>p. c # p) ps)"
  by (induction ps arbitrary: p) auto

lemma rx_joined:
  assumes "\<And>s. rx_match a s \<Longrightarrow> c \<notin> set s"
  shows "rx_match (joined a c) s \<longleftrightarrow> (\<forall>p \<in> set (split_on c s). rx_match a p)"
proof
  assume "rx_match (joined a c) s"
  then obtain p ps where s: "s = join_with [c] (p # ps)" and m: "\<forall>q \<in> set (p # ps). rx_match a q"
    by (auto simp: joined_def rx_seq_iff rx_star_sep join_with_concat simp del: join_with.simps)
  have "split_on c s = p # ps"
    unfolding s by (rule split_join) (use m assms in auto)
  with m show "\<forall>p \<in> set (split_on c s). rx_match a p" by simp
next
  assume m: "\<forall>p \<in> set (split_on c s). rx_match a p"
  obtain p ps where ps: "split_on c s = p # ps"
    using split_on_not_Nil [of c s] by (cases "split_on c s") auto
  then have s: "s = p @ concat (map (\<lambda>p. c # p) ps)"
    by (metis join_split join_with_concat)
  with m ps show "rx_match (joined a c) s"
    by (auto simp: joined_def rx_seq_iff rx_star_sep)
qed


lemma plain_regex: "plain s \<longleftrightarrow> rx_match PLAIN s"
  unfolding PLAIN_def
  by (subst rx_joined) (auto simp: rx_plus_cls plain_def list_all_iff plain_char_def)

lemma plain_chars: "plain s \<Longrightarrow> c \<in> set s \<Longrightarrow> plain_char c \<or> c = CHR ''-''"
proof -
  assume "plain s" "c \<in> set s"
  from split_on_cover [OF \<open>c \<in> set s\<close>, of "CHR ''-''"] \<open>plain s\<close> show ?thesis
    by (auto simp: plain_def list_all_iff)
qed

lemma segment_regex: "segment s \<longleftrightarrow> rx_match SEGMENT s"
  unfolding SEGMENT_def
  by (subst rx_joined)
     (auto simp: plain_regex [symmetric] segment_def list_all_iff plain_char_def dest!: plain_chars)

lemma segment_chars:
  "segment s \<Longrightarrow> c \<in> set s \<Longrightarrow> plain_char c \<or> c = CHR ''-'' \<or> c = CHR ''.''"
proof -
  assume "segment s" "c \<in> set s"
  from split_on_cover [OF \<open>c \<in> set s\<close>, of "CHR ''.''"] \<open>segment s\<close> show ?thesis
    by (auto simp: segment_def list_all_iff dest!: plain_chars)
qed

lemma segment_no:
  assumes "segment s"
  shows "CHR ''/'' \<notin> set s" "CHR ''@'' \<notin> set s" "CHR ''#'' \<notin> set s"
  using segment_chars [OF assms, of "CHR ''/''"] segment_chars [OF assms, of "CHR ''@''"]
    segment_chars [OF assms, of "CHR ''#''"]
  by (auto simp: plain_char_def)

lemma plain_not_Nil [simp]: "\<not> plain []"
  by (simp add: plain_def)

lemma segment_not_Nil [simp]: "\<not> segment []"
  by (simp add: segment_def)

lemma plain_segment: "plain s \<Longrightarrow> segment s"
proof -
  assume s: "plain s"
  then have "CHR ''.'' \<notin> set s" by (auto dest: plain_chars simp: plain_char_def)
  with s show ?thesis by (simp add: segment_def split_on_none)
qed


section \<open>IRIs read apart and put together\<close>

lemma iri_shape_iff:
  "iri_shape s \<longleftrightarrow> (\<exists>host segments. s = SCHEME @ join_with ''/'' (host # segments) \<and>
     segments \<noteq> [] \<and> segment host \<and> list_all segment segments)"
proof
  assume s: "iri_shape s"
  then obtain t where t: "s = SCHEME @ t" by (auto simp: iri_shape_def starts_with_iff)
  with s obtain host segments where "split_on (CHR ''/'') t = host # segments"
    "segments \<noteq> []" "segment host" "list_all segment segments"
    by (auto simp: iri_shape_def split: list.splits)
  with t show "\<exists>host segments. s = SCHEME @ join_with ''/'' (host # segments) \<and>
     segments \<noteq> [] \<and> segment host \<and> list_all segment segments"
    by (metis join_split)
next
  assume "\<exists>host segments. s = SCHEME @ join_with ''/'' (host # segments) \<and>
     segments \<noteq> [] \<and> segment host \<and> list_all segment segments"
  then obtain host segments where s: "s = SCHEME @ join_with ''/'' (host # segments)"
    and h: "segments \<noteq> []" "segment host" "list_all segment segments" by blast
  from h have "split_on (CHR ''/'') (join_with ''/'' (host # segments)) = host # segments"
    by (intro split_join) (auto simp: list_all_iff dest: segment_no)
  with s h show "iri_shape s" by (simp add: iri_shape_def)
qed

lemma iri_split_join:
  assumes "segment host" "list_all segment segments"
  shows "iri_split (SCHEME @ join_with ''/'' (host # segments)) = (host, segments)"
proof -
  have "split_on (CHR ''/'') (join_with ''/'' (host # segments)) = host # segments"
    using assms by (intro split_join) (auto simp: list_all_iff dest: segment_no)
  then show ?thesis by (simp add: iri_split_def)
qed

lemma iri_shapeE:
  assumes "iri_shape s"
  obtains host segments where "s = SCHEME @ join_with ''/'' (host # segments)" "segments \<noteq> []"
    "segment host" "list_all segment segments" "iri_split s = (host, segments)"
  using assms iri_split_join unfolding iri_shape_iff by blast

lemma join_with_chars:
  "c \<in> set (join_with sep xs) \<Longrightarrow> c \<in> set sep \<or> (\<exists>x \<in> set xs. c \<in> set x)"
  by (induction sep xs rule: join_with.induct) auto

lemma iri_shape_no:
  assumes "iri_shape s"
  shows "CHR ''@'' \<notin> set s" "CHR ''#'' \<notin> set s"
proof -
  from assms obtain host segments where s: "s = SCHEME @ join_with ''/'' (host # segments)"
    "list_all segment (host # segments)" by (auto elim: iri_shapeE)
  show "CHR ''@'' \<notin> set s" "CHR ''#'' \<notin> set s"
    using s segment_no(2,3) by (auto simp: SCHEME_def list_all_iff dest!: join_with_chars)
qed

lemma iri_regex_shape: "iri_shape s \<longleftrightarrow> rx_match IRI s"
proof -
  have star: "rx_match (Star (Seq (Lit ''/'') SEGMENT)) t \<longleftrightarrow>
      (\<exists>ps. t = concat (map (\<lambda>p. CHR ''/'' # p) ps) \<and> list_all segment ps)" for t
    by (simp add: rx_star_sep segment_regex list_all_iff)
  have plus: "rx_match (Plus (Seq (Lit ''/'') SEGMENT)) t \<longleftrightarrow>
      (\<exists>ps. ps \<noteq> [] \<and> t = concat (map (\<lambda>p. CHR ''/'' # p) ps) \<and> list_all segment ps)" for t
  proof
    assume "rx_match (Plus (Seq (Lit ''/'') SEGMENT)) t"
    then obtain p ps where "t = (CHR ''/'' # p) @ concat (map (\<lambda>p. CHR ''/'' # p) ps)"
      "segment p" "list_all segment ps"
      unfolding Plus_def rx_seq_iff star by (auto simp: rx_lit_iff segment_regex)
    then show "\<exists>ps. ps \<noteq> [] \<and> t = concat (map (\<lambda>p. CHR ''/'' # p) ps) \<and> list_all segment ps"
      by (intro exI [of _ "p # ps"]) simp
  next
    assume "\<exists>ps. ps \<noteq> [] \<and> t = concat (map (\<lambda>p. CHR ''/'' # p) ps) \<and> list_all segment ps"
    then obtain p ps where t: "t = (CHR ''/'' # p) @ concat (map (\<lambda>p. CHR ''/'' # p) ps)"
      and m: "segment p" "list_all segment ps" by (auto simp: neq_Nil_conv)
    from m have "rx_match (Seq (Lit ''/'') SEGMENT) (CHR ''/'' # p)"
      by (auto simp: rx_seq_iff rx_lit_iff segment_regex)
    with m show "rx_match (Plus (Seq (Lit ''/'') SEGMENT)) t"
      unfolding Plus_def t rx_seq_iff [of "Seq (Lit ''/'') SEGMENT"] star by blast
  qed
  have "rx_match IRI s \<longleftrightarrow> (\<exists>host ps. s = SCHEME @ host @ concat (map (\<lambda>p. CHR ''/'' # p) ps) \<and>
      segment host \<and> ps \<noteq> [] \<and> list_all segment ps)"
    unfolding IRI_def rx_seq_iff [of "Lit SCHEME"] rx_seq_iff [of SEGMENT] plus
    by (auto simp: rx_lit_iff segment_regex)
  then show ?thesis
    unfolding iri_shape_iff join_with_concat by blast
qed

lemma number_shape_nat_str: "1 \<le> n \<Longrightarrow> number_shape (nat_str n)"
  using hd_nat_str [of n] nat_str_digits by (auto simp: number_shape_def list_all_iff)

lemma names_version_iff:
  "names_version text = Some (name, number) \<longleftrightarrow>
     iri name \<and> 1 \<le> number \<and> length text \<le> LONGEST \<and> text = versioned name number"
proof
  assume v: "names_version text = Some (name, number)"
  obtain a m ds where p: "partition_on (CHR ''@'') text = (a, m, ds)" by (metis prod_cases3)
  with v have m: "m \<noteq> []" and ds: "number_shape ds" and a: "iri a" "length text \<le> LONGEST"
    and n: "name = a" "number = int (str_nat ds)"
    by (auto simp: names_version_def split: if_splits)
  from m p have "text = a @ ''@'' @ ds"
    by (cases rule: partition_on_cases [OF p]) auto
  with ds n a show "iri name \<and> 1 \<le> number \<and> length text \<le> LONGEST \<and> text = versioned name number"
    using str_nat_pos [of ds] by (auto simp: versioned_def int_str_def number_shape_def nat_str_of_str)
next
  assume a: "iri name \<and> 1 \<le> number \<and> length text \<le> LONGEST \<and> text = versioned name number"
  then have "partition_on (CHR ''@'') text = (name, ''@'', nat_str (nat number))"
    by (simp add: versioned_def int_str_def iri_def iri_shape_no)
  with a show "names_version text = Some (name, number)"
    using number_shape_nat_str [of "nat number"]
    by (auto simp: names_version_def iri_def iri_shape_def)
qed


section \<open>Properties of the module's functions\<close>

lemma segment_place_no: "segment s \<Longrightarrow> CHR ''/'' \<notin> set (versioned s n)"
  using nat_str_digits [of "CHR ''/''"] segment_no [of s]
  by (auto simp: versioned_def int_str_def is_digit_def)

lemma names_version_iri_None: "iri s \<Longrightarrow> names_version s = None"
  using iri_shape_no(1) [of s] by (auto simp: names_version_def partition_on_none iri_def)

lemma names_version_versioned:
  "iri a \<Longrightarrow> 1 \<le> n \<Longrightarrow> length (versioned a n) \<le> LONGEST \<Longrightarrow> names_version (versioned a n) = Some (a, n)"
  by (simp add: names_version_iff)

text \<open>The steps of a place put back together are the name that was placed, version and all.\<close>

lemma versioned_join:
  "segments \<noteq> [] \<Longrightarrow>
    versioned (SCHEME @ join_with ''/'' (host # segments)) n =
    SCHEME @ join_with ''/'' (host # butlast segments @ [versioned (last segments) n])"
proof -
  assume s: "segments \<noteq> []"
  have "join_with ''/'' (host # segments) = join_with ''/'' ((host # butlast segments) @ [last segments])"
    using s by simp
  then show ?thesis
    unfolding versioned_def
    by (simp only: join_with_append list.distinct not_Cons_self2 append_Cons join_with.simps simp_thms)
       (simp add: join_with_append [of "host # butlast segments", simplified])
qed

text \<open>C: every artifact and every version of a type is read back from the place an export gives it.\<close>

lemma filed_names_place:
  assumes "iri a"
    and "case number of None \<Rightarrow> True | Some n \<Rightarrow> 1 \<le> n \<and> length (versioned a n) \<le> LONGEST"
    and "names_place a number = Some steps"
  shows "filed steps = Some (a, number)"
proof -
  from assms(1) obtain host segments where a: "a = SCHEME @ join_with ''/'' (host # segments)"
    "segments \<noteq> []" and sp: "iri_split a = (host, segments)"
    by (auto simp: iri_def elim: iri_shapeE)
  let ?last = "case number of None \<Rightarrow> last segments | Some n \<Rightarrow> versioned (last segments) n"
  have steps: "steps = host # butlast segments @ [?last @ FILE]"
    using assms(3) a(2) sp by (simp add: names_place_def)
  have w: "SCHEME @ join_with ''/'' (butlast steps @ [removesuffix FILE (last steps)]) =
      (case number of None \<Rightarrow> a | Some n \<Rightarrow> versioned a n)"
    using a by (simp add: steps versioned_join butlast_append split: option.splits)
  have "2 \<le> length steps" "ends_with FILE (last steps)" by (auto simp: steps)
  with w assms(1,2) show ?thesis
    by (cases number) (simp_all add: filed_def names_version_iri_None names_version_versioned Let_def)
qed

lemma names_place_Some: "iri_shape a \<Longrightarrow> \<exists>steps. names_place a number = Some steps"
  by (auto simp: names_place_def elim: iri_shapeE)

lemma names_order_inj:
  assumes "iri a" "iri b" "names_order a = names_order b"
  shows "a = b"
proof -
  obtain steps where "names_place a None = Some steps" "names_place b None = Some steps"
    using assms names_place_Some [of a None] by (auto simp: names_order_def iri_def)
  with filed_names_place [of a None steps] filed_names_place [of b None steps] assms show ?thesis
    by simp
qed


text \<open>The other direction: a file's place is the one the layout gives what it is read as.\<close>

lemma names_place_filed:
  assumes "filed steps = Some (a, number)" and no: "\<forall>s \<in> set steps. CHR ''/'' \<notin> set s"
  shows "names_place a number = Some steps \<and> iri a"
proof -
  let ?stem = "removesuffix FILE (last steps)"
  from assms(1) have len: "2 \<le> length steps" and "ends_with FILE (last steps)"
    by (auto simp: filed_def split: if_splits)
  then obtain stem where stem: "last steps = stem @ FILE" by (auto simp: ends_with_iff)
  define w where "w = SCHEME @ join_with ''/'' (butlast steps @ [stem])"
  from assms(1) stem have f: "(case names_version w of Some (name, n) \<Rightarrow> Some (name, Some n)
      | None \<Rightarrow> if iri w then Some (w, None) else None) = Some (a, number)"
    unfolding w_def by (auto simp: filed_def Let_def split: if_splits)
  have clean: "\<forall>x \<in> set (butlast steps @ [stem]). CHR ''/'' \<notin> set x"
    using no stem len last_in_set [of steps] by (cases "steps = []") (auto dest: in_set_butlastD)
  have split_w: "split_on (CHR ''/'') (removeprefix SCHEME w) = butlast steps @ [stem]"
    unfolding w_def removeprefix_append
    by (rule split_join) (use clean in auto)
  have steps: "steps = butlast steps @ [stem @ FILE]"
    using len stem by (metis append_butlast_last_id list.size(3) not_numeral_le_zero)
  obtain h t where ht: "butlast steps = h # t"
    using len by (cases steps rule: rev_cases; cases "butlast steps") auto
  show ?thesis
  proof (cases "names_version w")
    case None
    with f have a: "a = w" "number = None" "iri w" by (auto split: if_splits)
    with split_w ht steps show ?thesis by (simp add: names_place_def iri_split_def)
  next
    case (Some v)
    obtain name n where v: "v = (name, n)" by (cases v)
    with Some f have a: "a = name" "number = Some n" by auto
    from Some v have name: "iri name" "w = versioned name n" by (auto simp: names_version_iff)
    from name(1) obtain host segments where s: "name = SCHEME @ join_with ''/'' (host # segments)"
      "segments \<noteq> []" "segment host" "list_all segment segments" and sp: "iri_split name = (host, segments)"
      by (auto simp: iri_def elim: iri_shapeE)
    have "split_on (CHR ''/'') (removeprefix SCHEME w) =
        host # butlast segments @ [versioned (last segments) n]"
      unfolding name(2) s(1) versioned_join [OF s(2)] removeprefix_append
      by (rule split_join) (use s segment_place_no in \<open>auto simp: list_all_iff segment_no dest: in_set_butlastD\<close>)
    with split_w steps have "steps = host # butlast segments @ [versioned (last segments) n @ FILE]"
      by (metis append1_eq_conv append_Cons append_assoc)
    with a sp s(2) name(1) show ?thesis by (simp add: names_place_def)
  qed
qed

subsection \<open>What an IRI sits under\<close>

lemma above_join:
  assumes "segment host" "list_all segment segments"
  shows "above (SCHEME @ join_with ''/'' (host # segments)) =
    map (\<lambda>count. SCHEME @ join_with ''/'' (host # take count segments)) (rev [1 ..< length segments])"
  by (simp add: above_def iri_split_join [OF assms])

lemma set_above:
  assumes "segment host" "list_all segment segments"
  shows "b \<in> set (above (SCHEME @ join_with ''/'' (host # segments))) \<longleftrightarrow>
    (\<exists>k. 1 \<le> k \<and> k < length segments \<and> b = SCHEME @ join_with ''/'' (host # take k segments))"
  unfolding above_join [OF assms] by auto

lemma take_segments: "list_all segment segments \<Longrightarrow> list_all segment (take k segments)"
  by (auto simp: list_all_iff dest: in_set_takeD)

lemma above_iri_shape: "iri_shape a \<Longrightarrow> b \<in> set (above a) \<Longrightarrow> iri_shape b"
proof -
  assume "iri_shape a" "b \<in> set (above a)"
  then obtain host segs k where "b = SCHEME @ join_with ''/'' (host # take k segs)"
    "1 \<le> k" "k < length segs" "segment host" "list_all segment segs"
    by (auto simp: set_above elim!: iri_shapeE)
  then show ?thesis unfolding iri_shape_iff using take_segments [of segs k]
    by (intro exI [of _ host] exI [of _ "take k segs"]) auto
qed

lemma below_iff_above:
  assumes "iri_shape a" "iri_shape b"
  shows "below a b \<noteq> None \<longleftrightarrow> b \<in> set (above a)"
proof -
  from assms(1) obtain host segs where a: "a = SCHEME @ join_with ''/'' (host # segs)" "segs \<noteq> []"
    "segment host" "list_all segment segs" by (auto elim: iri_shapeE)
  from assms(2) obtain host' segs' where b: "b = SCHEME @ join_with ''/'' (host' # segs')" "segs' \<noteq> []"
    "segment host'" "list_all segment segs'" by (auto elim: iri_shapeE)
  have sa: "split_on (CHR ''/'') (join_with ''/'' (host # segs)) = host # segs"
    using a by (intro split_join) (auto simp: list_all_iff dest: segment_no)
  have sb: "split_on (CHR ''/'') (join_with ''/'' (host' # segs')) = host' # segs'"
    using b by (intro split_join) (auto simp: list_all_iff dest: segment_no)
  have "below a b \<noteq> None \<longleftrightarrow>
      (\<exists>rest. join_with ''/'' (host # segs) = join_with ''/'' (host' # segs') @ CHR ''/'' # rest)"
    by (auto simp: below_def Let_def starts_with_iff a(1) b(1))
  also have "\<dots> \<longleftrightarrow> (\<exists>more. more \<noteq> [] \<and> host # segs = (host' # segs') @ more)"
  proof
    assume "\<exists>rest. join_with ''/'' (host # segs) = join_with ''/'' (host' # segs') @ CHR ''/'' # rest"
    then obtain rest where "host # segs = (host' # segs') @ split_on (CHR ''/'') rest"
      using sa sb split_on_append_sep by metis
    then show "\<exists>more. more \<noteq> [] \<and> host # segs = (host' # segs') @ more" using split_on_not_Nil by blast
  next
    assume "\<exists>more. more \<noteq> [] \<and> host # segs = (host' # segs') @ more"
    then obtain more where "more \<noteq> []" "host # segs = (host' # segs') @ more" by blast
    then show "\<exists>rest. join_with ''/'' (host # segs) = join_with ''/'' (host' # segs') @ CHR ''/'' # rest"
      using join_with_append [of "host' # segs'" more "''/''"] by auto
  qed
  also have "\<dots> \<longleftrightarrow> host = host' \<and> (\<exists>k. 1 \<le> k \<and> k < length segs \<and> segs' = take k segs)"
    using b(2) by (auto simp: Suc_le_eq intro!: exI [of _ "length segs'"]
      dest!: arg_cong [of segs _ length] append_eq_conv_conj [THEN iffD1, OF sym])
      (metis append_take_drop_id drop_eq_Nil not_le)
  also have "\<dots> \<longleftrightarrow> b \<in> set (above a)"
    unfolding a(1) set_above [OF a(3,4)] b(1)
    by (metis a(3,4) b(3,4) iri_split_join prod.inject take_segments)
  finally show ?thesis .
qed

lemma above_nearest_first:
  assumes "iri_shape a"
  shows "sorted_wrt (\<lambda>b c. c \<in> set (above b)) (above a)"
proof -
  from assms obtain host segs where a: "a = SCHEME @ join_with ''/'' (host # segs)" "segs \<noteq> []"
    and s: "segment host" "list_all segment segs" by (auto elim: iri_shapeE)
  show ?thesis
    unfolding a(1) above_join [OF s] sorted_wrt_map sorted_wrt_rev
  proof (rule sorted_wrt_mono_rel [OF _ sorted_wrt_upt])
    fix i j assume i: "i \<in> set [1..<length segs]" and j: "j \<in> set [1..<length segs]" and "i < j"
    have "take i segs = take i (take j segs)" using \<open>i < j\<close> by (simp add: min_def)
    with i j \<open>i < j\<close> show "SCHEME @ join_with ''/'' (host # take i segs)
        \<in> set (above (SCHEME @ join_with ''/'' (host # take j segs)))"
      unfolding set_above [OF s(1) take_segments [OF s(2)]]
      by (intro exI [of _ i]) auto
  qed
qed

section \<open>The module's contract\<close>

text \<open>
  \<open>iri\<close> accepts exactly the texts of at most 512 characters that the module's regular expression
  \<open>IRI\<close> matches in full: \<open>https://\<close>, a host and one or more segments.
\<close>

theorem iri_grammar: "iri s \<longleftrightarrow> length s \<le> LONGEST \<and> rx_match IRI s"
  by (simp add: iri_def iri_regex_shape)

text \<open>
  \<open>version\<close> reads a text as a type's IRI and a number exactly when \<open>versioned\<close> writes that text of an
  IRI and a number from 1 up, and the text is not too long: one spelling for each version, no leading zero.
\<close>

theorem version_reading:
  "names_version t = Some (name, number) \<longleftrightarrow>
     iri name \<and> 1 \<le> number \<and> length t \<le> LONGEST \<and> t = versioned name number"
  by (rule names_version_iff)

text \<open>
  every artifact, and every version of a type, has a place in an export, and the file there is read back
  as that artifact and that version.
\<close>

theorem place_read_back:
  assumes "iri a"
    and "case number of None \<Rightarrow> True | Some n \<Rightarrow> 1 \<le> n \<and> length (versioned a n) \<le> LONGEST"
  shows "\<exists>steps. names_place a number = Some steps \<and> filed steps = Some (a, number)"
  using assms names_place_Some [of a number] filed_names_place [of a number] by (auto simp: iri_def)

theorem place_read_back_witness:
  "names_place ''https://a.io/t/x'' None = Some [''a.io'', ''t'', ''x.yaml''] \<and>
   (\<exists>steps. names_place ''https://a.io/t'' (Some 12) = Some steps \<and> filed steps = Some (''https://a.io/t'', Some 12))"
proof -
  have "iri ''https://a.io/t''" by code_simp
  moreover have "length (versioned ''https://a.io/t'' 12) \<le> LONGEST" by code_simp
  ultimately have "\<exists>steps. names_place ''https://a.io/t'' (Some 12) = Some steps \<and>
      filed steps = Some (''https://a.io/t'', Some 12)"
    using place_read_back [of "''https://a.io/t''" "Some 12"] by simp
  moreover have "names_place ''https://a.io/t/x'' None = Some [''a.io'', ''t'', ''x.yaml'']" by code_simp
  ultimately show ?thesis by blast
qed

text \<open>
  a file is read as an artifact or a version of a type only at the place an export gives it: no two places
  read as the same thing, and what is read is an IRI of the grammar.
\<close>

theorem file_place_exact:
  assumes "filed steps = Some (a, number)" "\<forall>s \<in> set steps. CHR ''/'' \<notin> set s"
  shows "names_place a number = Some steps \<and> iri a"
  using assms by (rule names_place_filed)

theorem file_place_exact_witness:
  "names_place ''https://a.io/t'' (Some 3) = Some [''a.io'', ''t@3.yaml''] \<and> iri ''https://a.io/t''"
proof (rule file_place_exact)
  show "filed [''a.io'', ''t@3.yaml''] = Some (''https://a.io/t'', Some 3)" by code_simp
qed simp

text \<open>
  \<open>above\<close> gives every IRI an IRI sits under, and only those, the nearest first: an IRI is among them exactly when
  \<open>below\<close> finds the first under it, and each of them sits under every one that comes after it.
\<close>

theorem above_exact:
  assumes "iri a"
  shows "(b \<in> set (above a) \<longleftrightarrow> iri_shape b \<and> below a b \<noteq> None) \<and>
    sorted_wrt (\<lambda>b c. c \<in> set (above b)) (above a)"
  using assms below_iff_above [of a b] above_iri_shape [of a b] above_nearest_first [of a]
  by (auto simp: iri_def)

theorem above_exact_witness:
  "above ''https://a.io/t/u/x'' = [''https://a.io/t/u'', ''https://a.io/t''] \<and>
   below ''https://a.io/t/u/x'' ''https://a.io/t'' \<noteq> None"
proof -
  have a: "iri ''https://a.io/t/u/x''" by code_simp
  have l: "above ''https://a.io/t/u/x'' = [''https://a.io/t/u'', ''https://a.io/t'']" by code_simp
  have "''https://a.io/t'' \<in> set (above ''https://a.io/t/u/x'')" unfolding l by simp
  with above_exact [OF a, of "''https://a.io/t''"] l show ?thesis by blast
qed

end
