(* ===== verification/KB_Data.thy ===== *)
theory KB_Data
  imports KB_Names
begin

text \<open>
  The data kb keeps: a value as YAML 1.2 reads it, with a mapping as its entries in order. A mapping's key
  is text or another scalar (\<open>KOther\<close>); a float is carried as the text Python writes it as. Looking a text key up, putting an entry (in place, or at the end, as a Python
  dictionary does), and the text Python's \<open>repr\<close> gives of a value are defined here.
\<close>

datatype scalar = SNull | SBool bool | SInt int | SFloat string

datatype key = KText string | KOther scalar

datatype val = VNull | VBool bool | VInt int | VFloat string | VStr string
  | VList "val list" | VMap "(key \<times> val) list"

type_synonym obj = "(key \<times> val) list"

text \<open>\<open>str\<close> of a scalar, and of a key.\<close>

fun scalar_str :: "scalar \<Rightarrow> string" where
  "scalar_str SNull = ''None''"
| "scalar_str (SBool b) = (if b then ''True'' else ''False'')"
| "scalar_str (SInt i) = int_str i"
| "scalar_str (SFloat s) = s"

fun key_str :: "key \<Rightarrow> string" where
  "key_str (KText s) = s"
| "key_str (KOther s) = scalar_str s"

abbreviation dget :: "obj \<Rightarrow> string \<Rightarrow> val option" where
  "dget m k \<equiv> map_of m (KText k)"

abbreviation dput :: "string \<Rightarrow> val \<Rightarrow> obj \<Rightarrow> obj" where
  "dput k v m \<equiv> AList.update (KText k) v m"

abbreviation dkeys :: "('k \<times> 'v) list \<Rightarrow> 'k list" where
  "dkeys m \<equiv> map fst m"

text \<open>A mapping as Python keeps one, at every depth: each key once.\<close>

fun well_keyed :: "val \<Rightarrow> bool" where
  "well_keyed (VList xs) = (\<forall>x \<in> set xs. well_keyed x)"
| "well_keyed (VMap m) = (distinct (map fst m) \<and> (\<forall>e \<in> set m. well_keyed (snd e)))"
| "well_keyed _ = True"

definition as_map :: "val option \<Rightarrow> obj" where
  "as_map v = (case v of Some (VMap m) \<Rightarrow> m | _ \<Rightarrow> [])"

definition is_list :: "val \<Rightarrow> bool" where
  "is_list v = (case v of VList _ \<Rightarrow> True | _ \<Rightarrow> False)"

definition is_map :: "val \<Rightarrow> bool" where
  "is_map v = (case v of VMap _ \<Rightarrow> True | _ \<Rightarrow> False)"

fun py_repr :: "val \<Rightarrow> string" where
  "py_repr VNull = ''None''"
| "py_repr (VBool b) = (if b then ''True'' else ''False'')"
| "py_repr (VInt i) = int_str i"
| "py_repr (VFloat s) = s"
| "py_repr (VStr s) = repr_str s"
| "py_repr (VList xs) = ''['' @ join_with '', '' (map py_repr xs) @ '']''"
| "py_repr (VMap m) = ''{'' @ join_with '', ''
     (map (\<lambda>e. (case fst e of KText s \<Rightarrow> repr_str s | KOther s \<Rightarrow> scalar_str s) @ '': '' @ py_repr (snd e)) m) @ ''}''"

text \<open>\<open>str(value)\<close>.\<close>

definition py_str :: "val \<Rightarrow> string" where
  "py_str v = (case v of VStr s \<Rightarrow> s | _ \<Rightarrow> py_repr v)"

subsection \<open>Sizes, for recursion into what a mapping holds\<close>

lemma size_entry [termination_simp]:
  "map_of m k = Some v \<Longrightarrow> size v < size_list (size_prod (\<lambda>_. 0) size) m"
  by (induction m) (auto split: if_splits)

lemma size_listed [termination_simp]: "x \<in> set xs \<Longrightarrow> size x < size_list size xs"
  by (induction xs) auto

lemma size_entry_in [termination_simp]:
  "(k, v) \<in> set m \<Longrightarrow> size v < size_list (size_prod (\<lambda>_. 0) size) m"
  by (induction m) auto

subsection \<open>Entries put and looked up\<close>

lemma dget_dput: "map_of (AList.update k v m) k' = (if k' = k then Some v else map_of m k')"
  by (simp add: update_conv')

lemma well_keyed_get: "well_keyed (VMap m) \<Longrightarrow> map_of m k = Some v \<Longrightarrow> well_keyed v"
  by (fastforce dest: map_of_SomeD)

subsection \<open>Python's equality of values\<close>

text \<open>
  \<open>==\<close> on values: a mapping is equal to one with the same keys and equal values, whatever their order; true and
  false are equal to 1 and 0. A float is compared as the text it is written as, so an integer is never equal
  to one here.
\<close>

fun py_eq :: "val \<Rightarrow> val \<Rightarrow> bool" where
  "py_eq (VList xs) w = (case w of VList ys \<Rightarrow> list_all2 py_eq xs ys | _ \<Rightarrow> False)"
| "py_eq (VMap m) w = (case w of
     VMap n \<Rightarrow> length m = length n \<and>
       list_all (\<lambda>e. case map_of n (fst e) of Some u \<Rightarrow> py_eq (snd e) u | None \<Rightarrow> False) m
   | _ \<Rightarrow> False)"
| "py_eq (VBool b) w = (case w of VBool c \<Rightarrow> b = c | VInt i \<Rightarrow> i = (if b then 1 else 0) | _ \<Rightarrow> False)"
| "py_eq (VInt i) w = (case w of VBool c \<Rightarrow> i = (if c then 1 else 0) | VInt j \<Rightarrow> i = j | _ \<Rightarrow> False)"
| "py_eq v w = (v = w)"

lemma py_eq_refl: "well_keyed v \<Longrightarrow> py_eq v v"
proof (induction v)
  case (VList xs)
  then show ?case by (auto simp: list.rel_refl_strong list_all2_same)
next
  case (VMap m)
  have "map_of m (fst e) = Some (snd e)" if "e \<in> set m" for e
    using map_of_is_SomeI [of m "fst e" "snd e"] that VMap.prems by simp
  with VMap show ?case by (fastforce simp: list_all_iff)
qed auto

text \<open>The same entries in another order are the same mapping.\<close>

lemma py_eq_entries:
  assumes "length n = length m" "\<And>k v. (k, v) \<in> set m \<Longrightarrow> \<exists>u. map_of n k = Some u \<and> py_eq v u"
  shows "py_eq (VMap m) (VMap n)"
  using assms by (fastforce simp: list_all_iff)

declare py_eq.simps(2) [simp del]

lemmas py_eq_map = py_eq.simps(2)

lemma well_keyed_updated: "well_keyed (VMap m) \<Longrightarrow> well_keyed v \<Longrightarrow> well_keyed (VMap (AList.update k v m))"
proof (induction m)
  case (Cons e m)
  then show ?case by (cases e) (auto simp: update_keys)
qed simp

end
