(* ===== verification/KB_Item_Names.thy ===== *)
theory KB_Item_Names
  imports KB_Data
begin

text \<open>
  \<open>item_names.py\<close>: the name a title gives (\<open>slug\<close>), the numbering that keeps a name free (\<open>numbered\<close>),
  the names the items of an artifact's collections are given, at every depth (\<open>items\<close>), the names a create
  gives its items that they may not carry (\<open>given\<close>) and those a revision hands back that the store could not
  have given (\<open>handed_back\<close>). \<open>inner\<close> is the caller's function from a collection's declaration to the
  collections its item type declares, as in the source.
\<close>

section \<open>Names made from titles\<close>

text \<open>\<open>title\<close>: None where the source gives None.\<close>

definition item_title :: "val option \<Rightarrow> string option" where
  "item_title v = (case v of
     Some (VBool b) \<Rightarrow> Some (if b then ''true'' else ''false'')
   | Some (VStr s) \<Rightarrow> Some s
   | Some (VInt i) \<Rightarrow> Some (int_str i)
   | Some (VFloat s) \<Rightarrow> Some s
   | _ \<Rightarrow> None)"

text \<open>\<open>str.lower\<close> on code points below 256: A-Z, and the capital letters of Latin-1.\<close>

definition lower_char :: "char \<Rightarrow> char" where
  "lower_char c = (let n = of_char c :: nat in
     if (65 \<le> n \<and> n \<le> 90) \<or> (192 \<le> n \<and> n \<le> 222 \<and> n \<noteq> 215) then char_of (n + 32) else c)"

text \<open>\<open>re.sub\<close>: every run of anything but a-z and 0-9 becomes one hyphen.\<close>

function hyphened :: "string \<Rightarrow> string" where
  "hyphened [] = []"
| "hyphened (c # cs) =
     (if plain_char c then c # hyphened cs
      else CHR ''-'' # hyphened (dropWhile (\<lambda>x. \<not> plain_char x) cs))"
  by pat_completeness auto
termination
  by (relation "measure length") (auto simp: length_dropWhile_le le_imp_less_Suc)

definition strip_hyphens :: "string \<Rightarrow> string" where
  "strip_hyphens s = rev (dropWhile (\<lambda>c. c = CHR ''-'') (rev (dropWhile (\<lambda>c. c = CHR ''-'') s)))"

definition slug :: "string \<Rightarrow> string" where
  "slug t = strip_hyphens (hyphened (map lower_char t))"

text \<open>
  \<open>numbered\<close>: the loop that tries the name, then the name with -2, -3 and so on. The names taken are a finite
  list, so the loop ends: each turn it takes leaves one taken name fewer above its number.
\<close>

definition candidate :: "string \<Rightarrow> nat \<Rightarrow> string" where
  "candidate name number = (if number \<le> 1 then name else name @ ''-'' @ nat_str number)"

function numbered_from :: "string \<Rightarrow> val list \<Rightarrow> nat \<Rightarrow> string" where
  "numbered_from name taken number =
     (if VStr (candidate name number) \<in> set taken then numbered_from name taken (Suc number)
      else candidate name number)"
  by pat_completeness auto

lemma candidate_inj: "1 \<le> i \<Longrightarrow> 1 \<le> j \<Longrightarrow> candidate name i = candidate name j \<Longrightarrow> i = j"
  by (auto simp: candidate_def split: if_splits)

lemma numbered_from_smaller:
  assumes "VStr (candidate name number) \<in> set taken"
  shows "card {k. Suc number \<le> k \<and> 1 \<le> k \<and> VStr (candidate name k) \<in> set taken} + (1 - Suc number)
    < card {k. number \<le> k \<and> 1 \<le> k \<and> VStr (candidate name k) \<in> set taken} + (1 - number)"
proof -
  let ?later = "{k. Suc number \<le> k \<and> 1 \<le> k \<and> VStr (candidate name k) \<in> set taken}"
  let ?now = "{k. number \<le> k \<and> 1 \<le> k \<and> VStr (candidate name k) \<in> set taken}"
  have "inj_on (\<lambda>k. VStr (candidate name k)) ?now"
    by (rule inj_onI) (rule candidate_inj [of _ _ name], auto)
  moreover have "(\<lambda>k. VStr (candidate name k)) ` ?now \<subseteq> set taken" by auto
  ultimately have fin: "finite ?now" by (rule inj_on_finite) simp
  have sub: "?later \<subseteq> ?now" by auto
  show ?thesis
  proof (cases "number = 0")
    case True
    with card_mono [OF fin sub] show ?thesis by simp
  next
    case False
    with assms have "number \<in> ?now" "number \<notin> ?later" by auto
    with sub have "?later \<subset> ?now" by blast
    with fin have "card ?later < card ?now" by (rule psubset_card_mono)
    with False show ?thesis by simp
  qed
qed

termination numbered_from
  by (relation "measure (\<lambda>(name, taken, number).
        card {k. number \<le> k \<and> 1 \<le> k \<and> VStr (candidate name k) \<in> set taken} + (1 - number))")
     (use numbered_from_smaller in auto)

declare numbered_from.simps [simp del]

definition numbered :: "string \<Rightarrow> val list \<Rightarrow> string" where
  "numbered name taken = numbered_from name taken 1"

section \<open>The items of an artifact named\<close>

text \<open>\<open>_listed\<close>: a value that is not a list, and none, hold no items.\<close>

definition listed :: "obj \<Rightarrow> key \<Rightarrow> val list" where
  "listed node collection = (case map_of node collection of Some (VList found) \<Rightarrow> found | _ \<Rightarrow> [])"

lemma size_listed_items [termination_simp]:
  "size_list size (listed node collection) \<le> size_list (size_prod (\<lambda>_. 0) size) node"
  using size_entry [of node collection]
  by (fastforce simp: listed_def split: option.splits val.splits)

text \<open>The names the items of a collection carry (\<open>taken\<close>, as it starts).\<close>

definition carried_names :: "val list \<Rightarrow> val list" where
  "carried_names found =
     concat (map (\<lambda>item. case item of VMap m \<Rightarrow> (case dget m ''id'' of Some i \<Rightarrow> [i] | None \<Rightarrow> []) | _ \<Rightarrow> []) found)"

definition made_name :: "obj \<Rightarrow> nat \<Rightarrow> val list \<Rightarrow> string" where
  "made_name item place taken =
     numbered (case item_title (dget item ''title'') of Some t \<Rightarrow> slug t | None \<Rightarrow> nat_str place) taken"

text \<open>
  \<open>items\<close> writes into the node it is given; here the collections it writes are computed from the node as it
  came (\<open>named_collections\<close>) and then put over it, which is the same since a dictionary holds each
  collection once and a name is text, never a collection.
\<close>

function (sequential) named_collections :: "obj \<Rightarrow> obj \<Rightarrow> (val \<Rightarrow> obj) \<Rightarrow> obj"
  and named_items :: "val \<Rightarrow> val list \<Rightarrow> nat \<Rightarrow> val list \<Rightarrow> (val \<Rightarrow> obj) \<Rightarrow> val list" where
  "named_collections [] node inner = []"
| "named_collections ((collection, part) # parts) node inner =
     (case map_of node collection of
        Some (VList found) \<Rightarrow>
          (collection, VList (named_items part (carried_names found) 1 found inner))
            # named_collections parts node inner
      | _ \<Rightarrow> named_collections parts node inner)"
| "named_items part taken place [] inner = []"
| "named_items part taken place (VMap item # rest) inner =
     (case dget item ''id'' of
        Some _ \<Rightarrow> VMap (dict_over item (named_collections (inner part) item inner))
          # named_items part taken (Suc place) rest inner
      | None \<Rightarrow>
          (let name = VStr (made_name item place taken) in
           VMap (dict_over (dput ''id'' name item) (named_collections (inner part) item inner))
             # named_items part (taken @ [name]) (Suc place) rest inner))"
| "named_items part taken place (other # rest) inner =
     other # named_items part taken (Suc place) rest inner"
  by pat_completeness auto

termination
  by (relation "inv_image (less_than <*lex*> less_than)
        (\<lambda>x. case x of Inl (parts, node, inner) \<Rightarrow> (size_list (size_prod (\<lambda>_. 0) size) node, length parts)
                   | Inr (part, taken, place, found, inner) \<Rightarrow> (size_list size found, 0))")
     (auto dest: size_entry)

definition items :: "obj \<Rightarrow> obj \<Rightarrow> (val \<Rightarrow> obj) \<Rightarrow> obj" where
  "items parts node inner = dict_over node (named_collections parts node inner)"

section \<open>Names that may not be carried\<close>

datatype why = NotPlain | Repeated | Unknown

record misnamed =
  mis_collection :: string
  mis_index :: nat
  mis_name :: val
  mis_why :: why

text \<open>\<open>_unfit\<close>: the fault of a name, and the names seen from here on.\<close>

definition unfit :: "string \<Rightarrow> nat \<Rightarrow> val \<Rightarrow> string list \<Rightarrow> misnamed list \<times> string list" where
  "unfit collection index name seen = (case name of
     VStr s \<Rightarrow>
       if \<not> plain s then ([\<lparr>mis_collection = collection, mis_index = index, mis_name = name, mis_why = NotPlain\<rparr>], seen)
       else if s \<in> set seen
         then ([\<lparr>mis_collection = collection, mis_index = index, mis_name = name, mis_why = Repeated\<rparr>], seen)
       else ([], s # seen)
   | _ \<Rightarrow> ([\<lparr>mis_collection = collection, mis_index = index, mis_name = name, mis_why = NotPlain\<rparr>], seen))"

function (sequential) given :: "obj \<Rightarrow> obj \<Rightarrow> (val \<Rightarrow> obj) \<Rightarrow> string list \<Rightarrow> misnamed list"
  and given_items :: "val \<Rightarrow> string list \<Rightarrow> nat \<Rightarrow> string list \<Rightarrow> val list \<Rightarrow> (val \<Rightarrow> obj) \<Rightarrow> misnamed list" where
  "given [] node inner at = []"
| "given ((collection, part) # parts) node inner at =
     given_items part (at @ [key_str collection]) 0 [] (listed node collection) inner
       @ given parts node inner at"
| "given_items part here index seen [] inner = []"
| "given_items part here index seen (VMap item # rest) inner =
     (let (faults, seen') = (case dget item ''id'' of
            Some name \<Rightarrow> unfit (names_placed here) index name seen | None \<Rightarrow> ([], seen))
      in faults @ given (inner part) item inner (here @ [nat_str index])
           @ given_items part here (Suc index) seen' rest inner)"
| "given_items part here index seen (other # rest) inner =
     given_items part here (Suc index) seen rest inner"
  by pat_completeness auto

termination
  by (relation "inv_image (less_than <*lex*> less_than)
        (\<lambda>x. case x of Inl (parts, node, inner, at) \<Rightarrow>
                 (Suc (size_list (size_prod (\<lambda>_. 0) size) node), length parts)
             | Inr (part, here, index, seen, found, inner) \<Rightarrow> (size_list size found, 0))")
     (auto simp: size_listed_items le_imp_less_Suc)

text \<open>The item of a collection as it was held that had a name: the last that carries it.\<close>

definition named_text :: "val \<Rightarrow> string option" where
  "named_text item = (case item of VMap m \<Rightarrow> (case dget m ''id'' of Some (VStr s) \<Rightarrow> Some s | _ \<Rightarrow> None) | _ \<Rightarrow> None)"

definition had_items :: "val list \<Rightarrow> (string \<times> obj) list" where
  "had_items before =
     fold (\<lambda>item had. case (named_text item, item) of (Some s, VMap m) \<Rightarrow> AList.update s m had | _ \<Rightarrow> had) before []"

definition unknown :: "string \<Rightarrow> nat \<Rightarrow> val \<Rightarrow> (string \<times> obj) list \<Rightarrow> misnamed list" where
  "unknown collection index name had =
     (if (\<exists>s \<in> set (map fst had). name = VStr s) then []
      else [\<lparr>mis_collection = collection, mis_index = index, mis_name = name, mis_why = Unknown\<rparr>])"

function (sequential) handed_back ::
    "obj \<Rightarrow> obj \<Rightarrow> obj \<Rightarrow> (val \<Rightarrow> obj) \<Rightarrow> string list \<Rightarrow> misnamed list"
  and handed_items ::
    "val \<Rightarrow> string \<Rightarrow> (string \<times> obj) list \<Rightarrow> nat \<Rightarrow> string list \<Rightarrow> val list \<Rightarrow> (val \<Rightarrow> obj) \<Rightarrow> misnamed list" where
  "handed_back [] node before inner at = []"
| "handed_back ((collection, part) # parts) node before inner at =
     handed_items part (names_placed (at @ [key_str collection])) (had_items (listed before collection))
         0 [] (listed node collection) inner
       @ handed_back parts node before inner at"
| "handed_items part here had index seen [] inner = []"
| "handed_items part here had index seen (VMap item # rest) inner =
     (let (faults, seen') = (case dget item ''id'' of
            Some name \<Rightarrow> (case unfit here index name seen of
                ([], seen') \<Rightarrow> (unknown here index name had, seen') | found \<Rightarrow> found)
          | None \<Rightarrow> ([], seen));
          was = (case named_text (VMap item) of
              Some s \<Rightarrow> (case map_of had s of Some m \<Rightarrow> m | None \<Rightarrow> []) | None \<Rightarrow> [])
      in faults @ handed_back (inner part) item was inner [here, nat_str index]
           @ handed_items part here had (Suc index) seen' rest inner)"
| "handed_items part here had index seen (other # rest) inner =
     handed_items part here had (Suc index) seen rest inner"
  by pat_completeness auto

termination
  by (relation "inv_image (less_than <*lex*> less_than)
        (\<lambda>x. case x of Inl (parts, node, before, inner, at) \<Rightarrow>
                 (Suc (size_list (size_prod (\<lambda>_. 0) size) node), length parts)
             | Inr (part, here, had, index, seen, found, inner) \<Rightarrow> (size_list size found, 0))")
     (auto simp: size_listed_items le_imp_less_Suc)


section \<open>Properties\<close>

subsection \<open>A number is added only while the name is taken\<close>

lemma numbered_from_spec:
  "1 \<le> number \<Longrightarrow>
    (\<exists>k \<ge> number. numbered_from name taken number = candidate name k \<and>
       VStr (candidate name k) \<notin> set taken \<and>
       (\<forall>j. number \<le> j \<and> j < k \<longrightarrow> VStr (candidate name j) \<in> set taken))"
proof (induction name taken number rule: numbered_from.induct)
  case (1 name taken number)
  show ?case
  proof (cases "VStr (candidate name number) \<in> set taken")
    case True
    with 1 obtain k where k: "Suc number \<le> k" "numbered_from name taken (Suc number) = candidate name k"
      "VStr (candidate name k) \<notin> set taken"
      "\<forall>j. Suc number \<le> j \<and> j < k \<longrightarrow> VStr (candidate name j) \<in> set taken" by auto
    have "\<forall>j. number \<le> j \<and> j < k \<longrightarrow> VStr (candidate name j) \<in> set taken"
      using True k(4) by (metis Suc_leI le_neq_implies_less)
    with True k show ?thesis
      by (intro exI [of _ k]) (auto simp: numbered_from.simps [of name taken number])
  next
    case False
    then show ?thesis
      by (intro exI [of _ number]) (auto simp: numbered_from.simps [of name taken number])
  qed
qed

lemma numbered_spec:
  "\<exists>k \<ge> 1. numbered name taken = candidate name k \<and> VStr (candidate name k) \<notin> set taken \<and>
     (\<forall>j. 1 \<le> j \<and> j < k \<longrightarrow> VStr (candidate name j) \<in> set taken)"
  unfolding numbered_def by (rule numbered_from_spec) simp

lemma numbered_free: "VStr (numbered name taken) \<notin> set taken"
  using numbered_spec [of name taken] by auto

subsection \<open>The name a title gives is plain, or nothing\<close>

lemma plain_char_hyphen [simp]: "\<not> plain_char (CHR ''-'')"
  by (simp add: plain_char_def)

lemma plain_one: "plain_char c \<Longrightarrow> plain [c]"
  by (auto simp: plain_def plain_char_def)

lemma plain_Cons: "plain_char c \<Longrightarrow> plain s \<Longrightarrow> plain (c # s)"
  by (cases "c = CHR ''-''") (auto simp: plain_def list_all_iff split: list.splits)

lemma plain_hyphen: "plain_char c \<Longrightarrow> plain s \<Longrightarrow> plain (c # CHR ''-'' # s)"
  by (cases "c = CHR ''-''") (auto simp: plain_def)

lemma plain_ends:
  assumes "plain s"
  shows "hd s \<noteq> CHR ''-''" "last s \<noteq> CHR ''-''"
proof -
  show "hd s \<noteq> CHR ''-''" using assms by (cases s) (auto simp: plain_def split: if_splits)
  show "last s \<noteq> CHR ''-''"
  proof (cases s rule: rev_cases)
    case (snoc t c)
    with assms show ?thesis using split_on_append_sep [of "CHR ''-''" t "[]"]
      by (auto simp: plain_def)
  qed (use assms in simp)
qed

lemma hyphened_shape:
  "\<exists>pre mid post. hyphened s = pre @ mid @ post \<and> pre \<in> {[], ''-''} \<and> post \<in> {[], ''-''} \<and>
     (mid = [] \<longrightarrow> post = []) \<and> (mid = [] \<or> plain mid) \<and> (pre \<noteq> [] \<longrightarrow> s \<noteq> [] \<and> \<not> plain_char (hd s))"
proof (induction s rule: hyphened.induct)
  case 1
  show ?case by (intro exI [of _ "[]"]) simp
next
  case (2 c cs)
  show ?case
  proof (cases "plain_char c")
    case True
    with 2 obtain pre mid post where h: "hyphened cs = pre @ mid @ post" "pre \<in> {[], ''-''}"
      "post \<in> {[], ''-''}" "mid = [] \<longrightarrow> post = []" "mid = [] \<or> plain mid" by blast
    show ?thesis
    proof (cases "mid = []")
      case True
      with h \<open>plain_char c\<close> show ?thesis
        by (intro exI [of _ "[]"] exI [of _ "[c]"] exI [of _ pre]) (auto simp: plain_one)
    next
      case False
      with h \<open>plain_char c\<close> show ?thesis
        by (intro exI [of _ "[]"] exI [of _ "c # pre @ mid"] exI [of _ post])
           (auto simp: plain_Cons plain_hyphen)
    qed
  next
    case False
    let ?rest = "dropWhile (\<lambda>x. \<not> plain_char x) cs"
    from 2 False obtain pre mid post where h: "hyphened ?rest = pre @ mid @ post"
      "pre \<in> {[], ''-''}" "post \<in> {[], ''-''}" "mid = [] \<longrightarrow> post = []" "mid = [] \<or> plain mid"
      "pre \<noteq> [] \<longrightarrow> ?rest \<noteq> [] \<and> \<not> plain_char (hd ?rest)" by blast
    then have "pre = []" using hd_dropWhile [of "\<lambda>x. \<not> plain_char x" cs] by auto
    with h False show ?thesis
      by (intro exI [of _ "''-''"] exI [of _ mid] exI [of _ post]) auto
  qed
qed

lemma strip_hyphens_plain:
  assumes "pre \<in> {[], ''-''}" "post \<in> {[], ''-''}" "plain mid"
  shows "strip_hyphens (pre @ mid @ post) = mid"
proof -
  from assms(3) obtain c cs where m: "mid = c # cs" "c \<noteq> CHR ''-''"
    using plain_ends(1) [of mid] by (cases mid) auto
  from assms(3) obtain d ds where r: "rev mid = d # ds" "d \<noteq> CHR ''-''"
    using plain_ends(2) [of mid] m by (cases "rev mid") (auto simp: last_rev hd_rev [symmetric])
  have "dropWhile (\<lambda>c. c = CHR ''-'') (pre @ mid @ post) = mid @ post"
    using assms(1) m by auto
  moreover have "dropWhile (\<lambda>c. c = CHR ''-'') (rev (mid @ post)) = rev mid"
    using assms(2) r by auto
  ultimately show ?thesis by (simp add: strip_hyphens_def)
qed

lemma slug_plain: "slug t = [] \<or> plain (slug t)"
proof -
  obtain pre mid post where h: "hyphened (map lower_char t) = pre @ mid @ post"
    "pre \<in> {[], ''-''}" "post \<in> {[], ''-''}" "mid = [] \<longrightarrow> post = []" "mid = [] \<or> plain mid"
    using hyphened_shape [of "map lower_char t"] by blast
  show ?thesis
  proof (cases "mid = []")
    case True
    with h show ?thesis by (auto simp: slug_def strip_hyphens_def)
  next
    case False
    with h show ?thesis by (auto simp: slug_def strip_hyphens_plain)
  qed
qed

subsection \<open>Items named once, kept, and told apart\<close>

lemma named_collections_keys:
  "k \<in> set (map fst (named_collections parts node inner)) \<Longrightarrow> \<exists>found. map_of node k = Some (VList found)"
proof (induction parts)
  case (Cons p parts)
  obtain c part where p: "p = (c, part)" by (cases p)
  show ?case
  proof (cases "map_of node c")
    case None
    with Cons p show ?thesis by simp
  next
    case (Some v)
    with Cons p show ?thesis by (cases v) auto
  qed
qed simp

lemma dict_over_other: "k \<notin> set (map fst b) \<Longrightarrow> map_of (dict_over a b) k = map_of a k"
  by (simp add: map_of_dict_over map_of_eq_None_iff [THEN iffD2] split: option.splits)

lemma named_id_kept:
  assumes "dget item ''id'' = Some (VStr s)"
  shows "dget (dict_over item (named_collections parts item inner)) ''id'' = Some (VStr s)"
proof -
  have "KText ''id'' \<notin> set (map fst (named_collections parts item inner))"
    using named_collections_keys [of "KText ''id''" parts item inner] assms by auto
  with assms show ?thesis by (simp add: dict_over_other)
qed

lemma named_id_made:
  assumes "dget item ''id'' = None"
  shows "dget (dict_over (dput ''id'' name item) (named_collections parts item inner)) ''id'' = Some name"
proof -
  have "KText ''id'' \<notin> set (map fst (named_collections parts item inner))"
    using named_collections_keys [of "KText ''id''" parts item inner] assms by auto
  then show ?thesis by (simp add: dict_over_other dget_dput)
qed

lemma carried_names_Cons:
  "carried_names (VMap m # rest) =
     (case dget m ''id'' of Some i \<Rightarrow> [i] | None \<Rightarrow> []) @ carried_names rest"
  "\<not> is_map other \<Longrightarrow> carried_names (other # rest) = carried_names rest"
  "carried_names [] = []"
  by (auto simp: carried_names_def is_map_def split: val.splits)

text \<open>
  One collection named: every item of it that is a mapping carries a name, no two the same, and each name an
  item came with is still on it.
\<close>

lemma named_items_distinct:
  "set (carried_names found) \<subseteq> set taken \<Longrightarrow> distinct (carried_names found) \<Longrightarrow>
   \<forall>n \<in> set (carried_names found). \<exists>s. n = VStr s \<Longrightarrow>
   distinct (carried_names (named_items part taken place found inner)) \<and>
   set (carried_names (named_items part taken place found inner)) \<inter> set taken
     \<subseteq> set (carried_names found)"
proof (induction found arbitrary: taken place)
  case Nil
  then show ?case by (simp add: carried_names_Cons)
next
  case (Cons x rest)
  show ?case
  proof (cases x)
    case (VMap item)
    show ?thesis
    proof (cases "dget item ''id''")
      case None
      let ?n = "VStr (made_name item place taken)"
      have free: "?n \<notin> set taken" by (simp add: made_name_def numbered_free)
      let ?out = "carried_names (named_items part (taken @ [?n]) (Suc place) rest inner)"
      have "distinct ?out \<and> set ?out \<inter> set (taken @ [?n]) \<subseteq> set (carried_names rest)"
        by (rule Cons.IH) (use Cons.prems VMap None in \<open>auto simp: carried_names_Cons\<close>)
      moreover have "set (carried_names rest) \<subseteq> set taken"
        using Cons.prems(1) VMap None by (simp add: carried_names_Cons)
      ultimately show ?thesis
        using VMap None free by (auto simp: carried_names_Cons named_id_made Let_def)
    next
      case (Some i)
      then obtain s where i: "i = VStr s" using Cons.prems(3) VMap by (auto simp: carried_names_Cons)
      let ?out = "carried_names (named_items part taken (Suc place) rest inner)"
      have "distinct ?out \<and> set ?out \<inter> set taken \<subseteq> set (carried_names rest)"
        by (rule Cons.IH) (use Cons.prems VMap Some in \<open>auto simp: carried_names_Cons\<close>)
      then show ?thesis
        using VMap Some i Cons.prems by (auto simp: carried_names_Cons named_id_kept)
    qed
  qed (use Cons in \<open>auto simp: carried_names_Cons is_map_def\<close>)
qed

lemma named_items_Cons:
  "\<exists>made taken'. named_items part taken place (x # rest) inner =
     made # named_items part taken' (Suc place) rest inner \<and> set taken \<subseteq> set taken'"
proof (cases x)
  case (VMap item)
  then show ?thesis by (cases "dget item ''id''") (auto simp: Let_def)
qed auto

lemma length_named_items [simp]: "length (named_items part taken place found inner) = length found"
proof (induction found arbitrary: taken place)
  case (Cons x rest)
  obtain made taken' where "named_items part taken place (x # rest) inner =
     made # named_items part taken' (Suc place) rest inner"
    using named_items_Cons by metis
  with Cons show ?case by simp
qed simp

lemma named_items_nth:
  "i < length found \<Longrightarrow> found ! i = VMap item \<Longrightarrow>
   \<forall>n. dget item ''id'' = Some n \<longrightarrow> (\<exists>s. n = VStr s) \<Longrightarrow>
   \<exists>made s. named_items part taken place found inner ! i = VMap made \<and> dget made ''id'' = Some (VStr s) \<and>
     (dget item ''id'' = None \<or> dget item ''id'' = Some (VStr s))"
proof (induction found arbitrary: i taken place)
  case (Cons x rest)
  show ?case
  proof (cases i)
    case 0
    with Cons.prems show ?thesis
      by (cases "dget item ''id''") (auto simp: Let_def named_id_made named_id_kept)
  next
    case (Suc j)
    obtain made taken' where m: "named_items part taken place (x # rest) inner =
       made # named_items part taken' (Suc place) rest inner"
      using named_items_Cons by metis
    have "\<exists>made s. named_items part taken' (Suc place) rest inner ! j = VMap made \<and>
        dget made ''id'' = Some (VStr s) \<and> (dget item ''id'' = None \<or> dget item ''id'' = Some (VStr s))"
      by (rule Cons.IH) (use Cons.prems Suc in auto)
    with m Suc show ?thesis by simp
  qed
qed simp

lemma carried_in:
  "VMap item \<in> set found \<Longrightarrow> dget item ''id'' = Some n \<Longrightarrow> n \<in> set (carried_names found)"
  unfolding carried_names_def by (auto intro!: bexI [of _ "VMap item"])

lemma named_items_nth_free:
  "i < length found \<Longrightarrow> found ! i = VMap item \<Longrightarrow>
   \<exists>made s. named_items part taken place found inner ! i = VMap made \<and>
     (case dget item ''id'' of Some n \<Rightarrow> (\<forall>s. n = VStr s \<longrightarrow> dget made ''id'' = Some n)
      | None \<Rightarrow> dget made ''id'' = Some (VStr s) \<and> VStr s \<notin> set taken)"
proof (induction found arbitrary: i taken place)
  case (Cons x rest)
  show ?case
  proof (cases i)
    case 0
    with Cons.prems show ?thesis
      by (cases "dget item ''id''") (auto simp: Let_def named_id_made named_id_kept made_name_def numbered_free)
  next
    case (Suc j)
    obtain made taken' where m: "named_items part taken place (x # rest) inner =
       made # named_items part taken' (Suc place) rest inner" and t: "set taken \<subseteq> set taken'"
      using named_items_Cons by metis
    from Cons.IH [of j taken' "Suc place"] Cons.prems Suc
    have "\<exists>made s. named_items part taken' (Suc place) rest inner ! j = VMap made \<and>
     (case dget item ''id'' of Some n \<Rightarrow> (\<forall>s. n = VStr s \<longrightarrow> dget made ''id'' = Some n)
      | None \<Rightarrow> dget made ''id'' = Some (VStr s) \<and> VStr s \<notin> set taken')" by simp
    then obtain made s where h: "named_items part taken' (Suc place) rest inner ! j = VMap made"
      "case dget item ''id'' of Some n \<Rightarrow> (\<forall>s. n = VStr s \<longrightarrow> dget made ''id'' = Some n)
      | None \<Rightarrow> dget made ''id'' = Some (VStr s) \<and> VStr s \<notin> set taken'" by blast
    have "case dget item ''id'' of Some n \<Rightarrow> (\<forall>s. n = VStr s \<longrightarrow> dget made ''id'' = Some n)
      | None \<Rightarrow> dget made ''id'' = Some (VStr s) \<and> VStr s \<notin> set taken"
      using h(2) t by (cases "dget item ''id''") auto
    moreover have "named_items part taken place (x # rest) inner ! i = VMap made"
      using m h(1) Suc by simp
    ultimately show ?thesis by blast
  qed
qed simp

text \<open>A name a create gives is refused when it is not plain, so what is kept is plain and said once.\<close>

lemma given_items_clean:
  "given_items part here index seen found inner = [] \<Longrightarrow>
   distinct (carried_names found) \<and>
   (\<forall>n \<in> set (carried_names found). \<exists>s. n = VStr s \<and> plain s \<and> s \<notin> set seen)"
proof (induction found arbitrary: index seen)
  case Nil
  then show ?case by (simp add: carried_names_Cons)
next
  case (Cons x rest)
  show ?case
  proof (cases x)
    case (VMap item)
    show ?thesis
    proof (cases "dget item ''id''")
      case None
      with Cons VMap show ?thesis by (auto simp: carried_names_Cons)
    next
      case (Some n)
      with Cons.prems VMap obtain s where s: "n = VStr s" "plain s" "s \<notin> set seen"
        and rest: "given_items part here (Suc index) (s # seen) rest inner = []"
        by (cases n) (auto simp: unfit_def split: if_splits)
      from Cons.IH [OF rest] s Some VMap show ?thesis
        by (auto simp: carried_names_Cons)
    qed
  qed (use Cons in \<open>auto simp: carried_names_Cons is_map_def\<close>)
qed

subsection \<open>Named at every depth\<close>

text \<open>
  What naming an artifact's items is to give: in every collection, at every depth, each item that is a mapping
  carries a name that is text, and no two of a collection the same.
\<close>

function (sequential) named_throughout :: "obj \<Rightarrow> obj \<Rightarrow> (val \<Rightarrow> obj) \<Rightarrow> bool"
  and items_throughout :: "val \<Rightarrow> val list \<Rightarrow> (val \<Rightarrow> obj) \<Rightarrow> bool" where
  "named_throughout [] node inner = True"
| "named_throughout ((collection, part) # parts) node inner =
     (distinct (carried_names (listed node collection)) \<and> items_throughout part (listed node collection) inner
       \<and> named_throughout parts node inner)"
| "items_throughout part [] inner = True"
| "items_throughout part (VMap item # rest) inner =
     (named_text (VMap item) \<noteq> None \<and> named_throughout (inner part) item inner \<and> items_throughout part rest inner)"
| "items_throughout part (other # rest) inner = items_throughout part rest inner"
  by pat_completeness auto

termination
  by (relation "inv_image (less_than <*lex*> less_than)
        (\<lambda>x. case x of Inl (parts, node, inner) \<Rightarrow>
                 (Suc (size_list (size_prod (\<lambda>_. 0) size) node), length parts)
             | Inr (part, found, inner) \<Rightarrow> (size_list size found, 0))")
     (auto simp: size_listed_items le_imp_less_Suc)

lemma named_throughout_iff:
  "named_throughout parts node inner \<longleftrightarrow> (\<forall>(c, part) \<in> set parts.
     distinct (carried_names (listed node c)) \<and> items_throughout part (listed node c) inner)"
  by (induction parts) auto

lemma items_throughout_iff:
  "items_throughout part found inner \<longleftrightarrow> (\<forall>item. VMap item \<in> set found \<longrightarrow>
     named_text (VMap item) \<noteq> None \<and> named_throughout (inner part) item inner)"
proof (induction found)
  case (Cons x found)
  then show ?case by (cases x) auto
qed simp

lemma given_iff:
  "given parts node inner at = [] \<longleftrightarrow> (\<forall>(c, part) \<in> set parts.
     given_items part (at @ [key_str c]) 0 [] (listed node c) inner = [])"
  by (induction parts) auto

lemma given_items_inside:
  "given_items part here index seen found inner = [] \<Longrightarrow> VMap item \<in> set found \<Longrightarrow>
   \<exists>at. given (inner part) item inner at = []"
proof (induction found arbitrary: index seen)
  case (Cons x found)
  show ?case
  proof (cases "x = VMap item")
    case True
    with Cons.prems show ?thesis by (auto simp: Let_def split: prod.splits)
  next
    case False
    from Cons.prems False have "VMap item \<in> set found" by simp
    moreover from Cons.prems(1) obtain j sn where "given_items part here j sn found inner = []"
      by (cases x) (auto simp: Let_def split: prod.splits)
    ultimately show ?thesis using Cons.IH by blast
  qed
qed simp

lemma map_of_named_collections:
  "distinct (map fst parts) \<Longrightarrow> (c, part) \<in> set parts \<Longrightarrow>
   map_of (named_collections parts node inner) c = (case map_of node c of
     Some (VList found) \<Rightarrow> Some (VList (named_items part (carried_names found) 1 found inner)) | _ \<Rightarrow> None)"
proof (induction parts)
  case (Cons p parts)
  obtain c' part' where p: "p = (c', part')" by (cases p)
  have out: "c' \<notin> set (map fst (named_collections parts node inner)) \<or> c' \<in> set (map fst parts)"
  proof (induction parts)
    case (Cons q parts)
    then show ?case by (cases q) (auto split: option.splits val.splits)
  qed simp
  show ?case
  proof (cases "c = c'")
    case True
    with Cons.prems p have "part = part'" by force
    have "map_of (named_collections parts node inner) c' = None"
      using out Cons.prems p by (auto simp: map_of_eq_None_iff)
    with True p \<open>part = part'\<close> show ?thesis by (auto split: option.splits val.splits)
  next
    case False
    with Cons p show ?thesis by (auto split: option.splits val.splits)
  qed
qed simp

lemma distinct_named_collections:
  "distinct (map fst parts) \<Longrightarrow> distinct (map fst (named_collections parts node inner))
     \<and> set (map fst (named_collections parts node inner)) \<subseteq> set (map fst parts)"
proof (induction parts)
  case (Cons p parts)
  then show ?case by (cases p) (auto split: option.splits val.splits)
qed simp

lemma listed_named:
  assumes "distinct (map fst parts)" "(c, part) \<in> set parts" "listed base c = listed node c"
  shows "listed (dict_over base (named_collections parts node inner)) c
    = named_items part (carried_names (listed node c)) 1 (listed node c) inner"
proof -
  let ?nc = "named_collections parts node inner"
  have "distinct (map fst ?nc)" using distinct_named_collections [OF assms(1)] by blast
  then have rev: "map_of (rev ?nc) = map_of ?nc" by (rule map_of_rev_distinct)
  show ?thesis
    using map_of_named_collections [OF assms(1,2), of node inner] assms(3)
    by (auto simp: listed_def map_of_dict_over rev split: option.splits val.splits)
qed

lemma size_listed_item:
  "VMap item \<in> set (listed node c) \<Longrightarrow>
   size_list (size_prod (\<lambda>_. 0) size) item < size_list (size_prod (\<lambda>_. 0) size) node"
  using size_listed_items [of node c] size_listed [of "VMap item" "listed node c"] by simp

text \<open>
  The recursion of \<open>items\<close>: an item's collections are named over the item as it came, its own name put in or not.
\<close>

lemma items_throughout_named:
  assumes "\<And>item base parts at. VMap item \<in> set found \<Longrightarrow> (\<And>c. listed base c = listed item c) \<Longrightarrow>
      distinct (map fst parts) \<Longrightarrow> given parts item inner at = [] \<Longrightarrow>
      named_throughout parts (dict_over base (named_collections parts item inner)) inner"
    and "\<forall>p. distinct (map fst (inner p))"
    and "\<forall>item. VMap item \<in> set found \<longrightarrow> (\<exists>at. given (inner part) item inner at = [])"
    and "\<forall>n \<in> set (carried_names found). \<exists>s. n = VStr s"
  shows "items_throughout part (named_items part taken place found inner) inner"
  using assms(1,3,4)
proof (induction found arbitrary: taken place)
  case (Cons x rest)
  have rest: "items_throughout part (named_items part taken' place' rest inner) inner" for taken' place'
    by (rule Cons.IH) (use Cons.prems in \<open>auto simp: carried_names_def\<close>)
  show ?case
  proof (cases x)
    case (VMap item)
    from Cons.prems(2) VMap obtain at where at: "given (inner part) item inner at = []" by auto
    have inside: "named_throughout (inner part) (dict_over base (named_collections (inner part) item inner)) inner"
      if "\<And>c. listed base c = listed item c" for base
      using Cons.prems(1) [of item base "inner part" at] VMap that assms(2) at by auto
    show ?thesis
    proof (cases "dget item ''id''")
      case None
      have "listed (dput ''id'' (VStr s) item) c = listed item c" for s c
        using None by (auto simp: listed_def dget_dput)
      then show ?thesis using VMap None rest inside by (simp add: Let_def named_text_def named_id_made)
    next
      case (Some n)
      with Cons.prems(3) VMap obtain s where "n = VStr s" by (auto simp: carried_names_Cons)
      with Some show ?thesis using VMap rest inside by (simp add: named_text_def named_id_kept)
    qed
  qed (use rest in auto)
qed simp

lemma named_throughout_named:
  "(\<And>c. listed base c = listed node c) \<Longrightarrow> distinct (map fst parts) \<Longrightarrow> \<forall>p. distinct (map fst (inner p)) \<Longrightarrow>
   given parts node inner at = [] \<Longrightarrow>
   named_throughout parts (dict_over base (named_collections parts node inner)) inner"
proof (induction "size_list (size_prod (\<lambda>_. 0) size) node" arbitrary: node base parts at rule: less_induct)
  case less
  show ?case
    unfolding named_throughout_iff
  proof (rule ballI, clarify)
    fix c part assume c: "(c, part) \<in> set parts"
    let ?found = "listed node c"
    from c less.prems(4) have g: "given_items part (at @ [key_str c]) 0 [] ?found inner = []"
      by (auto simp: given_iff)
    note clean = given_items_clean [OF g]
    have l: "listed (dict_over base (named_collections parts node inner)) c
        = named_items part (carried_names ?found) 1 ?found inner"
      by (rule listed_named) (use less.prems c in auto)
    have "distinct (carried_names (named_items part (carried_names ?found) 1 ?found inner))"
      using named_items_distinct [of ?found "carried_names ?found" part 1 inner] clean by blast
    moreover have "items_throughout part (named_items part (carried_names ?found) 1 ?found inner) inner"
    proof (rule items_throughout_named)
      fix item base' parts' at'
      assume "VMap item \<in> set ?found" "\<And>c. listed base' c = listed item c" "distinct (map fst parts')"
        "given parts' item inner at' = []"
      with less.hyps [of item base' parts' at'] less.prems(3)
      show "named_throughout parts' (dict_over base' (named_collections parts' item inner)) inner"
        by (auto dest: size_listed_item)
    qed (use less.prems(3) clean given_items_inside [OF g] in blast)+
    ultimately show "distinct (carried_names (listed (dict_over base (named_collections parts node inner)) c)) \<and>
        items_throughout part (listed (dict_over base (named_collections parts node inner)) c) inner"
      unfolding l by blast
  qed
qed

section \<open>The module's contract\<close>

text \<open>
  \<open>numbered\<close> ends, for any finite set of names taken, and gives the first of the name, the name with -2, -3 and
  so on that is not taken.
\<close>

theorem numbered_first_free:
  "\<exists>k \<ge> 1. numbered name taken = candidate name k \<and> VStr (candidate name k) \<notin> set taken \<and>
     (\<nexists>j. 1 \<le> j \<and> j < k \<and> VStr (candidate name j) \<notin> set taken)"
  using numbered_spec [of name taken] by blast

text \<open>
  when a create's items carry only names they may (\<open>given\<close> finds no fault), \<open>items\<close> leaves every item of
  every collection, at every depth, with a name that is text, and no two items of a collection the same.
\<close>

theorem items_named_throughout:
  assumes "distinct (map fst parts)" "\<forall>p. distinct (map fst (inner p))" "given parts node inner [] = []"
  shows "named_throughout parts (items parts node inner) inner"
  unfolding items_def by (rule named_throughout_named) (use assms in auto)

theorem items_named_throughout_witness:
  "named_throughout [(KText ''parts'', VNull)]
     (items [(KText ''parts'', VNull)] [(KText ''parts'', VList [VMap [(KText ''title'', VStr ''A b'')], VMap []])] (\<lambda>_. []))
     (\<lambda>_. [])"
  by (rule items_named_throughout) (simp_all add: listed_def)

text \<open>
  an item stays where it stands, and a name it came with is still its name after \<open>items\<close>; one that came with
  none has one that no item of its collection came with.
\<close>

theorem items_keep_names:
  assumes "distinct (map fst parts)" "(c, part) \<in> set parts"
    and "distinct (carried_names (listed node c))" "\<forall>n \<in> set (carried_names (listed node c)). \<exists>s. n = VStr s"
    and "i < length (listed node c)" "listed node c ! i = VMap item"
  shows "length (listed (items parts node inner) c) = length (listed node c) \<and>
    (\<exists>made s. listed (items parts node inner) c ! i = VMap made \<and> dget made ''id'' = Some (VStr s) \<and>
       (dget item ''id'' = Some (VStr s) \<or>
        dget item ''id'' = None \<and> VStr s \<notin> set (carried_names (listed node c))))"
proof -
  have l: "listed (items parts node inner) c
      = named_items part (carried_names (listed node c)) 1 (listed node c) inner"
    unfolding items_def by (rule listed_named) (use assms in auto)
  show ?thesis
    unfolding l
    using named_items_nth_free [OF assms(5,6), of part "carried_names (listed node c)" 1 inner] assms(4,5,6)
      carried_in [of item "listed node c"]
    by (cases "dget item ''id''") (fastforce dest: nth_mem)+
qed

theorem items_keep_names_witness:
  "listed (items [(KText ''p'', VNull)] [(KText ''p'', VList [VMap [(KText ''title'', VStr ''B'')],
       VMap [(KText ''id'', VStr ''b'')]])] (\<lambda>_. [])) (KText ''p'') =
     [VMap [(KText ''title'', VStr ''B''), (KText ''id'', VStr ''b-2'')], VMap [(KText ''id'', VStr ''b'')]]
   \<and> (\<exists>made s. listed (items [(KText ''p'', VNull)] [(KText ''p'', VList [VMap [(KText ''title'', VStr ''B'')],
       VMap [(KText ''id'', VStr ''b'')]])] (\<lambda>_. [])) (KText ''p'') ! 0 = VMap made \<and> dget made ''id'' = Some (VStr s))"
proof
  let ?node = "[(KText ''p'', VList [VMap [(KText ''title'', VStr ''B'')], VMap [(KText ''id'', VStr ''b'')]])]"
  have l: "listed ?node (KText ''p'') = [VMap [(KText ''title'', VStr ''B'')], VMap [(KText ''id'', VStr ''b'')]]"
    by (simp add: listed_def)
  show "\<exists>made s. listed (items [(KText ''p'', VNull)] ?node (\<lambda>_. [])) (KText ''p'') ! 0 = VMap made
      \<and> dget made ''id'' = Some (VStr s)"
    using items_keep_names [of "[(KText ''p'', VNull)]" "KText ''p''" VNull ?node 0 "[(KText ''title'', VStr ''B'')]" "\<lambda>_. []"]
    unfolding l by (simp add: carried_names_def) blast
qed code_simp

end
