(* ===== verification/KB_Values.thy ===== *)
theory KB_Values
  imports KB_Item_Names
begin

text \<open>
  \<open>values.py\<close>, \<open>rules.py\<close> and \<open>addresses.py\<close>: the values a request's texts are converted to, or the faults
  they are refused with. \<open>exn\<close> is every exception the modelled code raises: \<open>Refused\<close> carries its faults,
  the others are Python's own where the code lets them escape. \<open>since\<close> and \<open>in_utc\<close> (calendar time) are
  not modelled. The message's record types are the ones of the contract the code fills in.
\<close>

section \<open>Rules\<close>

definition NOT_FOUND :: string where "NOT_FOUND = ''not-found''"
definition KIND :: string where "KIND = ''kind''"
definition LOCATOR :: string where "LOCATOR = ''locator''"
definition COLLECTION :: string where "COLLECTION = ''collection''"
definition IDENTITY_RULE :: string where "IDENTITY_RULE = ''identity''"
definition ON_DELETE :: string where "ON_DELETE = ''on_delete''"
definition UNREADABLE :: string where "UNREADABLE = ''unreadable''"
definition ITEM_NAME :: string where "ITEM_NAME = ''item-name''"
definition SHAPE :: string where "SHAPE = ''shape''"
definition BUILT_ON :: string where "BUILT_ON = ''built-on''"
definition TARGETS :: string where "TARGETS = ''targets''"
definition VERSION :: string where "VERSION = ''version''"
definition CONTENT :: string where "CONTENT = ''content''"
definition SECTIONS_RULE :: string where "SECTIONS_RULE = ''sections''"
definition REF :: string where "REF = ''ref''"
definition ACTOR :: string where "ACTOR = ''actor''"
definition MESSAGE :: string where "MESSAGE = ''message''"
definition OPERATIONS :: string where "OPERATIONS = ''operations''"
definition SINCE :: string where "SINCE = ''since''"
definition TITLE :: string where "TITLE = ''title''"
definition ROOT :: string where "ROOT = ''root''"
definition STORE :: string where "STORE = ''store''"
definition CLOCK :: string where "CLOCK = ''clock''"
definition BUSY :: string where "BUSY = ''busy''"
definition REVISION :: string where "REVISION = ''revision''"
definition PLACEMENT :: string where "PLACEMENT = ''placement''"
definition SERVED :: string where "SERVED = ''served''"
definition CONNECTION :: string where "CONNECTION = ''connection''"
definition UNREACHABLE :: string where "UNREACHABLE = ''unreachable''"
definition DIFFERS :: string where "DIFFERS = ''differs''"

lemmas rule_names = NOT_FOUND_def KIND_def LOCATOR_def COLLECTION_def IDENTITY_RULE_def ON_DELETE_def
  UNREADABLE_def ITEM_NAME_def SHAPE_def BUILT_ON_def TARGETS_def VERSION_def CONTENT_def SECTIONS_RULE_def
  REF_def ACTOR_def MESSAGE_def OPERATIONS_def SINCE_def TITLE_def ROOT_def STORE_def CLOCK_def BUSY_def
  REVISION_def PLACEMENT_def SERVED_def CONNECTION_def UNREACHABLE_def DIFFERS_def

text \<open>\<open>ALL\<close>: every rule's name, in the order of the names of its constants.\<close>

definition ALL_RULES :: "string list" where
  "ALL_RULES = [ACTOR, BUILT_ON, BUSY, CLOCK, COLLECTION, CONNECTION, CONTENT, DIFFERS, IDENTITY_RULE, ITEM_NAME,
     KIND, LOCATOR, MESSAGE, NOT_FOUND, ON_DELETE, OPERATIONS, PLACEMENT, REF, REVISION, ROOT, SECTIONS_RULE,
     SERVED, SHAPE, SINCE, STORE, TARGETS, TITLE, UNREACHABLE, UNREADABLE, VERSION]"

section \<open>Faults and exceptions\<close>

record fault =
  fault_artifact :: string
  fault_place :: string
  fault_rule :: string
  fault_message :: string

definition Fault :: "string \<Rightarrow> string \<Rightarrow> string \<Rightarrow> string \<Rightarrow> fault" where
  "Fault artifact place rule message =
     \<lparr>fault_artifact = artifact, fault_place = place, fault_rule = rule, fault_message = message\<rparr>"

lemma Fault_sel [simp]:
  "fault_artifact (Fault a p r m) = a" "fault_place (Fault a p r m) = p"
  "fault_rule (Fault a p r m) = r" "fault_message (Fault a p r m) = m"
  by (simp_all add: Fault_def)

datatype exn = Refused "fault list" | KeyError string | IndexError | TypeError | AttributeError
  | RecursionError | ValueError string | NoSuchResource string | OverflowError | ClockFailed string

section \<open>Values\<close>

datatype kind = Kind (kind_name: string)
datatype artifact_id = ArtifactId (iri_of: string)
datatype version = Version (version_kind: kind) (version_number: int)
datatype below_path = Below (below_segments: "string list")
datatype locator = Locator (loc_id: artifact_id) (loc_place: "string list")

definition version_str :: "version \<Rightarrow> string" where
  "version_str v = versioned (kind_name (version_kind v)) (version_number v)"

definition TYPE_KIND :: kind where "TYPE_KIND = Kind TYPES"

definition type_of :: "kind \<Rightarrow> artifact_id" where
  "type_of k = ArtifactId (kind_name k)"

text \<open>A locator as a request carries it: the contract's message.\<close>

record locator_request =
  req_id :: string
  req_place :: string

section \<open>Conversions\<close>

definition values_kind :: "string \<Rightarrow> exn + kind" where
  "values_kind t =
     (if \<not> iri t then Inl (Refused [Fault [] [] LOCATOR
        (''a kind is named by its type's IRI, an IRI of kb's grammar; '' @ repr_str t @ '' is not'')])
      else Inr (Kind t))"

definition values_below :: "string \<Rightarrow> exn + below_path" where
  "values_below t = (case names_path t of
     None \<Rightarrow> Inl (Refused [Fault [] [] LOCATOR
       (''a path below a type is plain segments joined by single slashes, as pricing or pricing/discounts; ''
        @ repr_str t @ '' is not'')])
   | Some segments \<Rightarrow> Inr (Below segments))"

definition values_artifact_id :: "string \<Rightarrow> exn + artifact_id" where
  "values_artifact_id t =
     (if \<not> iri t then Inl (Refused [Fault t [] LOCATOR
        (''a name is an IRI, never a path: a name is an IRI of kb's grammar, https://, a host and plain segments; ''
         @ repr_str t @ '' is not'')])
      else Inr (ArtifactId t))"

definition values_version :: "string \<Rightarrow> exn + version" where
  "values_version t = (case names_version t of
     None \<Rightarrow> Inl (Refused [Fault t [] LOCATOR
       (''a version of a type is named by the type's IRI, \"@\" and its number; '' @ repr_str t @ '' is not'')])
   | Some (name, number) \<Rightarrow> Inr (Version (Kind name) number))"

definition values_named :: "string \<Rightarrow> exn + version option" where
  "values_named t = (if t \<noteq> [] then rbind (values_version t) (\<lambda>v. Inr (Some v)) else Inr None)"

text \<open>The faults of a conversion that is tried and caught: none when it returns.\<close>

definition caught :: "exn + 'a \<Rightarrow> fault list" where
  "caught r = (case r of Inl (Refused faults) \<Rightarrow> faults | _ \<Rightarrow> [])"

definition place_fault :: "string \<Rightarrow> string \<Rightarrow> fault" where
  "place_fault name path = Fault name path LOCATOR
     (''a place inside an artifact is named by parts of the same plain alphabet, or a collection and an item in it; ''
      @ repr_str path @ '' is not'')"

definition located :: "string \<Rightarrow> string \<Rightarrow> exn + locator" where
  "located name path =
     (let converted = values_artifact_id name;
          place = names_steps path;
          faults = caught converted @ (if list_all plain place then [] else [place_fault name path])
      in if faults \<noteq> [] then Inl (Refused faults)
         else rbind converted (\<lambda>a. Inr (Locator a place)))"

definition values_locator :: "locator_request \<Rightarrow> exn + locator" where
  "values_locator request =
     (let (name, part) = linked (req_id request)
      in if \<not> (part \<noteq> [] \<and> iri name \<and> list_all plain (names_steps part))
           then located (req_id request) (req_place request)
         else if req_place request \<noteq> []
           then Inl (Refused [Fault (req_id request) (req_place request) LOCATOR
             (''a part is named by its artifact's IRI, # and its place, or by the IRI with the place beside it, never both; ''
              @ repr_str (req_id request) @ '' was given with the place '' @ repr_str (req_place request))])
         else located name part)"

definition values_read :: "locator_request \<Rightarrow> exn + (locator \<times> version option)" where
  "values_read request = (case names_version (req_id request) of
     None \<Rightarrow> rbind (values_locator request) (\<lambda>l. Inr (l, None))
   | Some (name, number) \<Rightarrow>
       rbind (located name (req_place request)) (\<lambda>l. Inr (l, Some (Version (Kind name) number))))"

definition target :: "string \<Rightarrow> exn + locator" where
  "target t = (let (name, place) = linked t in located name place)"

definition titled :: "string \<Rightarrow> string \<Rightarrow> fault list" where
  "titled title at =
     (if title \<noteq> [] then [] else [Fault at ''title'' TITLE ''an artifact cannot be created without a title''])"

definition values_expected :: "int \<Rightarrow> int option" where
  "values_expected revision = (if revision \<noteq> 0 then Some revision else None)"

section \<open>A server's address\<close>

definition LAST_PORT :: nat where "LAST_PORT = 65535"

datatype address = Address (address_host: string) (address_port: nat)

definition address_str :: "address \<Rightarrow> string" where
  "address_str a = address_host a @ '':'' @ nat_str (address_port a)"

text \<open>\<open>str.rpartition\<close> at one character: what is before its last, the character found, what is after.\<close>

definition rpartition_on :: "char \<Rightarrow> string \<Rightarrow> string \<times> string \<times> string" where
  "rpartition_on c s = (case partition_on c (rev s) of
     (b, m, a) \<Rightarrow> if m = [] then ([], [], s) else (rev a, m, rev b))"

definition read_address :: "string \<Rightarrow> exn + address" where
  "read_address t = (case rpartition_on (CHR '':'') t of (host, _, port) \<Rightarrow>
     if host = [] \<or> \<not> (port \<noteq> [] \<and> list_all is_digit port) \<or> LAST_PORT < str_nat port
       then Inl (ValueError (''it is not a host and a port from 0 to '' @ nat_str LAST_PORT))
     else Inr (Address host (str_nat port)))"

section \<open>Lemmas\<close>

lemma values_artifact_id_simps [simp]:
  "iri t \<Longrightarrow> values_artifact_id t = Inr (ArtifactId t)"
  "values_artifact_id t = Inr a \<longleftrightarrow> iri t \<and> a = ArtifactId t"
  by (auto simp: values_artifact_id_def)

lemma located_iff [results]:
  "located name path = Inr l \<longleftrightarrow>
     iri name \<and> list_all plain (names_steps path) \<and> l = Locator (ArtifactId name) (names_steps path)"
  by (auto simp: located_def values_artifact_id_def caught_def Let_def split: if_splits)

lemma located_faults:
  "located name path = Inl (Refused faults) \<Longrightarrow>
     map fault_rule faults =
       (if iri name then [] else [LOCATOR]) @ (if list_all plain (names_steps path) then [] else [LOCATOR])"
  by (auto simp: located_def values_artifact_id_def caught_def place_fault_def Let_def split: if_splits)

lemma linked_pointing: "CHR ''#'' \<notin> set name \<Longrightarrow> linked (pointing name place) = (name, place)"
  by (cases "place = []") (auto simp: linked_def pointing_def partition_on_none)

lemma iri_no: "iri a \<Longrightarrow> CHR ''#'' \<notin> set a \<and> CHR ''@'' \<notin> set a"
  by (simp add: iri_def iri_shape_no)

lemma linked_iri: "iri a \<Longrightarrow> linked (pointing a place) = (a, place)"
  by (simp add: linked_pointing iri_no)

lemma plain_no_slash: "plain s \<Longrightarrow> CHR ''/'' \<notin> set s"
  by (auto dest: plain_segment segment_no)

lemma names_steps_placed: "list_all plain steps \<Longrightarrow> names_steps (names_placed steps) = steps"
proof (cases steps)
  case (Cons x xs)
  assume p: "list_all plain steps"
  with Cons have "join_with ''/'' steps \<noteq> []"
    by (cases xs) (auto simp: join_with_Cons)
  moreover have "split_on (CHR ''/'') (join_with ''/'' steps) = steps"
    using p Cons by (intro split_join) (auto simp: list_all_iff plain_no_slash)
  ultimately show ?thesis by (simp add: names_steps_def names_placed_def)
qed (simp add: names_steps_def names_placed_def)

lemma names_placed_steps: "names_placed (names_steps t) = t"
  by (simp add: names_steps_def names_placed_def pystr)

lemma rpartition_on_append:
  "c \<notin> set q \<Longrightarrow> rpartition_on c (p @ c # q) = (p, [c], q)"
  by (simp add: rpartition_on_def)

lemma rpartition_on_cases:
  assumes "rpartition_on c s = (a, m, b)"
  obtains (found) "m = [c]" "s = a @ c # b" "c \<notin> set b" | (none) "m = []" "a = []" "b = s" "c \<notin> set s"
proof -
  obtain b' m' a' where p: "partition_on c (rev s) = (b', m', a')" by (metis prod_cases3)
  show thesis
  proof (cases rule: partition_on_cases [OF p])
    case 1
    then have "s = rev a' @ c # rev b'" by (metis append.assoc append_Cons append_Nil rev.simps(2) rev_append rev_rev_ident)
    with 1 p assms show ?thesis by (auto simp: rpartition_on_def intro: found)
  next
    case 2
    with p assms show ?thesis by (auto simp: rpartition_on_def intro: none)
  qed
qed

section \<open>Properties\<close>

text \<open>
  \<open>locator\<close> and \<open>target\<close> read one part the same way however it is named: the artifact's IRI with \<open>#\<close>
  and the place after it, as a link writes one, names what the IRI with the place beside it names.
\<close>

theorem locator_part_either_way:
  assumes "iri a" "list_all plain place" "place \<noteq> []"
  shows "values_locator \<lparr>req_id = pointing a (names_placed place), req_place = []\<rparr> = Inr (Locator (ArtifactId a) place)
    \<and> values_locator \<lparr>req_id = a, req_place = names_placed place\<rparr> = Inr (Locator (ArtifactId a) place)
    \<and> target (pointing a (names_placed place)) = Inr (Locator (ArtifactId a) place)"
proof (intro conjI)
  have ne: "names_placed place \<noteq> []" using names_steps_placed [OF assms(2)] assms(3)
    by (auto simp: names_steps_def)
  have la: "linked a = (a, [])" using linked_iri [OF assms(1), of "[]"] by (simp add: pointing_def)
  show "values_locator \<lparr>req_id = pointing a (names_placed place), req_place = []\<rparr> = Inr (Locator (ArtifactId a) place)"
    using assms ne by (simp add: values_locator_def linked_iri names_steps_placed located_iff)
  show "values_locator \<lparr>req_id = a, req_place = names_placed place\<rparr> = Inr (Locator (ArtifactId a) place)"
    using assms la by (simp add: values_locator_def names_steps_placed located_iff)
  show "target (pointing a (names_placed place)) = Inr (Locator (ArtifactId a) place)"
    using assms by (simp add: target_def linked_iri names_steps_placed located_iff)
qed

theorem locator_part_either_way_witness:
  "values_locator \<lparr>req_id = ''https://a.io/t/x#steps/draft'', req_place = []\<rparr>
     = Inr (Locator (ArtifactId ''https://a.io/t/x'') [''steps'', ''draft''])"
proof -
  have "iri ''https://a.io/t/x''" "list_all plain [''steps'', ''draft'']" by code_simp+
  note part = locator_part_either_way [OF this list.distinct(2)]
  have "pointing ''https://a.io/t/x'' (names_placed [''steps'', ''draft'']) = ''https://a.io/t/x#steps/draft''" by code_simp
  with part show ?thesis by (simp only:)
qed

text \<open>
  an address is read back from the text it is written as: a host that is not
  empty and a port up to 65535.
\<close>

theorem address_read_back:
  assumes "host \<noteq> []" "port \<le> LAST_PORT"
  shows "read_address (address_str (Address host port)) = Inr (Address host port)"
proof -
  have "CHR '':'' \<notin> set (nat_str port)" using nat_str_digits [of "CHR '':''" port] by (auto simp: is_digit_def)
  then have "rpartition_on (CHR '':'') (host @ CHR '':'' # nat_str port) = (host, '':'', nat_str port)"
    by (rule rpartition_on_append)
  moreover have "list_all is_digit (nat_str port)" using nat_str_digits by (auto simp: list_all_iff)
  ultimately show ?thesis using assms by (simp add: read_address_def address_str_def)
qed

theorem address_read_back_witness:
  "read_address ''localhost:80'' = Inr (Address ''localhost'' 80)"
proof -
  have a: "address_str (Address ''localhost'' 80) = ''localhost:80''" by code_simp
  have "(80::nat) \<le> LAST_PORT" by (simp add: LAST_PORT_def)
  from address_read_back [of "''localhost''" 80, OF list.distinct(2) this] show ?thesis unfolding a .
qed

end
