(* ===== verification/KB_Refusals.thy ===== *)
theory KB_Refusals
  imports KB_Values
begin

text \<open>
  \<open>refusals.py\<close>, \<open>type_refusals.py\<close> and \<open>file_refusals.py\<close>: the faults the domain makes, each with its rule
  and its message. A refusal that looks its words up in a table by what it is asked of (\<open>misnamed_part\<close>,
  \<open>misplaced\<close>) raises \<open>KeyError\<close> for what the table lacks.
\<close>

section \<open>Refusals of what a store holds\<close>

definition id_str :: "artifact_id \<Rightarrow> string" where "id_str a = iri_of a"

definition id_repr :: "artifact_id \<Rightarrow> string" where "id_repr a = repr_str (iri_of a)"

definition not_found :: "artifact_id \<Rightarrow> fault" where
  "not_found a = Fault (id_str a) [] NOT_FOUND (''the store holds nothing by the name '' @ id_repr a)"

definition no_type :: "string \<Rightarrow> fault" where
  "no_type name = Fault [] [] KIND
     (''a kind must name a type the store holds; the store holds no type called '' @ repr_str name)"

definition no_version :: "string \<Rightarrow> fault" where
  "no_version v = Fault [] [] VERSION
     (''a create names a version of a type the store holds; the store holds no version '' @ repr_str v)"

definition not_later :: "artifact_id \<Rightarrow> string \<Rightarrow> string \<Rightarrow> fault" where
  "not_later a v conforms = Fault (id_str a) [] VERSION
     (''an artifact moves only to a later version of its own type that the store holds; '' @ repr_str v
      @ '' is not one for an artifact conforming to '' @ repr_str conforms)"

definition not_under :: "artifact_id \<Rightarrow> artifact_id \<Rightarrow> fault" where
  "not_under a type_id = Fault (id_str a) [] IDENTITY_RULE
     (''an artifact's IRI sits under its type's IRI; '' @ id_repr a @ '' is not an IRI of '' @ id_repr type_id)"

definition belongs :: "artifact_id \<Rightarrow> artifact_id \<Rightarrow> artifact_id \<Rightarrow> fault" where
  "belongs type_id sitting other = Fault (id_str type_id) [] IDENTITY_RULE
     (''an IRI keeps the type it was written or linked under; '' @ id_repr sitting @ '' belongs to '' @ id_repr other)"

definition already_held :: "artifact_id \<Rightarrow> fault" where
  "already_held a = Fault (id_str a) [] IDENTITY_RULE
     (''an IRI names one artifact; the store already holds one at '' @ id_repr a)"

definition carried_twice :: "artifact_id \<Rightarrow> fault" where
  "carried_twice a = Fault (id_str a) [] IDENTITY_RULE
     (''an IRI names one artifact; the set carries '' @ id_repr a @ '' on more than one create'')"

definition not_a_collection :: "locator \<Rightarrow> fault" where
  "not_a_collection l = (let place = names_placed (loc_place l) in
     Fault (id_str (loc_id l)) place COLLECTION
       (''an item is added to a collection, and '' @ repr_str place @ '' in '' @ id_repr (loc_id l) @ '' is not one''))"

definition nothing_at :: "locator \<Rightarrow> fault" where
  "nothing_at l = (let place = names_placed (loc_place l) in
     Fault (id_str (loc_id l)) place NOT_FOUND (id_repr (loc_id l) @ '' holds nothing at '' @ repr_str place))"

text \<open>Called only of a locator whose place is not empty, as \<open>locator.place[0]\<close> needs.\<close>

definition settled_place :: "locator \<Rightarrow> fault" where
  "settled_place l = (let place = names_placed (loc_place l) in
     Fault (id_str (loc_id l)) place IDENTITY_RULE
       (''a place inside an artifact never names what only the store settles; '' @ repr_str place
        @ '' begins at '' @ repr_str (hd (loc_place l))))"

definition moved :: "artifact_id \<Rightarrow> int \<Rightarrow> fault" where
  "moved a revision = Fault (id_str a) [] REVISION
     (''the artifact moved since it was read; '' @ id_repr a @ '' stands at revision '' @ int_str revision)"

definition whole_only :: "locator \<Rightarrow> fault" where
  "whole_only l = (let place = names_placed (loc_place l) in
     Fault (id_str (loc_id l)) place LOCATOR
       (''a removal takes out a whole artifact; '' @ repr_str place @ '' is a place inside '' @ id_repr (loc_id l)))"

definition still_linked :: "string \<Rightarrow> artifact_id \<Rightarrow> string \<Rightarrow> fault" where
  "still_linked removed other place = Fault (id_str other) place ON_DELETE
     (repr_str removed @ '' cannot be removed while '' @ id_repr other @ '' points at it''
      @ (if place \<noteq> [] then '' at '' @ repr_str place else []))"

definition unlanded :: "string \<Rightarrow> string \<Rightarrow> string \<Rightarrow> fault" where
  "unlanded artifact place link_target = Fault artifact place REF
     (''a link must land on a node of a kind the type allows; '' @ repr_str link_target @ '' does not'')"

definition unfit_said :: "val \<Rightarrow> string" where
  "unfit_said name = (case name of VStr s \<Rightarrow> repr_str s @ '' is not''
     | _ \<Rightarrow> ''a name is text, and what was given is not'')"

definition misnamed_message :: "misnamed \<Rightarrow> string" where
  "misnamed_message found = (case mis_why found of
     NotPlain \<Rightarrow> ''a name is a plain name of lower-case letters, digits and single hyphens; '' @ unfit_said (mis_name found)
   | Repeated \<Rightarrow> ''the items of a collection each have a name of their own; '' @ py_repr (mis_name found)
       @ '' is on more than one''
   | Unknown \<Rightarrow> ''a name on an item names an item already in that collection; '' @ repr_str (mis_collection found)
       @ '' held no item named '' @ py_repr (mis_name found))"

definition misnamed_place :: "misnamed \<Rightarrow> string" where
  "misnamed_place found = mis_collection found @ ''/'' @ nat_str (mis_index found) @ ''/id''"

definition misnamed_fault :: "artifact_id \<Rightarrow> misnamed \<Rightarrow> fault" where
  "misnamed_fault a found = Fault (id_str a) (misnamed_place found) ITEM_NAME (misnamed_message found)"

definition misnamed_part :: "artifact_id \<Rightarrow> misnamed \<Rightarrow> exn + fault" where
  "misnamed_part a found = (case mis_why found of
     NotPlain \<Rightarrow> Inr (Fault (id_str a) (misnamed_place found) ITEM_NAME
       (''a part's name is a plain name of lower-case letters, digits and single hyphens; '' @ unfit_said (mis_name found)))
   | Repeated \<Rightarrow> Inr (Fault (id_str a) (misnamed_place found) ITEM_NAME
       (''a part's name is unique in its collection; '' @ py_repr (mis_name found) @ '' is on more than one''))
   | Unknown \<Rightarrow> Inl (KeyError ''unknown''))"

definition unwritable :: "artifact_id \<Rightarrow> string \<Rightarrow> string \<Rightarrow> fault" where
  "unwritable a problem place = Fault (id_str a) place CONTENT problem"

definition no_section :: "artifact_id \<Rightarrow> string \<Rightarrow> string \<Rightarrow> fault" where
  "no_section a title part = Fault (id_str a) (if part \<noteq> [] then part else ''sections'') NOT_FOUND
     (repr_str (pointing (id_str a) part) @ '' holds no section titled '' @ repr_str title)"

definition clock_failed :: "string \<Rightarrow> fault" where
  "clock_failed problem = Fault [] [] CLOCK (''the clock failed when it was asked the time: '' @ problem)"

definition unreadable :: "string \<Rightarrow> fault" where
  "unreadable problem = Fault [] [] UNREADABLE (''the store's database cannot be read: '' @ problem)"

definition earlier_kb :: "string \<Rightarrow> fault" where
  "earlier_kb root = Fault [] [] UNREADABLE
     (''the store at '' @ root @ '' was made by an earlier version of kb, which this kb cannot read or move'')"

definition later_kb :: "string \<Rightarrow> fault" where
  "later_kb root = Fault [] [] UNREADABLE
     (''the store at '' @ root @ '' was made by a later version of kb, which is needed to read it; ''
      @ ''this kb does not know the form of store its marker names'')"

definition busy :: fault where
  "busy = Fault [] [] BUSY
     (''the store was busy with another change for longer than it waits, and nothing was written; the same change ''
      @ ''may be made again'')"

definition served :: "string \<Rightarrow> fault" where
  "served address = Fault [] [] SERVED
     (''the store is served, and every change goes through its server, at '' @ address @ ''; nothing was written'')"

definition clock_with_a_server :: fault where
  "clock_with_a_server = Fault [] [] CLOCK
     (''the clock belongs to a client that reaches its store in process, and a server stamps each change with its ''
      @ ''own; nothing was written'')"

definition connection :: "string \<Rightarrow> fault" where
  "connection path = Fault [] [] CONNECTION
     (''the connection to a server cannot be read or names no address `host:port`: '' @ path)"

definition unreachable :: "string \<Rightarrow> fault" where
  "unreachable address = Fault [] [] UNREACHABLE
     (''the server the connection names, at '' @ address @ '', cannot be reached'')"

definition escaped :: "string \<Rightarrow> fault" where
  "escaped problem = Fault [] [] STORE (''the store could not answer, and nothing was written: '' @ problem)"

section \<open>Refusals of a type as it is written\<close>

definition no_such_shape :: "artifact_id \<Rightarrow> string \<Rightarrow> string \<Rightarrow> fault" where
  "no_such_shape a place ref = Fault (id_str a) place SHAPE
     (''a shape a type refers to must belong to a type version the store holds; '' @ repr_str ref @ '' does not'')"

definition built_on_itself :: "artifact_id \<Rightarrow> string \<Rightarrow> string \<Rightarrow> fault" where
  "built_on_itself a place ref = Fault (id_str a) place BUILT_ON
     (''a type cannot be built on itself; '' @ id_repr a @ '' names '' @ repr_str ref)"

definition no_targets :: "artifact_id \<Rightarrow> string \<Rightarrow> string \<Rightarrow> fault" where
  "no_targets a place field = Fault (id_str a) place TARGETS
     (''a link field says which kinds it may point at; '' @ repr_str field @ '' does not'')"

definition misplaced_link :: "artifact_id \<Rightarrow> string \<Rightarrow> fault" where
  "misplaced_link a place = Fault (id_str a) place REF
     (''kb does not read a link field there; '' @ repr_str place @ '' is not on a field of a type's schema, of a base it ''
      @ ''is built on or of a collection's items'')"

definition WHERE_READ :: "(string \<times> string) list" where
  "WHERE_READ =
     [(''parts'', ''at the top of a type's schema or of a collection's items''),
      (''summary'', ''at the top of a type's schema or of a collection's items''),
      (''sections'', ''at the top of a type's schema'')]"

definition misplaced :: "artifact_id \<Rightarrow> string \<Rightarrow> string \<Rightarrow> exn + fault" where
  "misplaced a keyword place = (case map_of WHERE_READ keyword of
     None \<Rightarrow> Inl (KeyError keyword)
   | Some where_read \<Rightarrow> Inr (Fault (id_str a) place PLACEMENT
       (''kb does not read '' @ repr_str keyword @ '' there; it reads '' @ repr_str keyword @ '' only '' @ where_read
        @ '', and '' @ repr_str place @ '' is not'')))"

definition incomplete_link :: "artifact_id \<Rightarrow> string \<Rightarrow> string \<Rightarrow> string list \<Rightarrow> fault" where
  "incomplete_link a place field left_out = Fault (id_str a) place REF
     (''a link field says which kinds it may point at, whether it points at one artifact or several, ''
      @ ''whether it may point into a part and what a removal does; '' @ repr_str field @ '' does not say ''
      @ join_with '', '' (map repr_str left_out))"

definition unknown_removal :: "artifact_id \<Rightarrow> string \<Rightarrow> string \<Rightarrow> val \<Rightarrow> fault" where
  "unknown_removal a place field rule = Fault (id_str a) place REF
     (''refuse is the one removal rule kb knows; '' @ repr_str field @ '' says '' @ py_repr rule)"

definition unknown_reach :: "artifact_id \<Rightarrow> string \<Rightarrow> string \<Rightarrow> val \<Rightarrow> fault" where
  "unknown_reach a place field cardinality = Fault (id_str a) place REF
     (''a link field points at one artifact or several, `one` or `many`; '' @ repr_str field @ '' says ''
      @ py_repr cardinality)"

section \<open>Refusals of the operator's directories and files\<close>

definition not_an_import_directory :: "string \<Rightarrow> fault" where
  "not_an_import_directory named = Fault [] [] ROOT
     (''an import is read from a directory; '' @ repr_str named @ '' is not one'')"

definition not_an_export_directory :: "string \<Rightarrow> fault" where
  "not_an_export_directory named = Fault [] [] ROOT
     (''an export is written into a directory; '' @ repr_str named @ '' is not a directory'')"

definition export_would_overwrite :: "string \<Rightarrow> fault" where
  "export_would_overwrite named = Fault [] [] ROOT
     (''an export never overwrites; '' @ repr_str named @ '' already holds something'')"

definition backup_would_overwrite :: "string \<Rightarrow> fault" where
  "backup_would_overwrite named = Fault [] [] ROOT
     (''a backup never overwrites; '' @ repr_str named @ '' already holds something'')"

definition backup_cannot_be_written :: "string \<Rightarrow> string \<Rightarrow> fault" where
  "backup_cannot_be_written named problem = Fault [] [] ROOT
     (''a backup cannot be written at '' @ repr_str named @ '': '' @ problem)"

definition unreadable_file :: "string \<Rightarrow> string \<Rightarrow> fault" where
  "unreadable_file file problem = Fault file [] UNREADABLE (''it cannot be read as YAML 1.2: '' @ problem)"

definition not_canonical :: "string \<Rightarrow> string \<Rightarrow> fault" where
  "not_canonical file problem = Fault file [] CONTENT (''it is not in canonical form: '' @ problem)"

definition no_type_offered :: "string \<Rightarrow> string \<Rightarrow> fault" where
  "no_type_offered file name = Fault file [] KIND
     (''a kind must name a type the directory or the store holds; neither holds a type called '' @ repr_str name)"

definition no_version_offered :: "string \<Rightarrow> string \<Rightarrow> fault" where
  "no_version_offered file v = Fault file [] VERSION
     (''an artifact conforms to a version of its type the directory or the store holds; neither holds '' @ repr_str v)"

definition differs :: "string \<Rightarrow> string \<Rightarrow> fault" where
  "differs file name = Fault file [] DIFFERS
     (''it differs from what the store holds at '' @ repr_str name
      @ '', or is a version the store does not keep there, and an import replaces nothing the store holds'')"

definition check_failed :: "nat \<Rightarrow> fault" where
  "check_failed errors = Fault [] [] CONTENT
     (''the check found '' @ nat_str errors @ '' error(s) in the directory, and nothing was written'')"

definition differing :: "string \<Rightarrow> fault" where
  "differing name = Fault [] [] DIFFERS
     (''the directory differs from what the store holds at '' @ repr_str name @ '', and nothing was written'')"

definition nothing_lands :: fault where
  "nothing_lands = Fault [] [] OPERATIONS ''nothing in the directory would land, and nothing was written''"

definition not_a_backup :: "string \<Rightarrow> fault" where
  "not_a_backup file = Fault [] [] UNREADABLE (repr_str file @ '' is not a backup kb made'')"

definition backup_by_earlier_kb :: "string \<Rightarrow> fault" where
  "backup_by_earlier_kb file = Fault [] [] UNREADABLE
     (repr_str file @ '' was made by an earlier kb, which this kb cannot read'')"

definition backup_by_later_kb :: "string \<Rightarrow> fault" where
  "backup_by_later_kb file = Fault [] [] UNREADABLE
     (repr_str file @ '' was made by a later version of kb, which is needed to read it'')"

section \<open>What a create's item names are refused for can be said\<close>

lemma unfit_why: "\<forall>m \<in> set (fst (unfit c i n seen)). mis_why m \<noteq> Unknown"
  by (auto simp: unfit_def split: val.splits)

lemma given_why:
  "\<forall>m \<in> set (given parts node inner at). mis_why m \<noteq> Unknown"
  "\<forall>m \<in> set (given_items part here index seen found inner). mis_why m \<noteq> Unknown"
proof (induction parts node inner at and part here index seen found inner rule: given_given_items.induct)
  case (4 part here index seen item rest inner)
  obtain faults seen' where r: "(case dget item ''id'' of
      Some name \<Rightarrow> unfit (names_placed here) index name seen | None \<Rightarrow> ([], seen)) = (faults, seen')"
    by fastforce
  then have "\<forall>m \<in> set faults. mis_why m \<noteq> Unknown"
    using unfit_why [of "names_placed here" index _ seen]
    by (cases "dget item ''id''") (auto, metis fst_conv)
  with r 4 [OF r [symmetric] refl] show ?case by auto
qed auto

lemma rall_all: "\<forall>r \<in> set rs. \<exists>x. r = Inr x \<Longrightarrow> \<exists>xs. rall rs = Inr xs \<and> length xs = length rs"
  by (induction rs) auto

text \<open>
  every name \<open>given\<close> finds unfit on a create's items, at any depth, is one \<open>misnamed_part\<close> has words for: the
  create is refused with one fault for each, and never fails looking its message up.
\<close>

theorem given_names_said:
  "\<exists>faults. rall (map (misnamed_part a) (given parts node inner at)) = Inr faults \<and>
     length faults = length (given parts node inner at)"
proof -
  have "\<forall>r \<in> set (map (misnamed_part a) (given parts node inner at)). \<exists>x. r = Inr x"
    using given_why(1) [of parts node inner at]
    by (auto simp: misnamed_part_def split: why.splits)
  from rall_all [OF this] show ?thesis by simp
qed

end
