(* ===== verification/KB_Settled.thy ===== *)
theory KB_Settled
  imports KB_Refusals
begin

text \<open>
  \<open>settled.py\<close>: the keys the store settles for every artifact, an artifact given them and its content without
  them, and the order its entries are written in, as its type declares them. A schema is the mapping
  \<open>composition.declared\<close> gives, so its \<open>properties\<close> and \<open>parts\<close> are mappings; what one of its parts
  declares is whatever the type says there, and \<open>order\<close> raises where the source's lookups in it do.
\<close>

section \<open>What the store settles\<close>

definition IDENTITY :: "string list" where "IDENTITY = [''id'', ''type'', ''revision'', ''title'']"

definition is_str :: "val option \<Rightarrow> bool" where
  "is_str v = (case v of Some (VStr _) \<Rightarrow> True | _ \<Rightarrow> False)"

definition is_int :: "val option \<Rightarrow> bool" where
  "is_int v = (case v of Some (VInt _) \<Rightarrow> True | _ \<Rightarrow> False)"

definition text_at :: "obj \<Rightarrow> string \<Rightarrow> string" where
  "text_at m k = (case dget m k of Some (VStr s) \<Rightarrow> s | _ \<Rightarrow> [])"

definition identified :: "obj \<Rightarrow> bool" where
  "identified artifact =
     (if take (length IDENTITY) (dkeys artifact) \<noteq> map KText IDENTITY then False
      else if \<not> (is_str (dget artifact ''id'') \<and> is_str (dget artifact ''type'')
        \<and> is_int (dget artifact ''revision'') \<and> is_str (dget artifact ''title'')) then False
      else iri (text_at artifact ''id'') \<and> names_version (text_at artifact ''type'') \<noteq> None)"

definition settled_given :: "obj \<Rightarrow> string \<Rightarrow> string \<Rightarrow> int \<Rightarrow> string \<Rightarrow> obj" where
  "settled_given content artifact_id type_version revision title =
     dict_over content [(KText ''id'', VStr artifact_id), (KText ''type'', VStr type_version),
       (KText ''revision'', VInt revision), (KText ''title'', VStr title)]"

definition type_version_of :: "obj \<Rightarrow> exn + (string \<times> int)" where
  "type_version_of artifact = (case dget artifact ''type'' of
     None \<Rightarrow> Inl (KeyError ''type'')
   | Some (VStr t) \<Rightarrow> (case names_version t of None \<Rightarrow> Inl TypeError | Some found \<Rightarrow> Inr found)
   | Some _ \<Rightarrow> Inl TypeError)"

definition settled_kind :: "obj \<Rightarrow> exn + string" where
  "settled_kind artifact = rbind (type_version_of artifact) (\<lambda>found. Inr (fst found))"

definition settled_typed :: "obj \<Rightarrow> exn + bool" where
  "settled_typed artifact = rbind (settled_kind artifact) (\<lambda>k. Inr (k = TYPES))"

definition settled_version :: "obj \<Rightarrow> exn + int" where
  "settled_version artifact = rbind (type_version_of artifact) (\<lambda>found. Inr (snd found))"

definition settled_content :: "obj \<Rightarrow> obj" where
  "settled_content artifact = filter (\<lambda>e. fst e \<notin> KText ` set IDENTITY) artifact"

definition settled_checked :: "obj \<Rightarrow> obj" where
  "settled_checked artifact = filter (\<lambda>e. fst e \<notin> KText ` set IDENTITY \<or> fst e = KText ''title'') artifact"

section \<open>The order entries are written in\<close>

text \<open>The levels of an artifact, and those a fault's place may also stand at (\<open>fault_order.py\<close>).\<close>

datatype level = TOP | ITEM | SECTION | SECTION_LIST | ITEM_LIST | PLAIN_LEVEL

definition SECTIONS :: key where "SECTIONS = KText ''sections''"

definition sequence :: "level \<Rightarrow> key list \<Rightarrow> obj \<Rightarrow> key list" where
  "sequence level held schema =
     (if level = TOP then
        (let fields = filter (\<lambda>name. name \<notin> set (map KText IDENTITY)) (dkeys (as_map (dget schema ''properties'')));
             parts = dkeys (as_map (dget schema ''parts''));
             others = filter (\<lambda>name. name \<notin> set (map KText IDENTITY @ fields @ [SECTIONS] @ parts)) held
         in once_each (map KText IDENTITY @ fields @ others @ [SECTIONS] @ parts))
      else
        (let leading = (if level = ITEM then KText ''id'' # dkeys (as_map (dget schema ''properties''))
                        else [KText ''title'', KText ''body'', SECTIONS])
         in once_each (leading @ held)))"

definition arranged :: "obj \<Rightarrow> level \<Rightarrow> obj \<Rightarrow> obj" where
  "arranged node level schema =
     map (\<lambda>name. (name, the (map_of node name)))
       (filter (\<lambda>name. name \<in> set (dkeys node)) (sequence level (dkeys node) schema))"

lemma size_deep [termination_simp]:
  "map_of m k = Some (VList xs) \<Longrightarrow> x \<in> set xs \<Longrightarrow> size x < Suc (size_list (size_prod (\<lambda>_. 0) size) m)"
  using size_entry [of m k "VList xs"] size_listed [of x xs] by simp

lemma size_deep' [termination_simp]:
  "map_of m k = Some (VList xs) \<Longrightarrow> x \<in> set xs \<Longrightarrow> size x < Suc (size_list (\<lambda>x. Suc (size (snd x))) m)"
proof (induction m)
  case (Cons e m)
  then show ?case using size_listed [of x xs] by (cases e) (auto split: if_splits)
qed simp

fun section_ordered :: "val \<Rightarrow> val" where
  "section_ordered (VMap m) = VMap (case map_of m SECTIONS of
     None \<Rightarrow> arranged m SECTION []
   | Some (VList xs) \<Rightarrow> AList.update SECTIONS (VList (map section_ordered xs)) (arranged m SECTION [])
   | Some v \<Rightarrow> AList.update SECTIONS v (arranged m SECTION []))"
| "section_ordered v = v"

definition sections_ordered :: "val \<Rightarrow> val" where
  "sections_ordered v = (case v of VList xs \<Rightarrow> VList (map section_ordered xs) | _ \<Rightarrow> v)"

text \<open>\<open>parts[name]["items"]\<close>, evaluated for each entry of a collection that is a list.\<close>

definition part_items :: "val \<Rightarrow> exn + val" where
  "part_items part = (case part of
     VMap m \<Rightarrow> (case dget m ''items'' of None \<Rightarrow> Inl (KeyError ''items'') | Some v \<Rightarrow> Inr v)
   | _ \<Rightarrow> Inl TypeError)"

definition item_ordered :: "val \<Rightarrow> val \<Rightarrow> exn + val" where
  "item_ordered item item_schema = (case item of
     VMap m \<Rightarrow> (case item_schema of VMap s \<Rightarrow> Inr (VMap (arranged m ITEM s)) | _ \<Rightarrow> Inl AttributeError)
   | _ \<Rightarrow> Inr item)"

definition part_ordered :: "val \<Rightarrow> val \<Rightarrow> exn + val" where
  "part_ordered part found = (case found of
     VList xs \<Rightarrow> rbind (rall (map (\<lambda>x. rbind (part_items part) (item_ordered x)) xs)) (\<lambda>ys. Inr (VList ys))
   | _ \<Rightarrow> Inr found)"

fun parts_ordered :: "obj \<Rightarrow> obj \<Rightarrow> obj \<Rightarrow> exn + obj" where
  "parts_ordered [] artifact ordered = Inr ordered"
| "parts_ordered ((name, part) # parts) artifact ordered = (case map_of artifact name of
     None \<Rightarrow> parts_ordered parts artifact ordered
   | Some found \<Rightarrow> rbind (part_ordered part found) (\<lambda>v. parts_ordered parts artifact (AList.update name v ordered)))"

definition settled_order :: "obj \<Rightarrow> obj \<Rightarrow> exn + obj" where
  "settled_order artifact schema =
     (let ordered = arranged artifact TOP schema;
          ordered = (case map_of artifact SECTIONS of None \<Rightarrow> ordered
            | Some v \<Rightarrow> AList.update SECTIONS (sections_ordered v) ordered)
      in parts_ordered (as_map (dget schema ''parts'')) artifact ordered)"

section \<open>Lemmas\<close>

lemma set_sequence: "set held \<subseteq> set (sequence level held schema)"
  by (auto simp: sequence_def Let_def)

lemma distinct_sequence [simp]: "distinct (sequence level held schema)"
  by (simp add: sequence_def Let_def del: once_each.simps)

lemma keys_arranged:
  "dkeys (arranged node level schema) =
     filter (\<lambda>name. name \<in> set (dkeys node)) (sequence level (dkeys node) schema)"
  by (simp add: arranged_def comp_def)

lemma set_keys_arranged: "set (dkeys (arranged node level schema)) = set (dkeys node)"
  unfolding keys_arranged using set_sequence [of "dkeys node" level schema] by auto

lemma fst_arranged [simp]: "fst ` set (arranged node level schema) = fst ` set node"
  using set_keys_arranged [of node level schema] by (simp only: set_map)

lemma distinct_keys_arranged [simp]: "distinct (dkeys (arranged node level schema))"
  unfolding keys_arranged by simp

lemma map_of_arranged [simp]: "map_of (arranged node level schema) k = map_of node k"
proof (cases "k \<in> set (dkeys node)")
  case True
  then obtain v where v: "map_of node k = Some v" by (cases "map_of node k") (auto simp: map_of_eq_None_iff)
  have "k \<in> set (sequence level (dkeys node) schema)" using True set_sequence by blast
  with True have "(k, the (map_of node k)) \<in> set (arranged node level schema)" by (auto simp: arranged_def)
  with v show ?thesis by simp
next
  case False
  then have "k \<notin> set (dkeys (arranged node level schema))" by simp
  then have "map_of (arranged node level schema) k = None" by (simp only: map_of_eq_None_iff) simp
  moreover from False have "map_of node k = None" by (simp only: map_of_eq_None_iff) simp
  ultimately show ?thesis by simp
qed

lemma length_arranged:
  assumes "distinct (dkeys node)"
  shows "length (arranged node level schema) = length node"
proof -
  have "length (dkeys (arranged node level schema)) = card (set (dkeys (arranged node level schema)))"
    by (rule distinct_card [symmetric]) (rule distinct_keys_arranged)
  also have "\<dots> = card (set (dkeys node))" by (simp only: set_keys_arranged)
  also have "\<dots> = length (dkeys node)" using assms by (rule distinct_card)
  finally show ?thesis by (simp only: length_map)
qed

lemma keys_update_held: "k \<in> set (dkeys m) \<Longrightarrow> dkeys (AList.update k v m) = dkeys m"
  by (simp add: update_keys)

lemma py_eq_lookup: "py_eq (VMap m) (VMap n) \<Longrightarrow> map_of m k = Some v \<Longrightarrow> \<exists>u. map_of n k = Some u \<and> py_eq v u"
  by (auto simp: py_eq_map list_all_iff dest!: map_of_SomeD split: option.splits) force

lemma py_eq_map_iff_lookup:
  "length n = length m \<Longrightarrow> distinct (dkeys m) \<Longrightarrow>
   (\<And>k v. map_of m k = Some v \<Longrightarrow> \<exists>u. map_of n k = Some u \<and> py_eq v u) \<Longrightarrow> py_eq (VMap m) (VMap n)"
  by (rule py_eq_entries) auto

lemma py_eq_arranged: "well_keyed (VMap m) \<Longrightarrow> py_eq (VMap m) (VMap (arranged m level schema))"
  by (rule py_eq_map_iff_lookup)
     (auto simp: length_arranged intro!: py_eq_refl dest: well_keyed_get [of m, rotated])

text \<open>Putting back what is equal where it stands leaves a mapping equal.\<close>

lemma py_eq_updated:
  assumes "py_eq (VMap m) (VMap n)" "distinct (dkeys m)" "map_of m k = Some v" "py_eq v w"
  shows "py_eq (VMap m) (VMap (AList.update k w n))"
proof (rule py_eq_map_iff_lookup)
  have held: "\<exists>u. map_of n j = Some u \<and> py_eq x u" if "map_of m j = Some x" for j x
    using assms(1) that by (rule py_eq_lookup)
  from held [OF assms(3)] have "k \<in> set (dkeys n)" by (force dest!: map_of_SomeD)
  then have "length (AList.update k w n) = length n" by (metis keys_update_held length_map)
  with assms(1) show "length (AList.update k w n) = length m" by (simp add: py_eq_map)
  show "\<exists>u. map_of (AList.update k w n) j = Some u \<and> py_eq x u" if "map_of m j = Some x" for j x
    using held [OF that] that assms(3,4) by (auto simp: dget_dput)
qed (rule assms(2))

lemma py_eq_section: "well_keyed v \<Longrightarrow> py_eq v (section_ordered v)"
proof (induction v rule: section_ordered.induct)
  case (1 m)
  have d: "distinct (dkeys m)" using 1 by simp
  have a: "py_eq (VMap m) (VMap (arranged m SECTION []))" using 1(2) by (rule py_eq_arranged)
  show ?case
  proof (cases "map_of m SECTIONS")
    case None
    with a show ?thesis by simp
  next
    case (Some v)
    have wk: "well_keyed v" using 1(2) Some by (rule well_keyed_get)
    show ?thesis
    proof (cases v)
      case (VList xs)
      have "py_eq v (VList (map section_ordered xs))"
        using 1(1) [OF Some, of xs] wk VList by (auto simp: list_all2_conv_all_nth)
      from py_eq_updated [OF a d Some this] Some VList show ?thesis by simp
    qed (use Some py_eq_updated [OF a d Some py_eq_refl [OF wk]] in simp_all)
  qed
qed (simp_all add: py_eq_refl [of "VList _", simplified])

lemma py_eq_sections: "well_keyed v \<Longrightarrow> py_eq v (sections_ordered v)"
  by (cases v) (auto simp: sections_ordered_def list_all2_conv_all_nth py_eq_section intro!: py_eq_refl [of "VMap _"])

lemma py_eq_item:
  assumes "well_keyed v" "item_ordered v s = Inr w"
  shows "py_eq v w"
proof (cases v)
  case (VMap m)
  with assms show ?thesis by (cases s) (auto simp: item_ordered_def intro!: py_eq_arranged)
qed (use assms py_eq_refl [OF assms(1)] in \<open>auto simp: item_ordered_def\<close>)

lemma py_eq_list_all: "rall rs = Inr ys \<Longrightarrow> length rs = length xs \<Longrightarrow>
    (\<And>i y. i < length xs \<Longrightarrow> rs ! i = Inr y \<Longrightarrow> py_eq (xs ! i) y) \<Longrightarrow> list_all2 py_eq xs ys"
  by (auto simp: rall_Inr_iff list_all2_conv_all_nth)

lemma py_eq_part:
  assumes "well_keyed found" "part_ordered part found = Inr v"
  shows "py_eq found v"
proof (cases found)
  case (VList xs)
  with assms(2) obtain ys where ys: "rall (map (\<lambda>x. rbind (part_items part) (item_ordered x)) xs) = Inr ys"
    and v: "v = VList ys" by (auto simp: part_ordered_def results)
  have "list_all2 py_eq xs ys"
    using ys by (rule py_eq_list_all) (use assms(1) VList in \<open>auto simp: results intro!: py_eq_item\<close>)
  with VList v show ?thesis by simp
qed (use assms py_eq_refl [OF assms(1)] in \<open>auto simp: part_ordered_def\<close>)

lemma parts_ordered_eq:
  "well_keyed (VMap a) \<Longrightarrow> py_eq (VMap a) (VMap m) \<Longrightarrow> parts_ordered parts a m = Inr n \<Longrightarrow>
   py_eq (VMap a) (VMap n) \<and> dkeys n = dkeys m"
proof (induction parts arbitrary: m)
  case (Cons p parts)
  obtain name part where p: "p = (name, part)" by (cases p)
  show ?case
  proof (cases "map_of a name")
    case (Some found)
    with Cons.prems p obtain v where v: "part_ordered part found = Inr v"
      and n: "parts_ordered parts a (AList.update name v m) = Inr n" by (auto simp: results)
    have "py_eq found v" using well_keyed_get [OF Cons.prems(1) Some] v by (rule py_eq_part)
    then have "py_eq (VMap a) (VMap (AList.update name v m))"
      using Cons.prems(1,2) Some by (intro py_eq_updated) auto
    from Cons.IH [OF Cons.prems(1) this n]
    show ?thesis using py_eq_lookup [OF Cons.prems(2) Some]
      by (auto simp: update_keys dest!: map_of_SomeD split: if_splits) force
  qed (use Cons p in auto)
qed simp

lemma order_eq:
  assumes "well_keyed (VMap a)" "settled_order a schema = Inr r"
  shows "py_eq (VMap a) (VMap r)" "dkeys r = dkeys (arranged a TOP schema)"
proof -
  let ?start = "case map_of a SECTIONS of None \<Rightarrow> arranged a TOP schema
    | Some v \<Rightarrow> AList.update SECTIONS (sections_ordered v) (arranged a TOP schema)"
  have top: "py_eq (VMap a) (VMap (arranged a TOP schema))" using assms(1) by (rule py_eq_arranged)
  have eq: "py_eq (VMap a) (VMap ?start)"
  proof (cases "map_of a SECTIONS")
    case (Some v)
    then have "py_eq v (sections_ordered v)" using well_keyed_get [OF assms(1)] by (intro py_eq_sections)
    with Some have "py_eq (VMap a) (VMap (AList.update SECTIONS (sections_ordered v) (arranged a TOP schema)))"
      using assms(1) top by (intro py_eq_updated) auto
    with Some show ?thesis by simp
  qed (use top in simp)
  have keys: "dkeys ?start = dkeys (arranged a TOP schema)"
  proof (cases "map_of a SECTIONS")
    case (Some v)
    then have "SECTIONS \<in> set (dkeys (arranged a TOP schema))" by (force dest: map_of_SomeD)
    with Some show ?thesis by (simp add: keys_update_held)
  qed simp
  have "parts_ordered (as_map (dget schema ''parts'')) a ?start = Inr r"
    using assms(2) by (simp add: settled_order_def Let_def)
  from parts_ordered_eq [OF assms(1) eq this] keys
  show "py_eq (VMap a) (VMap r)" "dkeys r = dkeys (arranged a TOP schema)" by auto
qed

subsection \<open>Put in order twice\<close>

lemma once_each_filter: "filter P (once_each xs) = once_each (filter P xs)"
proof (induction xs)
  case (Cons a xs)
  have "filter P (filter (\<lambda>y. y \<noteq> a) (once_each xs)) = filter (\<lambda>y. y \<noteq> a) (filter P (once_each xs))"
    by (simp add: conj_commute)
  also have "\<dots> = (if P a then filter (\<lambda>y. y \<noteq> a) (once_each (filter P xs)) else once_each (filter P xs))"
    unfolding Cons.IH by (auto simp: filter_id_conv)
  finally show ?case by (simp del: filter_filter)
qed simp

lemma once_each_append: "once_each (xs @ ys) = once_each xs @ filter (\<lambda>y. y \<notin> set xs) (once_each ys)"
  by (induction xs) (auto simp: filter_filter intro!: filter_cong)

lemma sequence_again:
  assumes "distinct held"
  shows "filter (\<lambda>n. n \<in> set held) (sequence level (filter (\<lambda>n. n \<in> set held) (sequence level held schema)) schema)
    = filter (\<lambda>n. n \<in> set held) (sequence level held schema)"
proof (cases "level = TOP")
  case True
  have same: "filter (\<lambda>n. n \<notin> A) (filter (\<lambda>n. n \<in> set held) (once_each (pre @ filter (\<lambda>n. n \<notin> A) held @ post)))
      = filter (\<lambda>n. n \<notin> A) held" if "set pre \<subseteq> A" "set post \<subseteq> A" for A pre post
  proof -
    have "filter (\<lambda>n. n \<notin> A) (filter (\<lambda>n. n \<in> set held) (once_each (pre @ filter (\<lambda>n. n \<notin> A) held @ post)))
        = once_each (filter (\<lambda>n. n \<notin> A \<and> n \<in> set held) (pre @ filter (\<lambda>n. n \<notin> A) held @ post))"
      by (simp only: filter_filter once_each_filter conj_commute)
    also have "filter (\<lambda>n. n \<notin> A \<and> n \<in> set held) (pre @ filter (\<lambda>n. n \<notin> A) held @ post) = filter (\<lambda>n. n \<notin> A) held"
    proof -
      have "filter (\<lambda>n. n \<notin> A \<and> n \<in> set held) pre = []" "filter (\<lambda>n. n \<notin> A \<and> n \<in> set held) post = []"
        using that by (auto simp: filter_empty_conv)
      moreover have "filter (\<lambda>n. n \<notin> A \<and> n \<in> set held) (filter (\<lambda>n. n \<notin> A) held) = filter (\<lambda>n. n \<notin> A) held"
        by (subst filter_id_conv) auto
      ultimately show ?thesis by (simp only: filter_append append_Nil append_Nil2)
    qed
    also have "once_each \<dots> = \<dots>" using assms by (simp add: once_each_distinct)
    finally show ?thesis .
  qed
  show ?thesis
    unfolding sequence_def Let_def if_P [OF True]
    by (subst same [of "map KText IDENTITY @ filter (\<lambda>name. name \<notin> set (map KText IDENTITY))
          (dkeys (as_map (dget schema ''properties'')))" _ "[SECTIONS] @ dkeys (as_map (dget schema ''parts''))",
        unfolded append_assoc]) auto
next
  case False
  define lead where "lead = (if level = ITEM then KText ''id'' # dkeys (as_map (dget schema ''properties''))
    else [KText ''title'', KText ''body'', SECTIONS])"
  have s: "sequence level xs schema = once_each (lead @ xs)" for xs
    using False by (simp add: sequence_def lead_def)
  let ?K = "filter (\<lambda>n. n \<in> set held) (once_each (lead @ held))"
  have "filter (\<lambda>n. n \<in> set held) (once_each (lead @ ?K))
      = filter (\<lambda>n. n \<in> set held) (once_each lead) @ filter (\<lambda>n. n \<in> set held) (filter (\<lambda>n. n \<notin> set lead) ?K)"
    by (simp only: once_each_append filter_append) (simp add: once_each_distinct cong: conj_cong)
  also have "filter (\<lambda>n. n \<notin> set lead) ?K = filter (\<lambda>n. n \<notin> set lead) held"
    unfolding once_each_append using assms
    by (auto simp: once_each_distinct filter_empty_conv intro!: filter_cong)
  also have "filter (\<lambda>n. n \<in> set held) (once_each lead) @ filter (\<lambda>n. n \<in> set held) (filter (\<lambda>n. n \<notin> set lead) held) = ?K"
    unfolding once_each_append using assms by (simp add: once_each_distinct)
  finally show ?thesis unfolding s .
qed

lemma arranged_keys_same:
  assumes "distinct (dkeys m)" "dkeys n = dkeys (arranged m level schema)"
  shows "arranged n level schema = n"
proof -
  have "filter (\<lambda>name. name \<in> set (dkeys n)) (sequence level (dkeys n) schema) = dkeys n"
    using sequence_again [OF assms(1), of level schema] assms(2)
    unfolding keys_arranged by (metis (no_types, lifting) assms(2) filter_cong keys_arranged set_keys_arranged)
  moreover have "map (\<lambda>name. (name, the (map_of n name))) (dkeys n) = n"
  proof -
    have "distinct (dkeys n)" using assms(2) by simp
    then show ?thesis by (auto simp: comp_def intro!: map_idI)
  qed
  ultimately show ?thesis unfolding arranged_def by simp
qed

lemma arranged_again: "distinct (dkeys m) \<Longrightarrow> arranged (arranged m level schema) level schema = arranged m level schema"
  by (rule arranged_keys_same) auto

lemma update_same: "map_of m k = Some v \<Longrightarrow> AList.update k v m = m"
  by (induction m) (auto split: if_splits)

lemma section_ordered_again: "well_keyed v \<Longrightarrow> section_ordered (section_ordered v) = section_ordered v"
proof (induction v rule: section_ordered.induct)
  case (1 m)
  have d: "distinct (dkeys m)" using 1 by simp
  let ?a = "arranged m SECTION []"
  show ?case
  proof (cases "map_of m SECTIONS")
    case None
    then show ?thesis using d by (simp add: arranged_again)
  next
    case (Some v)
    then have at: "SECTIONS \<in> set (dkeys ?a)" by (force dest: map_of_SomeD)
    have a: "arranged (AList.update SECTIONS w ?a) SECTION [] = AList.update SECTIONS w ?a" for w
      using d at by (intro arranged_keys_same [of m]) (simp_all add: keys_update_held)
    show ?thesis
    proof (cases v)
      case (VList xs)
      have "well_keyed v" using 1(2) Some by (rule well_keyed_get)
      then have "map (section_ordered \<circ> section_ordered) xs = map section_ordered xs"
        using 1(1) [OF Some VList] VList by auto
      with Some VList show ?thesis by (simp add: dget_dput a update_same del: map_eq_conv)
    qed (use Some a d in \<open>simp_all add: dget_dput update_same arranged_again\<close>)
  qed
qed simp_all

lemma sections_ordered_again: "well_keyed v \<Longrightarrow> sections_ordered (sections_ordered v) = sections_ordered v"
  by (cases v) (auto simp: sections_ordered_def section_ordered_again)

lemma item_ordered_again: "well_keyed v \<Longrightarrow> item_ordered v s = Inr w \<Longrightarrow> item_ordered w s = Inr w"
  by (cases v; cases s) (auto simp: item_ordered_def arranged_again)

lemma part_ordered_again:
  assumes "well_keyed found" "part_ordered part found = Inr v"
  shows "part_ordered part v = Inr v"
proof (cases found)
  case (VList xs)
  with assms(2) obtain ys where ys: "map (\<lambda>x. rbind (part_items part) (item_ordered x)) xs = map Inr ys"
    and v: "v = VList ys" by (auto simp: part_ordered_def results rall_Inr_iff)
  have len: "length ys = length xs" using ys by (metis length_map)
  have "rbind (part_items part) (item_ordered (ys ! i)) = Inr (ys ! i)" if "i < length ys" for i
  proof -
    have "rbind (part_items part) (item_ordered (xs ! i)) = Inr (ys ! i)"
      using ys that len by (metis nth_map)
    moreover have "well_keyed (xs ! i)" using assms(1) VList that len by simp
    ultimately show ?thesis using item_ordered_again by (auto simp: results)
  qed
  then have "map (\<lambda>x. rbind (part_items part) (item_ordered x)) ys = map Inr ys"
    by (auto simp: in_set_conv_nth)
  with v show ?thesis by (simp add: part_ordered_def results rall_Inr_iff)
qed (use assms in \<open>auto simp: part_ordered_def\<close>)

lemma parts_ordered_lookup:
  "distinct (map fst parts) \<Longrightarrow> parts_ordered parts a m = Inr n \<Longrightarrow>
   (\<forall>k. k \<notin> set (map fst parts) \<or> map_of a k = None \<longrightarrow> map_of n k = map_of m k) \<and>
   (\<forall>(k, part) \<in> set parts. \<forall>found. map_of a k = Some found \<longrightarrow>
      (\<exists>v. part_ordered part found = Inr v \<and> map_of n k = Some v))"
proof (induction parts arbitrary: m)
  case (Cons p parts)
  obtain name part where p: "p = (name, part)" by (cases p)
  show ?case
  proof (cases "map_of a name")
    case None
    with Cons.prems p Cons.IH [of m] show ?thesis by auto
  next
    case (Some found)
    with Cons.prems p obtain v where v: "part_ordered part found = Inr v"
      and n: "parts_ordered parts a (AList.update name v m) = Inr n" by (auto simp: results)
    from Cons.IH [OF _ n] Cons.prems(1) p Some v show ?thesis by (auto simp: dget_dput)
  qed
qed simp

lemma parts_ordered_fixed:
  "(\<And>k part found. (k, part) \<in> set parts \<Longrightarrow> map_of a k = Some found \<Longrightarrow>
      part_ordered part found = Inr found \<and> map_of m k = Some found) \<Longrightarrow>
   parts_ordered parts a m = Inr m"
proof (induction parts)
  case (Cons p parts)
  obtain name part where p: "p = (name, part)" by (cases p)
  have "parts_ordered parts a m = Inr m" by (rule Cons.IH) (use Cons.prems in auto)
  with Cons.prems [of name part] p show ?case by (cases "map_of a name") (auto simp: update_same)
qed simp

lemma parts_ordered_restored:
  assumes "map_of r k = Some v" "(k, part) \<in> set parts"
    and "\<And>k part v. (k, part) \<in> set parts \<Longrightarrow> map_of r k = Some v \<Longrightarrow> part_ordered part v = Inr v \<and> map_of r k = Some v"
    and "distinct (dkeys parts)"
  shows "parts_ordered parts r (AList.update k w r) = Inr r"
  using assms(2-4)
proof (induction parts)
  case (Cons p parts)
  obtain name part' where p: "p = (name, part')" by (cases p)
  show ?case
  proof (cases "name = k")
    case True
    with Cons.prems(2) [of name part' v] p assms(1) have "part_ordered part' v = Inr v" by simp
    moreover have "parts_ordered parts r r = Inr r" by (rule parts_ordered_fixed) (use Cons.prems(2) in auto)
    ultimately show ?thesis using True p assms(1) by (simp add: update_same)
  next
    case False
    then have ih: "parts_ordered parts r (AList.update k w r) = Inr r"
      using Cons.prems p by (intro Cons.IH) auto
    show ?thesis
    proof (cases "map_of r name")
      case (Some u)
      then have "part_ordered part' u = Inr u" using Cons.prems(2) [of name part' u] p by simp
      moreover have "AList.update name u (AList.update k w r) = AList.update k w r"
        using Some False by (intro update_same) (simp add: dget_dput)
      ultimately show ?thesis using Some p ih by simp
    qed (use p ih in simp)
  qed
qed simp

text \<open>What \<open>order\<close> wrote it writes the same again.\<close>

lemma order_again:
  assumes "well_keyed (VMap a)" "distinct (dkeys (as_map (dget schema ''parts'')))" "settled_order a schema = Inr r"
  shows "settled_order r schema = Inr r"
proof -
  let ?parts = "as_map (dget schema ''parts'')"
  let ?start = "case map_of a SECTIONS of None \<Rightarrow> arranged a TOP schema
    | Some v \<Rightarrow> AList.update SECTIONS (sections_ordered v) (arranged a TOP schema)"
  have "parts_ordered ?parts a ?start = Inr r" using assms(3) by (simp add: settled_order_def Let_def)
  note parts = parts_ordered_lookup [OF assms(2) this]
  have keys: "dkeys r = dkeys (arranged a TOP schema)" using assms(1,3) by (rule order_eq)
  have top: "arranged r TOP schema = r" using assms(1) keys by (intro arranged_keys_same [of a]) auto
  have start: "map_of ?start k = (if k = SECTIONS then map_option sections_ordered (map_of a k) else map_of a k)" for k
    by (auto simp: dget_dput split: option.splits)
  have held: "map_of a k = None \<longleftrightarrow> map_of r k = None" for k
    using parts start [of k] by (cases "map_of a k") (auto, force)
  define begun where "begun = (case map_of r SECTIONS of None \<Rightarrow> r | Some v \<Rightarrow> AList.update SECTIONS (sections_ordered v) r)"
  have fixed: "part_ordered part v = Inr v \<and> map_of r k = Some v"
    if k: "(k, part) \<in> set ?parts" "map_of r k = Some v" for k part v
  proof -
    from k(2) held [of k] obtain found where f: "map_of a k = Some found" by (cases "map_of a k") auto
    with parts k obtain w where "part_ordered part found = Inr w" "map_of r k = Some w" by fastforce
    with k(2) part_ordered_again [OF well_keyed_get [OF assms(1) f]] show ?thesis by auto
  qed
  show ?thesis
  proof (cases "\<exists>part. (SECTIONS, part) \<in> set ?parts")
    case False
    have "begun = r"
    proof (cases "map_of r SECTIONS")
      case (Some v)
      from False have "SECTIONS \<notin> set (map fst ?parts)" by auto
      with parts start [of SECTIONS] Some obtain w where "map_of a SECTIONS = Some w" "v = sections_ordered w" by auto
      with Some sections_ordered_again [OF well_keyed_get [OF assms(1)]] show ?thesis
        by (simp add: begun_def update_same)
    qed (simp add: begun_def)
    then have "parts_ordered ?parts r begun = Inr r" using fixed by (simp add: parts_ordered_fixed)
    then show ?thesis by (simp add: settled_order_def Let_def top begun_def)
  next
    case True
    then obtain part where part: "(SECTIONS, part) \<in> set ?parts" by blast
    show ?thesis
    proof (cases "map_of r SECTIONS")
      case None
      then have "parts_ordered ?parts r begun = Inr r" using fixed by (simp add: begun_def parts_ordered_fixed)
      then show ?thesis by (simp add: settled_order_def Let_def top begun_def)
    next
      case (Some v)
      have "parts_ordered ?parts r (AList.update SECTIONS w r) = Inr r" for w
        using Some part fixed assms(2)
        by (rule parts_ordered_restored)
      then show ?thesis using Some by (simp add: settled_order_def Let_def top)
    qed
  qed
qed

subsection \<open>An artifact given what the store settles\<close>

lemma parts_ordered_scalar:
  "parts_ordered parts a m = Inr n \<Longrightarrow> map_of a k = Some v \<Longrightarrow> \<not> is_list v \<Longrightarrow> map_of m k = Some v \<Longrightarrow>
   map_of n k = Some v"
proof (induction parts arbitrary: m)
  case (Cons p parts)
  obtain name part where p: "p = (name, part)" by (cases p)
  show ?case
  proof (cases "map_of a name")
    case None
    with Cons p show ?thesis by auto
  next
    case (Some found)
    with Cons.prems p obtain w where w: "part_ordered part found = Inr w"
      and n: "parts_ordered parts a (AList.update name w m) = Inr n" by (auto simp: results)
    have "name = k \<Longrightarrow> w = v"
      using w Some Cons.prems(2,3) by (cases v) (auto simp: part_ordered_def is_list_def)
    then show ?thesis using Cons.IH [OF n] Cons.prems by (auto simp: dget_dput)
  qed
qed simp

lemma order_scalar:
  assumes "settled_order a schema = Inr r" "map_of a k = Some v" "\<not> is_list v"
  shows "map_of r k = Some v"
proof -
  have "sections_ordered v = v" using assms(3) by (cases v) (auto simp: sections_ordered_def is_list_def)
  then show ?thesis
    using assms(1) unfolding settled_order_def Let_def
    by (elim parts_ordered_scalar) (use assms in \<open>auto simp: dget_dput split: option.splits\<close>)
qed

lemma settled_given_get:
  "map_of (settled_given c a t n title) k =
     (if k = KText ''title'' then Some (VStr title) else if k = KText ''revision'' then Some (VInt n)
      else if k = KText ''type'' then Some (VStr t) else if k = KText ''id'' then Some (VStr a) else map_of c k)"
  by (simp add: settled_given_def map_of_dict_over)

lemma keys_opening:
  assumes "set (map KText IDENTITY) \<subseteq> set (dkeys a)"
  shows "take (length IDENTITY) (dkeys (arranged a TOP schema)) = map KText IDENTITY"
proof -
  have "once_each (map KText IDENTITY) = map KText IDENTITY"
    by (rule once_each_distinct) (simp add: IDENTITY_def)
  moreover have "filter (\<lambda>n. n \<in> set (dkeys a)) (map KText IDENTITY) = map KText IDENTITY"
    using assms by (simp only: filter_id_conv) blast
  ultimately have "\<exists>rest. dkeys (arranged a TOP schema) = map KText IDENTITY @ rest"
    unfolding keys_arranged sequence_def Let_def if_P [OF refl] once_each_append filter_append by metis
  then show ?thesis by auto
qed

lemma settled_content_keys: "map_of (settled_content a) k = (if k \<in> KText ` set IDENTITY then None else map_of a k)"
  unfolding settled_content_def by (induction a) auto

section \<open>The module's contract\<close>

text \<open>
  \<open>order\<close> only puts entries in order: what it writes is equal, as Python compares mappings, to what it was given,
  its top stands in the sequence its type gives it, and writing it again changes nothing.
\<close>

theorem order_only_orders:
  assumes "well_keyed (VMap a)" "distinct (dkeys (as_map (dget schema ''parts'')))" "settled_order a schema = Inr r"
  shows "py_eq (VMap a) (VMap r)
    \<and> dkeys r = filter (\<lambda>n. n \<in> set (dkeys a)) (sequence TOP (dkeys a) schema)
    \<and> settled_order r schema = Inr r"
  using order_eq [OF assms(1,3)] order_again [OF assms] unfolding keys_arranged by blast

theorem order_only_orders_witness:
  "settled_order [(KText ''b'', VInt 1), (KText ''a'', VList []), (KText ''title'', VStr ''T'')]
     [(KText ''properties'', VMap [(KText ''a'', VNull), (KText ''b'', VNull)])]
   = Inr [(KText ''title'', VStr ''T''), (KText ''a'', VList []), (KText ''b'', VInt 1)]
   \<and> py_eq (VMap [(KText ''b'', VInt 1), (KText ''a'', VList []), (KText ''title'', VStr ''T'')])
       (VMap [(KText ''title'', VStr ''T''), (KText ''a'', VList []), (KText ''b'', VInt 1)])"
proof -
  let ?a = "[(KText ''b'', VInt 1), (KText ''a'', VList []), (KText ''title'', VStr ''T'')]"
  let ?s = "[(KText ''properties'', VMap [(KText ''a'', VNull), (KText ''b'', VNull)])]"
  have "settled_order ?a ?s = Inr [(KText ''title'', VStr ''T''), (KText ''a'', VList []), (KText ''b'', VInt 1)]"
    by code_simp
  with order_only_orders [OF _ _ this] show ?thesis by (simp add: as_map_def)
qed

text \<open>
  content given an IRI, a type version, a revision and a title, and put in order, opens with the keys naming it
  (\<open>identified\<close>), and its kind, its version and its other entries are read back from it as they were given.
\<close>

theorem given_identified:
  assumes "well_keyed (VMap c)" "\<forall>k \<in> set IDENTITY. dget c k = None"
    and "iri a" "names_version t = Some (k, n)"
    and "settled_order (settled_given c a t revision title) schema = Inr r"
  shows "identified r \<and> settled_kind r = Inr k \<and> settled_version r = Inr n
    \<and> (\<forall>key v. map_of c key = Some v \<longrightarrow> (\<exists>w. map_of (settled_content r) key = Some w \<and> py_eq v w))"
proof -
  let ?g = "settled_given c a t revision title"
  have held: "dget r ''id'' = Some (VStr a)" "dget r ''type'' = Some (VStr t)"
    "dget r ''revision'' = Some (VInt revision)" "dget r ''title'' = Some (VStr title)"
    by (rule order_scalar [OF assms(5)], simp_all add: settled_given_get is_list_def)+
  have wk: "well_keyed (VMap ?g)"
    using assms(1) unfolding settled_given_def dict_over_def
    by (simp del: well_keyed.simps(2)) (intro well_keyed_updated, simp_all)
  have "set (map KText IDENTITY) \<subseteq> set (dkeys ?g)"
    by (auto simp: IDENTITY_def settled_given_def dict_over_def dom_update)
  then have open_keys: "take (length IDENTITY) (dkeys r) = map KText IDENTITY"
    using order_eq(2) [OF wk assms(5)] keys_opening by simp
  have kept: "\<exists>w. map_of (settled_content r) key = Some w \<and> py_eq v w" if "map_of c key = Some v" for key v
  proof -
    have "key \<notin> KText ` set IDENTITY" using that assms(2) by auto
    then have "map_of ?g key = Some v" using that by (auto simp: settled_given_get IDENTITY_def)
    from py_eq_lookup [OF order_eq(1) [OF wk assms(5)] this] \<open>key \<notin> KText ` set IDENTITY\<close>
    show ?thesis by (simp add: settled_content_keys)
  qed
  show ?thesis
    using open_keys held assms(3,4) kept
    by (simp add: identified_def settled_kind_def settled_version_def type_version_of_def is_str_def is_int_def text_at_def)
qed

theorem given_identified_witness:
  "\<exists>r. settled_order (settled_given [(KText ''a'', VInt 1)] ''https://a.io/t/x'' ''https://a.io/t@1'' 1 ''X'') [] = Inr r
     \<and> identified r \<and> settled_kind r = Inr ''https://a.io/t''"
proof -
  have o: "settled_order (settled_given [(KText ''a'', VInt 1)] ''https://a.io/t/x'' ''https://a.io/t@1'' 1 ''X'') []
    = Inr [(KText ''id'', VStr ''https://a.io/t/x''), (KText ''type'', VStr ''https://a.io/t@1''),
        (KText ''revision'', VInt 1), (KText ''title'', VStr ''X''), (KText ''a'', VInt 1)]" by code_simp
  have "iri ''https://a.io/t/x''" "names_version ''https://a.io/t@1'' = Some (''https://a.io/t'', 1)" by code_simp+
  from given_identified [OF _ _ this o] show ?thesis unfolding o by (simp add: IDENTITY_def)
qed

end
