(* ===== verification/KB_Places.thy ===== *)
theory KB_Places
  imports KB_Settled
begin

text \<open>
  \<open>places.py\<close>: a place inside an artifact, pairs of a collection and the name of an item in it, which may end in a
  field, resolved to where its node stands, or refused; the parts an artifact holds, and the node a read gives
  (\<open>parts.node\<close>). A \<open>Spot\<close>'s holder is a reference into the content, which the caller may write through; here it is
  the way to it from the content's top, one collection and index for each item gone into.
\<close>

section \<open>Resolving a place\<close>

type_synonym way = "(string \<times> nat) list"

datatype spot =
    Field (spot_way: way) (spot_field: string)
  | Item (spot_way: way) (spot_collection: string) (spot_index: nat)

definition place_name :: "string \<Rightarrow> obj \<Rightarrow> string option" where
  "place_name collection item =
     (if collection = ''sections''
        then (case dget item ''title'' of Some (VStr t) \<Rightarrow> Some (slug t) | _ \<Rightarrow> None)
      else (case dget item ''id'' of Some (VStr s) \<Rightarrow> Some s | _ \<Rightarrow> None))"

fun index_from :: "nat \<Rightarrow> string \<Rightarrow> val list \<Rightarrow> string \<Rightarrow> nat option" where
  "index_from index collection [] name = None"
| "index_from index collection (VMap item # entries) name =
     (if place_name collection item = Some name then Some index
      else index_from (Suc index) collection entries name)"
| "index_from index collection (other # entries) name = index_from (Suc index) collection entries name"

definition place_index :: "string \<Rightarrow> val option \<Rightarrow> string \<Rightarrow> nat option" where
  "place_index collection entries name = (case entries of
     Some (VList xs) \<Rightarrow> index_from 0 collection xs name | _ \<Rightarrow> None)"

text \<open>The item of a collection at an index, as the node the walk goes on from.\<close>

definition item_at :: "obj \<Rightarrow> string \<Rightarrow> nat \<Rightarrow> obj" where
  "item_at holder collection index = (case dget holder collection of
     Some (VList xs) \<Rightarrow> (if index < length xs then as_map (Some (xs ! index)) else []) | _ \<Rightarrow> [])"

fun walk :: "way \<Rightarrow> obj \<Rightarrow> string list \<Rightarrow> exn + spot option" where
  "walk way holder [] = Inl IndexError"
| "walk way holder [field] = Inr (Some (Field way field))"
| "walk way holder (collection # name # steps) =
     (case place_index collection (dget holder collection) name of
        None \<Rightarrow> Inr None
      | Some index \<Rightarrow>
          if steps = [] then Inr (Some (Item way collection index))
          else walk (way @ [(collection, index)]) (item_at holder collection index) steps)"

definition resolve :: "obj \<Rightarrow> locator \<Rightarrow> exn + spot" where
  "resolve content l = (case loc_place l of
     [] \<Rightarrow> Inl IndexError
   | first # _ \<Rightarrow>
       if first \<in> set IDENTITY then Inl (Refused [settled_place l])
       else rbind (walk [] content (loc_place l)) (\<lambda>found. case found of
              None \<Rightarrow> Inl (Refused [nothing_at l]) | Some spot \<Rightarrow> Inr spot))"

fun holder_at :: "obj \<Rightarrow> way \<Rightarrow> obj" where
  "holder_at content [] = content"
| "holder_at content ((collection, index) # way) = holder_at (item_at content collection index) way"

definition spot_value :: "obj \<Rightarrow> spot \<Rightarrow> val" where
  "spot_value content spot = (case spot of
     Field way field \<Rightarrow> (case dget (holder_at content way) field of Some v \<Rightarrow> v | None \<Rightarrow> VNull)
   | Item way collection index \<Rightarrow> VMap (item_at (holder_at content way) collection index))"

definition places_node :: "obj \<Rightarrow> locator \<Rightarrow> exn + val" where
  "places_node content l =
     (if loc_place l = [] then Inr (VMap content)
      else rbind (resolve content l) (\<lambda>spot. Inr (spot_value content spot)))"

text \<open>\<open>place[::2]\<close>.\<close>

fun evens :: "'a list \<Rightarrow> 'a list" where
  "evens [] = []"
| "evens [x] = [x]"
| "evens (x # y # xs) = x # evens xs"

definition holds_part :: "obj \<Rightarrow> string list \<Rightarrow> exn + bool" where
  "holds_part content place =
     (if length place mod 2 = 0 \<and> ''sections'' \<notin> set (evens place)
        then rbind (walk [] content place) (\<lambda>found. Inr (found \<noteq> None))
      else Inr False)"

section \<open>The parts an artifact holds\<close>

fun places_parts :: "obj \<Rightarrow> string list" where
  "places_parts content = concat (map (\<lambda>e. case e of
     (KText collection, VList entries) \<Rightarrow>
       (if collection = ''sections'' then [] else concat (map (\<lambda>item. case item of
          VMap m \<Rightarrow> (case dget m ''id'' of
              Some (VStr name) \<Rightarrow>
                (let place = names_placed [collection, name]
                 in place # map (\<lambda>inner. names_placed [place, inner]) (places_parts m))
            | _ \<Rightarrow> [])
        | _ \<Rightarrow> []) entries))
   | _ \<Rightarrow> []) content)"

declare places_parts.simps [simp del]

text \<open>\<open>parts.node\<close>: the part a locator's place names, or the artifact.\<close>

definition parts_node :: "obj \<Rightarrow> locator \<Rightarrow> exn + val" where
  "parts_node found l =
     (if loc_place l = [] then Inr (VMap found)
      else rbind (holds_part found (loc_place l)) (\<lambda>names_part.
             if names_part then places_node found l else Inr (VMap found)))"

section \<open>Lemmas\<close>

text \<open>The parts as the steps of their places.\<close>

fun part_steps :: "obj \<Rightarrow> string list list" where
  "part_steps content = concat (map (\<lambda>e. case e of
     (KText collection, VList entries) \<Rightarrow>
       (if collection = ''sections'' then [] else concat (map (\<lambda>item. case item of
          VMap m \<Rightarrow> (case dget m ''id'' of
              Some (VStr name) \<Rightarrow> [collection, name] # map (\<lambda>inner. collection # name # inner) (part_steps m)
            | _ \<Rightarrow> [])
        | _ \<Rightarrow> []) entries))
   | _ \<Rightarrow> []) content)"

declare part_steps.simps [simp del]

lemma part_steps_iff:
  "place \<in> set (part_steps content) \<longleftrightarrow> (\<exists>c xs m n rest. place = c # n # rest \<and> c \<noteq> ''sections'' \<and>
     (KText c, VList xs) \<in> set content \<and> VMap m \<in> set xs \<and> dget m ''id'' = Some (VStr n) \<and>
     (rest = [] \<or> rest \<in> set (part_steps m)))"
  (is "?l \<longleftrightarrow> ?r")
proof
  assume ?l
  then obtain c xs item where *: "(KText c, VList xs) \<in> set content" "c \<noteq> ''sections''" "item \<in> set xs"
    "place \<in> set (case item of
          VMap m \<Rightarrow> (case dget m ''id'' of
              Some (VStr name) \<Rightarrow> [c, name] # map (\<lambda>inner. c # name # inner) (part_steps m)
            | _ \<Rightarrow> [])
        | _ \<Rightarrow> [])"
    unfolding part_steps.simps [of content] by (clarsimp split: key.splits val.splits if_splits) metis
  then obtain m n where "item = VMap m" "dget m ''id'' = Some (VStr n)"
    "place = [c, n] \<or> (\<exists>inner \<in> set (part_steps m). place = c # n # inner)"
  proof (cases item)
    case (VMap m)
    with *(4) have "place \<in> set (case dget m ''id'' of
              Some (VStr name) \<Rightarrow> [c, name] # map (\<lambda>inner. c # name # inner) (part_steps m) | _ \<Rightarrow> [])" by simp
    then obtain n where "dget m ''id'' = Some (VStr n)"
      "place \<in> set ([c, n] # map (\<lambda>inner. c # n # inner) (part_steps m))"
      by (cases "dget m ''id''") (simp, rename_tac v, case_tac v, simp_all)
    with VMap show ?thesis by (intro that) auto
  qed simp_all
  with * show ?r by blast
next
  assume ?r
  then obtain c xs m n rest where *: "place = c # n # rest" "c \<noteq> ''sections''"
     "(KText c, VList xs) \<in> set content" "VMap m \<in> set xs" "dget m ''id'' = Some (VStr n)"
     "rest = [] \<or> rest \<in> set (part_steps m)" by blast
  let ?f = "\<lambda>c item. case item of
          VMap m \<Rightarrow> (case dget m ''id'' of
              Some (VStr name) \<Rightarrow> [c, name] # map (\<lambda>inner. c # name # inner) (part_steps m)
            | _ \<Rightarrow> [])
        | _ \<Rightarrow> []"
  have "place \<in> set (?f c (VMap m))" using * by auto
  with *(4) have "place \<in> set (concat (map (?f c) xs))" by (subst set_concat) (simp only: set_map, blast)
  with *(2) have "place \<in> set (case (KText c, VList xs) of
      (KText c, VList xs) \<Rightarrow> (if c = ''sections'' then [] else concat (map (?f c) xs)) | _ \<Rightarrow> [])"
    by (simp only: prod.case key.case val.case if_False)
  with *(3) show ?l
    unfolding part_steps.simps [of content] set_concat set_map by blast
qed

lemma part_steps_not_Nil: "place \<in> set (part_steps content) \<Longrightarrow> place \<noteq> []"
  by (auto simp: part_steps_iff [of place content])

lemma names_placed_inner:
  "inner \<noteq> [] \<Longrightarrow> names_placed [names_placed [c, n], names_placed inner] = names_placed (c # n # inner)"
  by (simp add: names_placed_def join_with_Cons)

lemma places_parts_steps: "places_parts content = map names_placed (part_steps content)"
proof (induction content rule: places_parts.induct)
  case (1 content)
  have item: "(case item of VMap m \<Rightarrow> (case dget m ''id'' of
              Some (VStr name) \<Rightarrow>
                (let place = names_placed [c, name]
                 in place # map (\<lambda>inner. names_placed [place, inner]) (places_parts m))
            | _ \<Rightarrow> []) | _ \<Rightarrow> [])
      = map names_placed (case item of VMap m \<Rightarrow> (case dget m ''id'' of
              Some (VStr name) \<Rightarrow> [c, name] # map (\<lambda>inner. c # name # inner) (part_steps m)
            | _ \<Rightarrow> []) | _ \<Rightarrow> [])"
    if "(KText c, VList xs) \<in> set content" "item \<in> set xs" "c \<noteq> ''sections''" for c xs item
  proof (cases item)
    case (VMap m)
    show ?thesis
    proof (cases "\<exists>name. dget m ''id'' = Some (VStr name)")
      case True
      then obtain name where n: "dget m ''id'' = Some (VStr name)" by blast
      have "places_parts m = map names_placed (part_steps m)"
        using 1 [OF that(1) refl refl refl that(3,2) VMap n refl] by blast
      with VMap n show ?thesis
        by (auto simp: Let_def names_placed_inner part_steps_not_Nil simp del: join_with.simps)
    next
      case False
      with VMap show ?thesis by (auto split: option.splits val.splits)
    qed
  qed auto
  show ?case
    unfolding places_parts.simps [of content] part_steps.simps [of content]
    by (auto simp: map_concat comp_def item intro!: arg_cong [of _ _ concat] split: key.splits val.splits)
qed

text \<open>
  An artifact whose parts are told apart: in every collection, at every depth, the names its items carry are each on
  one item.
\<close>

definition text_names :: "val list \<Rightarrow> string list" where
  "text_names xs = concat (map (\<lambda>x. case named_text x of Some s \<Rightarrow> [s] | None \<Rightarrow> []) xs)"

fun parts_told :: "obj \<Rightarrow> bool" where
  "parts_told content = (distinct (map fst content) \<and> list_all (\<lambda>e. case e of
     (KText c, VList xs) \<Rightarrow> c = ''sections'' \<or> (distinct (text_names xs) \<and>
       list_all (\<lambda>x. case x of VMap m \<Rightarrow> parts_told m | _ \<Rightarrow> True) xs)
   | _ \<Rightarrow> True) content)"

declare parts_told.simps [simp del]

lemma parts_told_entry:
  assumes "parts_told content" "(KText c, VList xs) \<in> set content" "c \<noteq> ''sections''"
  shows "dget content c = Some (VList xs)" "distinct (text_names xs)" "VMap m \<in> set xs \<Longrightarrow> parts_told m"
proof -
  have d: "distinct (map fst content)"
    and e: "distinct (text_names xs) \<and> list_all (\<lambda>x. case x of VMap m \<Rightarrow> parts_told m | _ \<Rightarrow> True) xs"
    using assms unfolding parts_told.simps [of content]
    by (auto simp: list_all_iff [of _ content] dest!: bspec [of _ _ "(KText c, VList xs)"])
  from d assms(2) show "dget content c = Some (VList xs)" by simp
  from e show "distinct (text_names xs)" by blast
  show "parts_told m" if "VMap m \<in> set xs" using e that by (auto simp: list_all_iff dest!: bspec [of _ _ "VMap m"])
qed

lemma place_name_part: "c \<noteq> ''sections'' \<Longrightarrow> place_name c m = named_text (VMap m)"
  by (auto simp: place_name_def named_text_def)

lemma index_from_sound:
  "index_from k c xs n = Some i \<Longrightarrow> k \<le> i \<and> i - k < length xs \<and>
     (\<exists>m. xs ! (i - k) = VMap m \<and> place_name c m = Some n)"
  by (induction k c xs n rule: index_from.induct) (auto simp: nth_Cons' split: if_splits)

lemma index_from_told:
  "distinct (text_names xs) \<Longrightarrow> c \<noteq> ''sections'' \<Longrightarrow> j < length xs \<Longrightarrow> xs ! j = VMap m \<Longrightarrow>
   named_text (VMap m) = Some n \<Longrightarrow> index_from k c xs n = Some (k + j)"
proof (induction xs arbitrary: k j)
  case (Cons x xs)
  show ?case
  proof (cases j)
    case 0
    with Cons.prems show ?thesis by (simp add: place_name_part)
  next
    case (Suc i)
    with Cons.prems have i: "i < length xs" "xs ! i = VMap m" by auto
    with Cons.prems(5) have "n \<in> set (text_names xs)" by (force simp: text_names_def in_set_conv_nth)
    with Cons.prems(1) have "named_text x \<noteq> Some n" by (auto simp: text_names_def)
    moreover have "index_from (Suc k) c xs n = Some (Suc k + i)"
      using Cons.prems i by (intro Cons.IH) (auto simp: text_names_def)
    ultimately show ?thesis using Suc Cons.prems(2) by (cases x) (auto simp: place_name_part)
  qed
qed simp

text \<open>Whether something stands at a place, whatever the way there.\<close>

fun found_at :: "obj \<Rightarrow> string list \<Rightarrow> bool" where
  "found_at holder [] = False"
| "found_at holder [field] = True"
| "found_at holder (c # n # steps) = (case place_index c (dget holder c) n of
     None \<Rightarrow> False | Some i \<Rightarrow> steps = [] \<or> found_at (item_at holder c i) steps)"

lemma walk_found: "steps \<noteq> [] \<Longrightarrow> \<exists>r. walk way holder steps = Inr r \<and> (r \<noteq> None \<longleftrightarrow> found_at holder steps)"
proof (induction way holder steps rule: walk.induct)
  case (3 way holder c n steps)
  then show ?case by (cases "place_index c (dget holder c) n") auto
qed auto

lemma holds_part_found:
  "holds_part content place =
     (if length place mod 2 = 0 \<and> ''sections'' \<notin> set (evens place)
        then (if place = [] then Inl IndexError else Inr (found_at content place)) else Inr False)"
  using walk_found [of place "[]" content] by (auto simp: holds_part_def)

lemma holds_part_Cons:
  "holds_part content (c # n # rest) = Inr True \<longleftrightarrow>
     c \<noteq> ''sections'' \<and> (\<exists>i. place_index c (dget content c) n = Some i \<and>
       (rest = [] \<or> holds_part (item_at content c i) rest = Inr True))"
  by (auto simp: holds_part_found mod2_Suc_Suc split: option.splits)

lemma holds_part_odd: "holds_part content [c] = Inr False"
  by (simp add: holds_part_def)

lemma place_index_part:
  assumes "parts_told content" "c \<noteq> ''sections''"
  shows "place_index c (dget content c) n = Some i \<longleftrightarrow> (\<exists>xs m. (KText c, VList xs) \<in> set content \<and>
     i < length xs \<and> xs ! i = VMap m \<and> dget m ''id'' = Some (VStr n))"
  (is "?l \<longleftrightarrow> ?r")
proof
  assume ?l
  then obtain xs where xs: "dget content c = Some (VList xs)" "index_from 0 c xs n = Some i"
    by (auto simp: place_index_def split: option.splits val.splits)
  from index_from_sound [OF xs(2)] assms(2) obtain m where "i < length xs" "xs ! i = VMap m"
    "named_text (VMap m) = Some n" by (auto simp: place_name_part)
  with xs(1) show ?r by (auto simp: named_text_def dest: map_of_SomeD split: option.splits val.splits)
next
  assume ?r
  then obtain xs m where r: "(KText c, VList xs) \<in> set content" "i < length xs" "xs ! i = VMap m"
    "dget m ''id'' = Some (VStr n)" by blast
  from parts_told_entry [OF assms(1) r(1) assms(2)]
  have "dget content c = Some (VList xs)" "distinct (text_names xs)" by auto
  with index_from_told [of xs c i m n 0] r assms(2) show ?l
    by (simp add: place_index_def named_text_def)
qed

lemma part_steps_Cons:
  "c # n # rest \<in> set (part_steps content) \<longleftrightarrow> (\<exists>xs m i. c \<noteq> ''sections'' \<and>
     (KText c, VList xs) \<in> set content \<and> i < length xs \<and> xs ! i = VMap m \<and> dget m ''id'' = Some (VStr n) \<and>
     (rest = [] \<or> rest \<in> set (part_steps m)))"
  (is "_ \<longleftrightarrow> ?r")
proof
  assume "c # n # rest \<in> set (part_steps content)"
  then obtain xs m where "c \<noteq> ''sections''" "(KText c, VList xs) \<in> set content" "VMap m \<in> set xs"
    "dget m ''id'' = Some (VStr n)" "rest = [] \<or> rest \<in> set (part_steps m)"
    unfolding part_steps_iff [of "c # n # rest" content] by blast
  then show ?r unfolding in_set_conv_nth [of "VMap m" xs] by blast
next
  assume ?r
  then obtain xs m i where r: "c \<noteq> ''sections''" "(KText c, VList xs) \<in> set content" "i < length xs" "xs ! i = VMap m"
    "dget m ''id'' = Some (VStr n)" "rest = [] \<or> rest \<in> set (part_steps m)" by blast
  from r(3,4) have "VMap m \<in> set xs" using nth_mem [of i xs] by simp
  with r show "c # n # rest \<in> set (part_steps content)"
    unfolding part_steps_iff [of "c # n # rest" content] by blast
qed

lemma part_steps_held:
  "parts_told content \<Longrightarrow> place \<in> set (part_steps content) \<longleftrightarrow> place \<noteq> [] \<and> holds_part content place = Inr True"
proof (induction "length place" arbitrary: content place rule: less_induct)
  case less
  show ?case
  proof (cases place)
    case (Cons c steps)
    show ?thesis
    proof (cases steps)
      case Nil
      with Cons show ?thesis using part_steps_iff [of place content] by (auto simp: holds_part_odd)
    next
      case (Cons n rest)
      have at: "item_at content c i = m \<and> parts_told m"
        if "(KText c, VList xs) \<in> set content" "i < length xs" "xs ! i = VMap m" "c \<noteq> ''sections''" for xs i m
        using parts_told_entry [OF less.prems that(1,4)] that(2,3) nth_mem [of i xs]
        by (auto simp: item_at_def as_map_def)
      have ih: "rest \<in> set (part_steps m) \<longleftrightarrow> rest \<noteq> [] \<and> holds_part m rest = Inr True" if "parts_told m" for m
        using less.hyps [of rest m] that Cons \<open>place = c # steps\<close> by simp
      have "place \<in> set (part_steps content) \<longleftrightarrow> (\<exists>xs m i. c \<noteq> ''sections'' \<and>
         (KText c, VList xs) \<in> set content \<and> i < length xs \<and> xs ! i = VMap m \<and> dget m ''id'' = Some (VStr n) \<and>
         (rest = [] \<or> rest \<in> set (part_steps m)))"
        unfolding Cons \<open>place = c # steps\<close> by (rule part_steps_Cons)
      also have "\<dots> \<longleftrightarrow> c \<noteq> ''sections'' \<and> (\<exists>i. place_index c (dget content c) n = Some i \<and>
         (rest = [] \<or> holds_part (item_at content c i) rest = Inr True))"
      proof (intro iffI; elim exE conjE)
        fix xs m i assume c: "c \<noteq> ''sections''" and x: "(KText c, VList xs) \<in> set content" "i < length xs" "xs ! i = VMap m"
          and n: "dget m ''id'' = Some (VStr n)" and r: "rest = [] \<or> rest \<in> set (part_steps m)"
        have "place_index c (dget content c) n = Some i" using place_index_part [OF less.prems c] x n by blast
        with c r at [OF x c] ih show "c \<noteq> ''sections'' \<and> (\<exists>i. place_index c (dget content c) n = Some i \<and>
          (rest = [] \<or> holds_part (item_at content c i) rest = Inr True))" by auto
      next
        fix i assume c: "c \<noteq> ''sections''" and i: "place_index c (dget content c) n = Some i"
          and r: "rest = [] \<or> holds_part (item_at content c i) rest = Inr True"
        from i place_index_part [OF less.prems c] obtain xs m where x: "(KText c, VList xs) \<in> set content"
          "i < length xs" "xs ! i = VMap m" and n: "dget m ''id'' = Some (VStr n)" by blast
        with c r at [OF x c] ih show "\<exists>xs m i. c \<noteq> ''sections'' \<and> (KText c, VList xs) \<in> set content \<and>
          i < length xs \<and> xs ! i = VMap m \<and> dget m ''id'' = Some (VStr n) \<and>
          (rest = [] \<or> rest \<in> set (part_steps m))" by blast
      qed
      also have "\<dots> \<longleftrightarrow> holds_part content (c # n # rest) = Inr True" by (rule holds_part_Cons [symmetric])
      finally show ?thesis using Cons \<open>place = c # steps\<close> by simp
    qed
  qed (auto dest: part_steps_not_Nil)
qed

lemma holder_at_snoc: "holder_at content (way @ [(c, i)]) = item_at (holder_at content way) c i"
  by (induction content way rule: holder_at.induct) auto

lemma walk_stands:
  "walk way (holder_at content way) steps = Inr (Some spot) \<Longrightarrow> (case spot of
     Item w c i \<Rightarrow> length way + length steps div 2 = Suc (length w) \<and> even (length steps) \<and>
       (\<exists>xs m. dget (holder_at content w) c = Some (VList xs) \<and> i < length xs \<and> xs ! i = VMap m \<and>
          place_name c m = Some (last steps))
   | Field w f \<Rightarrow> length way + length steps div 2 = length w \<and> odd (length steps) \<and> f = last steps)"
proof (induction way "holder_at content way" steps rule: walk.induct)
  case (3 way c n steps)
  from 3(2) obtain i where i: "place_index c (dget (holder_at content way) c) n = Some i"
    by (auto split: option.splits)
  then obtain xs where xs: "dget (holder_at content way) c = Some (VList xs)" "index_from 0 c xs n = Some i"
    by (auto simp: place_index_def split: option.splits val.splits)
  show ?case
  proof (cases "steps = []")
    case True
    with 3(2) i have "spot = Item way c i" by simp
    with True index_from_sound [OF xs(2)] xs(1) show ?thesis by auto
  next
    case False
    with 3(2) i have "walk (way @ [(c, i)]) (holder_at content (way @ [(c, i)])) steps = Inr (Some spot)"
      by (simp add: holder_at_snoc)
    from 3(1) [OF i False _ this] False show ?thesis by (auto simp: holder_at_snoc split: spot.splits)
  qed
qed auto

section \<open>The module's contract\<close>

text \<open>
  \<open>parts\<close> lists exactly the places \<open>holds_part\<close> says name a part, each written as a link names it, for an
  artifact in which no two items of a collection carry one name.
\<close>

theorem parts_are_held:
  assumes "parts_told content"
  shows "p \<in> set (places_parts content) \<longleftrightarrow>
    (\<exists>place. place \<noteq> [] \<and> holds_part content place = Inr True \<and> p = names_placed place)"
  unfolding places_parts_steps using part_steps_held [OF assms] by (auto simp del: part_steps.simps)

theorem parts_are_held_witness:
  "''steps/draft/notes/n'' \<in> set (places_parts [(KText ''steps'', VList [VMap [(KText ''id'', VStr ''draft''),
      (KText ''notes'', VList [VMap [(KText ''id'', VStr ''n'')]])]])]) \<and>
   (\<exists>place. place \<noteq> [] \<and> holds_part [(KText ''steps'', VList [VMap [(KText ''id'', VStr ''draft''),
      (KText ''notes'', VList [VMap [(KText ''id'', VStr ''n'')]])]])] place = Inr True
      \<and> ''steps/draft/notes/n'' = names_placed place)"
proof -
  let ?c = "[(KText ''steps'', VList [VMap [(KText ''id'', VStr ''draft''),
      (KText ''notes'', VList [VMap [(KText ''id'', VStr ''n'')]])]])]"
  have "parts_told ?c" by code_simp
  moreover have "''steps/draft/notes/n'' \<in> set (places_parts ?c)" by code_simp
  ultimately show ?thesis using parts_are_held [of ?c "''steps/draft/notes/n''"] by blast
qed

text \<open>
  \<open>resolve\<close> finds, for a place that is not empty, an item that carries the place's last name in the collection it
  says, or the place's last step as a field of an item, as deep as the place is long; otherwise it is refused
  with one fault, for beginning at what only the store settles or for naming nothing.
\<close>

theorem resolve_outcome:
  assumes "loc_place l \<noteq> []"
  shows "case resolve content l of
     Inr (Item way c i) \<Rightarrow> length (loc_place l) = 2 * length way + 2 \<and>
       (\<exists>xs m. dget (holder_at content way) c = Some (VList xs) \<and> i < length xs \<and> xs ! i = VMap m \<and>
          place_name c m = Some (last (loc_place l)))
   | Inr (Field way f) \<Rightarrow> length (loc_place l) = 2 * length way + 1 \<and> f = last (loc_place l)
   | Inl e \<Rightarrow> e = Refused [if hd (loc_place l) \<in> set IDENTITY then settled_place l else nothing_at l]"
proof -
  obtain first rest where l: "loc_place l = first # rest" using assms by (cases "loc_place l") auto
  obtain r where r: "walk [] content (loc_place l) = Inr r" using walk_found [OF assms] by blast
  show ?thesis
  proof (cases r)
    case None
    with r l show ?thesis by (auto simp: resolve_def)
  next
    case (Some spot)
    with r have "walk [] (holder_at content []) (loc_place l) = Inr (Some spot)" by simp
    from walk_stands [OF this] r l Some show ?thesis
      by (auto simp: resolve_def split: spot.splits) presburger+
  qed
qed

theorem resolve_outcome_witness:
  "resolve [(KText ''steps'', VList [VMap [(KText ''id'', VStr ''a'')], VMap [(KText ''id'', VStr ''b'')]])]
     (Locator (ArtifactId ''x'') [''steps'', ''b'']) = Inr (Item [] ''steps'' 1)
   \<and> place_name ''steps'' [(KText ''id'', VStr ''b'')] = Some ''b''"
proof -
  let ?c = "[(KText ''steps'', VList [VMap [(KText ''id'', VStr ''a'')], VMap [(KText ''id'', VStr ''b'')]])]"
  have r: "resolve ?c (Locator (ArtifactId ''x'') [''steps'', ''b'']) = Inr (Item [] ''steps'' 1)" by code_simp
  from resolve_outcome [of "Locator (ArtifactId ''x'') [''steps'', ''b'']" ?c] r show ?thesis by auto
qed

end
