(* ===== verification/KB_Composition.thy ===== *)
theory KB_Composition
  imports KB_Places
begin

text \<open>
  \<open>composition.py\<close>: a type read through what it is built on. A corpus is what the code asks of a store or of a
  draft: a record of the reads it makes. A read that raises \<open>KeyError\<close> is None here. \<open>composition\<close> calls itself
  for the members of \<open>allOf\<close> and for the schema a whole reference names; its first argument is how many
  calls may still nest, and running out is Python's \<open>RecursionError\<close>. \<open>composition_fuel\<close> and
  \<open>composition_returns\<close> show that the bound only matters for types built on each other in a circle.
\<close>

section \<open>A corpus\<close>

record type_version =
  tv_version :: version
  tv_content :: obj
  tv_revision :: int
  tv_title :: string

record corpus =
  c_holds :: "artifact_id \<Rightarrow> bool"
  c_artifact :: "artifact_id \<Rightarrow> obj option"
  c_type_version :: "version \<Rightarrow> type_version option"
  c_versions :: "artifact_id \<Rightarrow> int list"
  c_ids :: "kind option \<Rightarrow> artifact_id list"

definition corpus_artifact :: "corpus \<Rightarrow> artifact_id \<Rightarrow> exn + obj" where
  "corpus_artifact c a = (case c_artifact c a of None \<Rightarrow> Inl (KeyError (iri_of a)) | Some m \<Rightarrow> Inr m)"

section \<open>References\<close>

record reference =
  ref_type :: "artifact_id option"
  ref_whole :: bool
  ref_number :: int

definition reference :: "string \<Rightarrow> reference option" where
  "reference ref = (case referred ref of
     None \<Rightarrow> None
   | Some (name, fragment) \<Rightarrow> (case names_version name of
       None \<Rightarrow> Some \<lparr>ref_type = None, ref_whole = (fragment = []), ref_number = 0\<rparr>
     | Some (type_iri, number) \<Rightarrow>
         Some \<lparr>ref_type = Some (ArtifactId type_iri), ref_whole = (fragment = []), ref_number = number\<rparr>))"

definition typed_at :: "artifact_id \<Rightarrow> corpus \<Rightarrow> exn + bool" where
  "typed_at a c = (if c_holds c a then rbind (corpus_artifact c a) settled_typed else Inr False)"

definition kept :: "artifact_id \<Rightarrow> int \<Rightarrow> corpus \<Rightarrow> exn + type_version option" where
  "kept a number c = rbind (typed_at a c) (\<lambda>typed.
     Inr (if typed then c_type_version c (Version (Kind (iri_of a)) number) else None))"

definition current :: "artifact_id \<Rightarrow> corpus \<Rightarrow> exn + type_version" where
  "current a c = rbind (corpus_artifact c a) (\<lambda>found. rbind (settled_typed found) (\<lambda>typed.
     if \<not> typed then Inl (KeyError (iri_of a))
     else case dget found ''version'' of
       None \<Rightarrow> Inl (KeyError ''version'')
     | Some (VInt n) \<Rightarrow> (case c_type_version c (Version (Kind (iri_of a)) n) of
           None \<Rightarrow> Inl (KeyError (versioned (iri_of a) n)) | Some v \<Rightarrow> Inr v)
     | Some v \<Rightarrow> Inl (KeyError (iri_of a @ ''@'' @ py_str v))))"

definition comp_held :: "reference \<Rightarrow> corpus \<Rightarrow> exn + bool" where
  "comp_held r c = (case ref_type r of
     None \<Rightarrow> Inr False
   | Some a \<Rightarrow> rbind (kept a (ref_number r) c) (\<lambda>v. Inr (v \<noteq> None)))"

text \<open>\<open>type_schema\<close>: \<open>NoSuchResource\<close> is raised for a reference to nothing the corpus holds.\<close>

definition type_schema :: "string \<Rightarrow> corpus \<Rightarrow> exn + val" where
  "type_schema uri c = (case reference uri of
     None \<Rightarrow> Inl (NoSuchResource uri)
   | Some r \<Rightarrow> (case ref_type r of
       None \<Rightarrow> Inl (NoSuchResource uri)
     | Some a \<Rightarrow> rbind (kept a (ref_number r) c) (\<lambda>v. case v of
         None \<Rightarrow> Inl (NoSuchResource uri)
       | Some made \<Rightarrow> (case dget (tv_content made) ''schema'' of
           None \<Rightarrow> Inl (KeyError ''schema'') | Some s \<Rightarrow> Inr s))))"

section \<open>What a schema is built on\<close>

text \<open>What a \<open>for\<close> goes over: a list's entries, a mapping's keys, a text's characters.\<close>

definition py_iter :: "val \<Rightarrow> exn + val list" where
  "py_iter v = (case v of
     VList xs \<Rightarrow> Inr xs
   | VMap m \<Rightarrow> Inr (map (\<lambda>e. VStr (key_str (fst e))) m)
   | VStr s \<Rightarrow> Inr (map (\<lambda>c. VStr [c]) s)
   | _ \<Rightarrow> Inl TypeError)"

definition whole_ref :: "obj \<Rightarrow> string option" where
  "whole_ref m = (case dget m ''$ref'' of
     Some (VStr ref) \<Rightarrow> (case reference ref of
       Some r \<Rightarrow> if ref_whole r then Some ref else None | None \<Rightarrow> None)
   | _ \<Rightarrow> None)"

fun composition :: "nat \<Rightarrow> val \<Rightarrow> corpus \<Rightarrow> exn + obj list" where
  "composition 0 schema c = Inl RecursionError"
| "composition (Suc n) schema c = (case schema of
     VMap m \<Rightarrow>
       rbind (case dget m ''allOf'' of None \<Rightarrow> Inr [] | Some v \<Rightarrow> py_iter v) (\<lambda>members.
       rbind (rall (map (\<lambda>member. composition n member c) members)) (\<lambda>built_on.
       rbind (case whole_ref m of
                None \<Rightarrow> Inr []
              | Some ref \<Rightarrow> rbind (type_schema ref c) (\<lambda>s. composition n s c)) (\<lambda>base.
       Inr (concat built_on @ base @ [m]))))
   | _ \<Rightarrow> Inl AttributeError)"

text \<open>\<open>dict.update\<close> with a value of a schema: a mapping, or an empty list or text; anything else raises.\<close>

definition updated :: "obj \<Rightarrow> val option \<Rightarrow> exn + obj" where
  "updated whole v = (case v of
     None \<Rightarrow> Inr whole
   | Some (VMap m) \<Rightarrow> Inr (dict_over whole m)
   | Some w \<Rightarrow> if w = VList [] \<or> w = VStr [] then Inr whole else Inl TypeError)"

record declares =
  d_properties :: obj
  d_parts :: obj
  d_summary :: "val list"

definition declared_by :: "obj \<Rightarrow> declares \<Rightarrow> exn + declares" where
  "declared_by part whole =
     rbind (updated (d_properties whole) (dget part ''properties'')) (\<lambda>properties.
     rbind (updated (d_parts whole) (dget part ''parts'')) (\<lambda>parts.
     rbind (case dget part ''summary'' of None \<Rightarrow> Inr [] | Some v \<Rightarrow> py_iter v) (\<lambda>summary.
     Inr \<lparr>d_properties = properties, d_parts = parts,
          d_summary = d_summary whole @ filter (\<lambda>name. \<not> list_ex (py_eq name) (d_summary whole)) summary\<rparr>)))"

fun declared_all :: "obj list \<Rightarrow> declares \<Rightarrow> exn + declares" where
  "declared_all [] whole = Inr whole"
| "declared_all (part # rest) whole = rbind (declared_by part whole) (declared_all rest)"

definition declared :: "nat \<Rightarrow> val \<Rightarrow> corpus \<Rightarrow> exn + declares" where
  "declared n schema c = rbind (composition n schema c) (\<lambda>built.
     declared_all built \<lparr>d_properties = [], d_parts = [], d_summary = []\<rparr>)"

text \<open>What is declared, as the mapping the code makes of it.\<close>

definition declares_map :: "declares \<Rightarrow> obj" where
  "declares_map d = [(KText ''properties'', VMap (d_properties d)), (KText ''parts'', VMap (d_parts d)),
     (KText ''summary'', VList (d_summary d))]"

text \<open>\<open>part.get("items", {})\<close>.\<close>

definition item_schema :: "val \<Rightarrow> exn + val" where
  "item_schema part = (case part of
     VMap m \<Rightarrow> Inr (case dget m ''items'' of None \<Rightarrow> VMap [] | Some v \<Rightarrow> v) | _ \<Rightarrow> Inl AttributeError)"

fun declared_along :: "nat \<Rightarrow> declares \<Rightarrow> string list \<Rightarrow> corpus \<Rightarrow> exn + declares" where
  "declared_along n held [] c = Inr held"
| "declared_along n held (collection # rest) c =
     rbind (case dget (d_parts held) collection of None \<Rightarrow> Inr (VMap []) | Some part \<Rightarrow> item_schema part)
       (\<lambda>schema. rbind (declared n schema c) (\<lambda>held. declared_along n held rest c))"

definition declared_at :: "nat \<Rightarrow> declares \<Rightarrow> string list \<Rightarrow> corpus \<Rightarrow> exn + declares" where
  "declared_at n held place c = declared_along n held (evens place) c"

section \<open>The types an artifact is read through\<close>

definition kind_type :: "kind \<Rightarrow> corpus \<Rightarrow> exn + artifact_id" where
  "kind_type k c = rbind (typed_at (type_of k) c) (\<lambda>typed.
     if typed then Inr (type_of k) else Inl (Refused [no_type (kind_name k)]))"

definition version_schema :: "version \<Rightarrow> corpus \<Rightarrow> exn + obj" where
  "version_schema v c = rbind (kept (type_of (version_kind v)) (version_number v) c) (\<lambda>found. case found of
     None \<Rightarrow> Inl (Refused [no_version (version_str v)]) | Some made \<Rightarrow> Inr (tv_content made))"

definition artifact_kind :: "obj \<Rightarrow> exn + kind" where
  "artifact_kind artifact = rbind (settled_kind artifact) (\<lambda>k. Inr (Kind k))"

definition conforming :: "obj \<Rightarrow> exn + version" where
  "conforming artifact = rbind (artifact_kind artifact) (\<lambda>k. rbind (settled_version artifact) (\<lambda>n. Inr (Version k n)))"

definition conformed :: "obj \<Rightarrow> corpus \<Rightarrow> exn + obj" where
  "conformed artifact c = rbind (conforming artifact) (\<lambda>v. version_schema v c)"

definition moves_to :: "obj \<Rightarrow> version \<Rightarrow> corpus \<Rightarrow> exn + bool" where
  "moves_to artifact v c = rbind (conforming artifact) (\<lambda>stands.
     if version_kind v \<noteq> version_kind stands \<or> version_number v < version_number stands then Inr False
     else rbind (kept (type_of (version_kind v)) (version_number v) c) (\<lambda>found. Inr (found \<noteq> None)))"

fun first_typed :: "artifact_id list \<Rightarrow> corpus \<Rightarrow> exn + artifact_id option" where
  "first_typed [] c = Inr None"
| "first_typed (each # rest) c = rbind (typed_at each c) (\<lambda>typed. if typed then Inr (Some each) else first_typed rest c)"

definition ids_above :: "artifact_id \<Rightarrow> artifact_id list" where
  "ids_above a = map ArtifactId (above (iri_of a))"

definition nearest_type :: "artifact_id \<Rightarrow> corpus \<Rightarrow> exn + artifact_id option" where
  "nearest_type a c = first_typed (ids_above a) c"

fun first_was :: "artifact_id list \<Rightarrow> artifact_id \<Rightarrow> corpus \<Rightarrow> exn + bool" where
  "first_was [] type_id c = Inr False"
| "first_was (each # rest) type_id c =
     (if each = type_id then Inr True
      else rbind (typed_at each c) (\<lambda>typed. if typed then Inr False else first_was rest type_id c))"

definition nearest_was :: "artifact_id \<Rightarrow> artifact_id \<Rightarrow> corpus \<Rightarrow> exn + bool" where
  "nearest_was a type_id c = first_was (ids_above a) type_id c"

definition kind_of :: "artifact_id \<Rightarrow> corpus \<Rightarrow> exn + kind" where
  "kind_of a c = rbind (corpus_artifact c a) artifact_kind"

definition artifact_schema :: "obj \<Rightarrow> corpus \<Rightarrow> exn + obj" where
  "artifact_schema artifact c = conformed artifact c"

definition kind_schema :: "kind \<Rightarrow> corpus \<Rightarrow> exn + obj" where
  "kind_schema k c = rbind (kind_type k c) (\<lambda>a. rbind (current a c) (\<lambda>v. Inr (tv_content v)))"

fun references :: "val \<Rightarrow> reference list" where
  "references (VMap m) = concat (map (\<lambda>e.
     (case e of (KText key, VStr value) \<Rightarrow>
        (if key = ''$ref'' then (case reference value of
            Some r \<Rightarrow> (if ref_type r \<noteq> None then [r] else []) | None \<Rightarrow> []) else [])
      | _ \<Rightarrow> [])
     @ references (snd e)) m)"
| "references (VList xs) = concat (map references xs)"
| "references _ = []"

definition comp_referred :: "val \<Rightarrow> artifact_id list" where
  "comp_referred node = map (\<lambda>r. the (ref_type r)) (references node)"

type_synonym following = "artifact_id list \<times> (artifact_id \<times> int) list"

definition content_schema :: "obj \<Rightarrow> val" where
  "content_schema content = (case dget content ''schema'' of None \<Rightarrow> VNull | Some s \<Rightarrow> s)"

function (sequential) visit :: "nat \<Rightarrow> corpus \<Rightarrow> reference list \<Rightarrow> following \<Rightarrow> exn + following" where
  "visit n c [] state = Inr state"
| "visit n c (named # rest) (found, followed) =
     (let a = the (ref_type named); at = (a, ref_number named)
      in rbind (if at \<in> set followed then Inr None else kept a (ref_number named) c) (\<lambda>v. case v of
           None \<Rightarrow> visit n c rest (found, at # followed)
         | Some made \<Rightarrow> (case n of
             0 \<Rightarrow> Inl RecursionError
           | Suc k \<Rightarrow> rbind (visit k c (references (content_schema (tv_content made)))
                            (if a \<in> set found then found else found @ [a], at # followed))
                        (visit n c rest))))"
  by pat_completeness auto
termination by (relation "measures [\<lambda>(n, c, rest, state). n, \<lambda>(n, c, rest, state). length rest]") auto

definition read_through :: "nat \<Rightarrow> kind \<Rightarrow> val \<Rightarrow> corpus \<Rightarrow> exn + artifact_id list" where
  "read_through n k schema c = rbind (visit n c (references schema) ([type_of k], [])) (\<lambda>(found, _). Inr found)"

fun reads_any :: "int list \<Rightarrow> artifact_id \<Rightarrow> artifact_id \<Rightarrow> corpus \<Rightarrow> exn + bool" where
  "reads_any [] reader type_id c = Inr False"
| "reads_any (number # rest) reader type_id c = (case c_type_version c (Version (Kind (iri_of reader)) number) of
     None \<Rightarrow> Inl (KeyError (versioned (iri_of reader) number))
   | Some made \<Rightarrow> if type_id \<in> set (comp_referred (content_schema (tv_content made))) then Inr True
                 else reads_any rest reader type_id c)"

definition comp_reads :: "artifact_id \<Rightarrow> artifact_id \<Rightarrow> corpus \<Rightarrow> exn + bool" where
  "comp_reads reader type_id c = reads_any (c_versions c reader) reader type_id c"

fun readers_among :: "artifact_id list \<Rightarrow> artifact_id \<Rightarrow> corpus \<Rightarrow> exn + artifact_id list" where
  "readers_among [] type_id c = Inr []"
| "readers_among (each # rest) type_id c =
     rbind (if each \<noteq> type_id then comp_reads each type_id c else Inr False) (\<lambda>reads.
     rbind (readers_among rest type_id c) (\<lambda>found. Inr (if reads then each # found else found)))"

definition readers :: "artifact_id \<Rightarrow> corpus \<Rightarrow> exn + artifact_id list" where
  "readers type_id c = readers_among (c_ids c (Some TYPE_KIND)) type_id c"

section \<open>Lemmas\<close>

declare composition.simps [simp del]

lemma composition_0 [simp]: "composition 0 s c = Inl RecursionError"
  by (simp add: composition.simps)

subsection \<open>Calls nested no deeper than they need\<close>

lemma rall_cong_except:
  "rall (map f xs) \<noteq> Inl e \<Longrightarrow> (\<And>x. x \<in> set xs \<Longrightarrow> f x \<noteq> Inl e \<Longrightarrow> g x = f x) \<Longrightarrow> rall (map g xs) = rall (map f xs)"
proof (induction xs)
  case (Cons x xs)
  have "f x \<noteq> Inl e" using Cons.prems(1) by auto
  then have x: "g x = f x" using Cons.prems(2) by simp
  show ?case
  proof (cases "f x")
    case (Inr a)
    with Cons.prems(1) have "rall (map f xs) \<noteq> Inl e" by auto
    with Cons.IH Cons.prems(2) have "rall (map g xs) = rall (map f xs)" by simp
    with x show ?thesis by simp
  qed (use x in simp)
qed simp

lemma composition_Suc: "composition n s c \<noteq> Inl RecursionError \<Longrightarrow> composition (Suc n) s c = composition n s c"
proof (induction n arbitrary: s)
  case (Suc n)
  show ?case
  proof (cases s)
    case (VMap m)
    define members where "members = (case dget m ''allOf'' of None \<Rightarrow> Inr [] | Some v \<Rightarrow> py_iter v)"
    define base where "base k = (case whole_ref m of
                None \<Rightarrow> Inr []
              | Some ref \<Rightarrow> rbind (type_schema ref c) (\<lambda>s. composition k s c))" for k
    have unfold: "composition (Suc k) s c = rbind members (\<lambda>xs. rbind (rall (map (\<lambda>x. composition k x c) xs))
        (\<lambda>built. rbind (base k) (\<lambda>b. Inr (concat built @ b @ [m]))))" for k
      by (simp add: VMap members_def base_def composition.simps)
    show ?thesis
    proof (cases members)
      case (Inr xs)
      have r: "rall (map (\<lambda>x. composition n x c) xs) \<noteq> Inl RecursionError"
        using Suc.prems Inr unfolding unfold by auto
      have same: "rall (map (\<lambda>x. composition (Suc n) x c) xs) = rall (map (\<lambda>x. composition n x c) xs)"
        by (rule rall_cong_except [OF r]) (rule Suc.IH)
      show ?thesis
      proof (cases "rall (map (\<lambda>x. composition n x c) xs)")
        case (Inl e)
        show ?thesis unfolding unfold \<open>members = Inr xs\<close> rbind_simps same Inl by simp
      next
        case (Inr built)
        have "base n \<noteq> Inl RecursionError"
          using Suc.prems unfolding unfold \<open>members = Inr xs\<close> rbind_simps Inr by auto
        then have "base (Suc n) = base n"
          unfolding base_def
          by (cases "whole_ref m"; cases "type_schema (the (whole_ref m)) c") (auto simp: Suc.IH)
        then show ?thesis unfolding unfold \<open>members = Inr xs\<close> rbind_simps same Inr by simp
      qed
    qed (simp only: unfold rbind_simps)
  qed (simp_all add: composition.simps)
qed simp

lemma composition_fuel:
  "composition n s c \<noteq> Inl RecursionError \<Longrightarrow> n \<le> k \<Longrightarrow> composition k s c = composition n s c"
proof (induction k)
  case (Suc k)
  then show ?case by (cases "n = Suc k") (simp_all add: composition_Suc)
qed simp

lemma composition_more:
  "composition n s c \<noteq> Inl RecursionError \<Longrightarrow> n \<le> k \<Longrightarrow> composition k s c \<noteq> Inl RecursionError"
  by (metis composition_fuel)

text \<open>The types a schema names as its base, at its top and at the top of its \<open>allOf\<close> members.\<close>

fun top_refs :: "val \<Rightarrow> string list" where
  "top_refs (VMap m) =
     (case dget m ''allOf'' of Some (VList xs) \<Rightarrow> concat (map top_refs xs) | _ \<Rightarrow> []) @
     (case whole_ref m of Some ref \<Rightarrow> [ref] | None \<Rightarrow> [])"
| "top_refs _ = []"

lemma composition_scalar: "\<not> is_map v \<Longrightarrow> composition (Suc n) v c \<noteq> Inl RecursionError"
  by (cases v) (auto simp: is_map_def composition.simps)

lemma rall_not: "(\<And>x. x \<in> set xs \<Longrightarrow> f x \<noteq> Inl e) \<Longrightarrow> rall (map f xs) \<noteq> Inl e"
  by (induction xs) (auto simp: results)

lemma composition_all:
  assumes "\<And>x. x \<in> set xs \<Longrightarrow> \<exists>n. composition n x c \<noteq> Inl RecursionError"
  shows "\<exists>n. \<forall>k \<ge> n. \<forall>x \<in> set xs. composition k x c \<noteq> Inl RecursionError"
  using assms
proof (induction xs)
  case (Cons x xs)
  have "\<exists>n. \<forall>k \<ge> n. \<forall>x \<in> set xs. composition k x c \<noteq> Inl RecursionError"
    by (rule Cons.IH) (use Cons.prems in simp)
  moreover have "\<exists>m. composition m x c \<noteq> Inl RecursionError" using Cons.prems by simp
  ultimately obtain n m where "\<forall>k \<ge> n. \<forall>x \<in> set xs. composition k x c \<noteq> Inl RecursionError"
    "composition m x c \<noteq> Inl RecursionError" by blast
  then have "\<forall>k \<ge> max n m. \<forall>y \<in> set (x # xs). composition k y c \<noteq> Inl RecursionError"
    using composition_more [of m x c] by auto
  then show ?case by blast
qed simp

lemma composition_level:
  "(\<And>ref s. ref \<in> set (top_refs schema) \<Longrightarrow> type_schema ref c = Inr s \<Longrightarrow>
      \<exists>n. composition n s c \<noteq> Inl RecursionError) \<Longrightarrow>
   \<exists>n. composition n schema c \<noteq> Inl RecursionError"
proof (induction schema rule: top_refs.induct)
  case (1 m)
  define members where "members = (case dget m ''allOf'' of None \<Rightarrow> Inr [] | Some v \<Rightarrow> py_iter v)"
  have each: "\<exists>n. composition n x c \<noteq> Inl RecursionError" if "members = Inr xs" "x \<in> set xs" for xs x
  proof (cases "is_map x")
    case False
    then show ?thesis using composition_scalar by blast
  next
    case True
    with that have l: "dget m ''allOf'' = Some (VList xs)"
      by (auto simp: members_def py_iter_def is_map_def split: option.splits val.splits)
    show ?thesis
      by (rule 1(1) [OF l refl that(2)], rule 1(2)) (use l that(2) in auto)
  qed
  have base: "\<exists>n. (case whole_ref m of None \<Rightarrow> True
      | Some ref \<Rightarrow> (\<forall>s. type_schema ref c = Inr s \<longrightarrow> (\<forall>k \<ge> n. composition k s c \<noteq> Inl RecursionError)))"
  proof (cases "whole_ref m")
    case (Some ref)
    then have "ref \<in> set (top_refs (VMap m))" by simp
    with 1(2) Some show ?thesis
      by (cases "type_schema ref c") (auto, metis composition_fuel)
  qed simp
  from base obtain b where b: "case whole_ref m of None \<Rightarrow> True
      | Some ref \<Rightarrow> (\<forall>s. type_schema ref c = Inr s \<longrightarrow> (\<forall>k \<ge> b. composition k s c \<noteq> Inl RecursionError))" by blast
  have "\<exists>n. \<forall>xs. members = Inr xs \<longrightarrow> (\<forall>k \<ge> n. \<forall>x \<in> set xs. composition k x c \<noteq> Inl RecursionError)"
  proof (cases members)
    case (Inr xs)
    with composition_all [of xs c] each show ?thesis by auto
  qed simp
  then obtain n where n: "\<forall>xs. members = Inr xs \<longrightarrow> (\<forall>k \<ge> n. \<forall>x \<in> set xs. composition k x c \<noteq> Inl RecursionError)"
    by blast
  have "members \<noteq> Inl RecursionError"
    by (auto simp: members_def py_iter_def split: option.splits val.splits)
  moreover have "type_schema ref c \<noteq> Inl RecursionError" for ref
    by (auto simp: type_schema_def kept_def typed_at_def corpus_artifact_def settled_typed_def settled_kind_def
        type_version_of_def results split: option.splits val.splits if_splits)
  ultimately have "composition (Suc (max n b)) (VMap m) c \<noteq> Inl RecursionError"
    using n b rall_not [of _ "\<lambda>x. composition (max n b) x c" RecursionError]
    by (auto simp: members_def [symmetric] composition.simps results split: option.splits)
  then show ?case by blast
qed (auto intro!: exI [of _ 1] simp: composition.simps)

text \<open>A type version that names another as its base.\<close>

definition base_of :: "corpus \<Rightarrow> (string \<times> string) set" where
  "base_of c = {(base, ref). \<exists>s. type_schema ref c = Inr s \<and> base \<in> set (top_refs s)}"

lemma composition_wf:
  assumes "wf (base_of c)"
  shows "\<exists>n. composition n schema c \<noteq> Inl RecursionError"
proof -
  have each: "\<forall>s. type_schema ref c = Inr s \<longrightarrow> (\<exists>n. composition n s c \<noteq> Inl RecursionError)" for ref
    using assms
  proof (induction ref rule: wf_induct_rule)
    case (less ref)
    show ?case
    proof (intro allI impI)
      fix s assume s: "type_schema ref c = Inr s"
      show "\<exists>n. composition n s c \<noteq> Inl RecursionError"
      proof (rule composition_level)
        fix base t assume "base \<in> set (top_refs s)" and t: "type_schema base c = Inr t"
        with s have "(base, ref) \<in> base_of c" unfolding base_of_def by blast
        from less [OF this, rule_format, OF t] show "\<exists>n. composition n t c \<noteq> Inl RecursionError" .
      qed
    qed
  qed
  show ?thesis by (rule composition_level) (rule each [rule_format])
qed

subsection \<open>What a type declares is its own, or its nearest base's\<close>

text \<open>What one schema of a composition says a keyword's name is.\<close>

definition says :: "string \<Rightarrow> obj \<Rightarrow> key \<Rightarrow> val option" where
  "says keyword part k = map_of (rev (as_map (dget part keyword))) k"

lemma updated_says:
  "updated whole (dget part keyword) = Inr w \<Longrightarrow>
   map_of w k = (case says keyword part k of Some v \<Rightarrow> Some v | None \<Rightarrow> map_of whole k)"
  by (auto simp: updated_def says_def as_map_def map_of_dict_over split: option.splits val.splits if_splits)

lemma declared_by_parts:
  "declared_by part whole = Inr d \<Longrightarrow>
   updated (d_properties whole) (dget part ''properties'') = Inr (d_properties d) \<and>
   updated (d_parts whole) (dget part ''parts'') = Inr (d_parts d)"
  by (auto simp: declared_by_def results)

lemma last_said:
  "(\<exists>pre p post. p0 # built = pre @ p # post \<and> f p = Some v \<and> (\<forall>q \<in> set post. f q = None)) \<longleftrightarrow>
   (\<exists>pre p post. built = pre @ p # post \<and> f p = Some v \<and> (\<forall>q \<in> set post. f q = None)) \<or>
   (f p0 = Some v \<and> (\<forall>q \<in> set built. f q = None))"
  (is "?l \<longleftrightarrow> ?r \<or> ?z")
proof
  assume ?l
  then obtain pre p post where "p0 # built = pre @ p # post" "f p = Some v" "\<forall>q \<in> set post. f q = None" by blast
  then show "?r \<or> ?z" by (cases pre) auto
next
  assume "?r \<or> ?z"
  then show ?l
  proof
    assume ?r
    then obtain pre p post where "built = pre @ p # post" "f p = Some v" "\<forall>q \<in> set post. f q = None" by blast
    then show ?l by (intro exI [of _ "p0 # pre"] exI [of _ p] exI [of _ post]) simp
  next
    assume ?z
    then show ?l by (intro exI [of _ "[]"] exI [of _ p0] exI [of _ built]) simp
  qed
qed

lemma declared_all_says:
  assumes "keyword = ''properties'' \<and> sel = d_properties \<or> keyword = ''parts'' \<and> sel = d_parts"
  shows "declared_all built whole = Inr d \<Longrightarrow> map_of (sel d) k = Some v \<longleftrightarrow>
    (\<exists>pre p post. built = pre @ p # post \<and> says keyword p k = Some v \<and> (\<forall>q \<in> set post. says keyword q k = None))
    \<or> (map_of (sel whole) k = Some v \<and> (\<forall>q \<in> set built. says keyword q k = None))"
proof (induction built arbitrary: whole)
  case (Cons part built)
  from Cons.prems obtain w where w: "declared_by part whole = Inr w" "declared_all built w = Inr d"
    by (auto simp: results)
  from declared_by_parts [OF w(1)] assms
  have "updated (sel whole) (dget part keyword) = Inr (sel w)" by auto
  from updated_says [OF this, of k]
  have s: "map_of (sel w) k = (case says keyword part k of Some v \<Rightarrow> Some v | None \<Rightarrow> map_of (sel whole) k)" .
  show ?case
    unfolding Cons.IH [OF w(2)] last_said [of part built "\<lambda>p. says keyword p k" v] s
    by (auto split: option.splits)
qed simp

lemma composition_last: "composition n schema c = Inr built \<Longrightarrow> \<exists>m. schema = VMap m \<and> built \<noteq> [] \<and> last built = m"
  by (cases n; cases schema) (auto simp: composition.simps results)

subsection \<open>The nearest held type\<close>

lemma first_typed_Some:
  "first_typed ids c = Inr (Some t) \<longleftrightarrow>
     (\<exists>pre post. ids = pre @ t # post \<and> typed_at t c = Inr True \<and> (\<forall>b \<in> set pre. typed_at b c = Inr False))"
proof (induction ids)
  case (Cons a ids)
  show ?case
  proof
    assume "first_typed (a # ids) c = Inr (Some t)"
    then consider "typed_at a c = Inr True" "a = t" | "typed_at a c = Inr False" "first_typed ids c = Inr (Some t)"
      by (auto simp: results split: if_splits)
    then show "\<exists>pre post. a # ids = pre @ t # post \<and> typed_at t c = Inr True \<and> (\<forall>b \<in> set pre. typed_at b c = Inr False)"
    proof cases
      case 1
      then show ?thesis by (intro exI [of _ "[]"] exI [of _ ids]) simp
    next
      case 2
      with Cons.IH obtain pre post where "ids = pre @ t # post" "typed_at t c = Inr True"
        "\<forall>b \<in> set pre. typed_at b c = Inr False" by blast
      with 2 show ?thesis by (intro exI [of _ "a # pre"] exI [of _ post]) simp
    qed
  next
    assume "\<exists>pre post. a # ids = pre @ t # post \<and> typed_at t c = Inr True \<and> (\<forall>b \<in> set pre. typed_at b c = Inr False)"
    then obtain pre post where p: "a # ids = pre @ t # post" "typed_at t c = Inr True"
      "\<forall>b \<in> set pre. typed_at b c = Inr False" by blast
    then show "first_typed (a # ids) c = Inr (Some t)"
    proof (cases pre)
      case (Cons b pre')
      with p have "first_typed ids c = Inr (Some t)" unfolding Cons.IH by auto
      with p Cons show ?thesis by simp
    qed auto
  qed
qed simp

lemma first_typed_None: "first_typed ids c = Inr None \<longleftrightarrow> (\<forall>b \<in> set ids. typed_at b c = Inr False)"
  by (induction ids) (auto simp: results split: if_splits)

lemma first_was_typed:
  assumes "\<And>b. b \<noteq> t \<Longrightarrow> typed_at b c' = typed_at b c" "typed_at t c' = Inr True" "first_was ids t c = Inr was"
  shows "was \<longleftrightarrow> first_typed ids c' = Inr (Some t)"
  using assms(3)
proof (induction ids)
  case (Cons a ids)
  show ?case
  proof (cases "a = t")
    case False
    with Cons.prems obtain typed where typed: "typed_at a c = Inr typed" "typed_at a c' = Inr typed"
      and r: "(if typed then Inr False else first_was ids t c) = Inr was"
      using assms(1) [OF False] by (auto simp: results)
    show ?thesis
    proof (cases typed)
      case True
      with typed r False show ?thesis by simp
    next
      case unheld: False
      with r have "first_was ids t c = Inr was" by simp
      from Cons.IH [OF this] typed unheld show ?thesis by simp
    qed
  qed (use Cons.prems assms(2) in auto)
qed simp

subsection \<open>Every type a schema is read through\<close>

definition read_at :: "reference \<Rightarrow> artifact_id \<times> int" where
  "read_at r = (the (ref_type r), ref_number r)"

definition kept_at :: "corpus \<Rightarrow> artifact_id \<times> int \<Rightarrow> type_version option" where
  "kept_at c at = (case kept (fst at) (snd at) c of Inr v \<Rightarrow> v | Inl _ \<Rightarrow> None)"

definition made_references :: "type_version \<Rightarrow> reference list" where
  "made_references made = references (content_schema (tv_content made))"

text \<open>The versions of types a schema names, and those the versions kept of them name in turn.\<close>

inductive named_from :: "corpus \<Rightarrow> reference list \<Rightarrow> artifact_id \<times> int \<Rightarrow> bool" for c refs where
  here: "r \<in> set refs \<Longrightarrow> named_from c refs (read_at r)"
| there: "named_from c refs at \<Longrightarrow> kept_at c at = Some made \<Longrightarrow> r \<in> set (made_references made) \<Longrightarrow>
    named_from c refs (read_at r)"

lemma named_from_mono: "named_from c refs at \<Longrightarrow> set refs \<subseteq> set refs' \<Longrightarrow> named_from c refs' at"
  by (induction rule: named_from.induct) (auto intro: named_from.intros)

lemma named_from_inside:
  assumes "kept_at c (read_at r) = Some made" "r \<in> set refs"
  shows "named_from c (made_references made) at \<Longrightarrow> named_from c refs at"
  by (induction rule: named_from.induct) (use assms in \<open>auto intro: named_from.intros\<close>)

definition follows :: "corpus \<Rightarrow> reference list \<Rightarrow> following \<Rightarrow> following \<Rightarrow> bool" where
  "follows c refs before after \<longleftrightarrow>
     set (snd before) \<subseteq> set (snd after) \<and> read_at ` set refs \<subseteq> set (snd after) \<and>
     (\<forall>at made. at \<in> set (snd after) - set (snd before) \<longrightarrow> kept_at c at = Some made \<longrightarrow>
        read_at ` set (made_references made) \<subseteq> set (snd after)) \<and>
     (\<forall>at \<in> set (snd after) - set (snd before). named_from c refs at) \<and>
     set (fst after) = set (fst before) \<union>
       fst ` {at \<in> set (snd after) - set (snd before). kept_at c at \<noteq> None} \<and>
     (distinct (fst before) \<longrightarrow> distinct (fst after)) \<and> (\<exists>more. fst after = fst before @ more)"

lemma followsD:
  assumes "follows c refs before after"
  shows follows_sub: "set (snd before) \<subseteq> set (snd after)"
    and follows_refs: "read_at ` set refs \<subseteq> set (snd after)"
    and follows_closed: "at \<in> set (snd after) \<Longrightarrow> at \<notin> set (snd before) \<Longrightarrow> kept_at c at = Some m \<Longrightarrow>
        read_at ` set (made_references m) \<subseteq> set (snd after)"
    and follows_named: "at \<in> set (snd after) \<Longrightarrow> at \<notin> set (snd before) \<Longrightarrow> named_from c refs at"
    and follows_found: "set (fst after) = set (fst before) \<union>
       fst ` {at \<in> set (snd after) - set (snd before). kept_at c at \<noteq> None}"
    and follows_distinct: "distinct (fst before) \<Longrightarrow> distinct (fst after)"
    and follows_more: "\<exists>more. fst after = fst before @ more"
proof -
  have h: "\<forall>at made. at \<in> set (snd after) - set (snd before) \<longrightarrow> kept_at c at = Some made \<longrightarrow>
        read_at ` set (made_references made) \<subseteq> set (snd after)"
    and n: "\<forall>at \<in> set (snd after) - set (snd before). named_from c refs at"
    and d: "distinct (fst before) \<longrightarrow> distinct (fst after)"
    by (insert assms, unfold follows_def, blast+)
  show "set (snd before) \<subseteq> set (snd after)" "read_at ` set refs \<subseteq> set (snd after)"
    "set (fst after) = set (fst before) \<union> fst ` {at \<in> set (snd after) - set (snd before). kept_at c at \<noteq> None}"
    "\<exists>more. fst after = fst before @ more"
    by (insert assms, unfold follows_def, elim conjE, assumption)+
  show "distinct (fst before) \<Longrightarrow> distinct (fst after)" using d by simp
  show "at \<in> set (snd after) \<Longrightarrow> at \<notin> set (snd before) \<Longrightarrow> named_from c refs at" using n by simp
  show "at \<in> set (snd after) \<Longrightarrow> at \<notin> set (snd before) \<Longrightarrow> kept_at c at = Some m \<Longrightarrow>
        read_at ` set (made_references m) \<subseteq> set (snd after)" using h by blast
qed

lemma followsI:
  assumes "set followed \<subseteq> set (snd after)" "read_at ` set refs \<subseteq> set (snd after)"
    and "\<And>at m. at \<in> set (snd after) \<Longrightarrow> at \<notin> set followed \<Longrightarrow> kept_at c at = Some m \<Longrightarrow>
        read_at ` set (made_references m) \<subseteq> set (snd after)"
    and "\<And>at. at \<in> set (snd after) \<Longrightarrow> at \<notin> set followed \<Longrightarrow> named_from c refs at"
    and "set (fst after) = set found \<union> fst ` {at \<in> set (snd after) - set followed. kept_at c at \<noteq> None}"
    and "distinct found \<Longrightarrow> distinct (fst after)" "\<exists>more. fst after = found @ more"
  shows "follows c refs (found, followed) after"
  unfolding follows_def fst_conv snd_conv
  by (intro conjI allI ballI impI assms(1,2,5,7)) (use assms(3,4,6) in blast)+

lemma follows_node:
  assumes i: "follows c (made_references made) (found', read_at named # followed) inner"
    and found': "found' = (if fst (read_at named) \<in> set found then found else found @ [fst (read_at named)])"
    and r: "follows c rest inner after" and new: "read_at named \<notin> set followed"
    and made: "kept_at c (read_at named) = Some made"
  shows "follows c (named # rest) (found, followed) after"
proof -
  let ?at = "read_at named"
  note sub = follows_sub [OF i, simplified] follows_sub [OF r]
  have inside: "named_from c (named # rest) at" if "named_from c (made_references made) at" for at
    using named_from_inside [OF made, of "named # rest"] that by simp
  have parts: "at = ?at \<or> at \<in> set (snd inner) \<and> at \<notin> set (?at # followed)
      \<or> at \<in> set (snd after) \<and> at \<notin> set (snd inner)"
    if "at \<in> set (snd after)" "at \<notin> set followed" for at using that by auto
  have named: "named_from c (named # rest) at" if "at \<in> set (snd after)" "at \<notin> set followed" for at
    using parts [OF that]
  proof (elim disjE conjE)
    assume "at = ?at"
    then show ?thesis using named_from.here [of named "named # rest" c] by simp
  next
    assume "at \<in> set (snd inner)" "at \<notin> set (?at # followed)"
    then show ?thesis using follows_named [OF i, of at] by (intro inside) simp
  next
    assume "at \<in> set (snd after)" "at \<notin> set (snd inner)"
    from named_from_mono [OF follows_named [OF r this], of "named # rest"] show ?thesis by auto
  qed
  have closed: "read_at ` set (made_references m) \<subseteq> set (snd after)"
    if "at \<in> set (snd after)" "at \<notin> set followed" "kept_at c at = Some m" for at m
    using parts [OF that(1,2)]
  proof (elim disjE conjE)
    assume "at = ?at"
    with that(3) made have "m = made" by simp
    with follows_refs [OF i] sub show ?thesis by blast
  next
    assume "at \<in> set (snd inner)" "at \<notin> set (?at # followed)"
    with follows_closed [OF i, of at m] that(3) sub show ?thesis by auto
  next
    assume "at \<in> set (snd after)" "at \<notin> set (snd inner)"
    with follows_closed [OF r, of at m] that(3) show ?thesis by auto
  qed
  have "{at \<in> set (snd after) - set followed. kept_at c at \<noteq> None} =
      {?at} \<union> {at \<in> set (snd inner) - set (?at # followed). kept_at c at \<noteq> None} \<union>
      {at \<in> set (snd after) - set (snd inner). kept_at c at \<noteq> None}"
    using sub new made by auto
  then have founds: "set (fst after) = set found \<union> fst ` {at \<in> set (snd after) - set followed. kept_at c at \<noteq> None}"
    using follows_found [OF i] follows_found [OF r] found' by (simp only: image_Un fst_conv snd_conv) auto
  have "\<exists>more. fst after = found @ more"
    using follows_more [OF i] follows_more [OF r] found' by (auto split: if_splits)
  moreover have "distinct found \<Longrightarrow> distinct (fst after)"
    using follows_distinct [OF r follows_distinct [OF i]] found' by auto
  moreover have "read_at ` set (named # rest) \<subseteq> set (snd after)" using follows_refs [OF r] sub by auto
  moreover have "set followed \<subseteq> set (snd after)" using sub by blast
  ultimately show ?thesis by (intro followsI named closed founds)
qed

lemma follows_passed:
  assumes r: "follows c rest (found, read_at named # followed) after"
    and none: "read_at named \<in> set followed \<or> kept_at c (read_at named) = None"
  shows "follows c (named # rest) (found, followed) after"
proof -
  let ?at = "read_at named"
  note sub = follows_sub [OF r, simplified]
  have named: "named_from c (named # rest) at" if "at \<in> set (snd after)" "at \<notin> set followed" for at
  proof (cases "at = ?at")
    case True
    then show ?thesis using named_from.here [of named "named # rest" c] by simp
  next
    case False
    with that have "named_from c rest at" using follows_named [OF r, of at] by simp
    then show ?thesis by (rule named_from_mono) auto
  qed
  have closed: "read_at ` set (made_references m) \<subseteq> set (snd after)"
    if "at \<in> set (snd after)" "at \<notin> set followed" "kept_at c at = Some m" for at m
    using that none follows_closed [OF r, of at m] by (cases "at = read_at named") simp_all
  have "{at \<in> set (snd after) - set followed. kept_at c at \<noteq> None}
      = {at \<in> set (snd after) - set (?at # followed). kept_at c at \<noteq> None}"
    using none by auto
  then have "set (fst after) = set found \<union> fst ` {at \<in> set (snd after) - set followed. kept_at c at \<noteq> None}"
    using follows_found [OF r] by simp
  moreover have "read_at ` set (named # rest) \<subseteq> set (snd after)" using follows_refs [OF r] sub by auto
  moreover have "set followed \<subseteq> set (snd after)" using sub by blast
  moreover have "distinct found \<Longrightarrow> distinct (fst after)" using follows_distinct [OF r] by simp
  moreover have "\<exists>more. fst after = found @ more" using follows_more [OF r] by simp
  ultimately show ?thesis by (intro followsI named closed)
qed

lemma visit_follows: "visit n c refs state = Inr after \<Longrightarrow> follows c refs state after"
proof (induction n c refs state arbitrary: after rule: visit.induct)
  case (1 n c state)
  then show ?case by (auto simp: follows_def)
next
  case (2 n c named rest found followed)
  let ?a = "the (ref_type named)" and ?k = "ref_number named"
  have at: "read_at named = (?a, ?k)" by (simp add: read_at_def)
  from 2(4) obtain v where v: "(if (?a, ?k) \<in> set followed then Inr None else kept ?a ?k c) = Inr v"
    by (auto simp: Let_def results)
  show ?case
  proof (cases v)
    case None
    with v 2(4) have r: "visit n c rest (found, (?a, ?k) # followed) = Inr after" by (simp add: Let_def)
    have none: "read_at named \<in> set followed \<or> kept_at c (read_at named) = None"
      using v None by (auto simp: kept_at_def at split: if_splits)
    have "follows c rest (found, read_at named # followed) after"
        unfolding at by (rule 2(1) [OF refl refl v None r])
    then show ?thesis using none by (rule follows_passed)
  next
    case (Some made)
    from v Some have new: "read_at named \<notin> set followed" and made: "kept_at c (read_at named) = Some made"
      by (auto simp: at kept_at_def split: if_splits)
    let ?found = "if ?a \<in> set found then found else found @ [?a]"
    from 2(4) have "(case n of 0 \<Rightarrow> Inl RecursionError
           | Suc k \<Rightarrow> rbind (visit k c (references (content_schema (tv_content made))) (?found, (?a, ?k) # followed))
                        (visit n c rest)) = Inr after"
      by (simp only: visit.simps Let_def v rbind_simps Some option.case)
    then obtain m inner where n: "n = Suc m"
      and i: "visit m c (references (content_schema (tv_content made))) (?found, (?a, ?k) # followed) = Inr inner"
      and r: "visit n c rest inner = Inr after"
      unfolding rbind_Inr_iff by (cases n) (simp, simp only: nat.case rbind_Inr_iff, blast)
    have fi: "follows c (made_references made) (?found, read_at named # followed) inner"
      unfolding at made_references_def by (rule 2(2) [OF refl refl v Some n i])
    have fr: "follows c rest inner after" by (rule 2(3) [OF refl refl v Some n i r])
    have "?found = (if fst (read_at named) \<in> set found then found else found @ [fst (read_at named)])"
      by (simp add: at)
    from follows_node [OF fi this fr new made] show ?thesis .
  qed
qed

lemma visit_deep:
  "(\<And>at. kept_at c at \<noteq> None \<Longrightarrow> at \<in> S) \<Longrightarrow> finite S \<Longrightarrow> card (S - set (snd state)) \<le> n \<Longrightarrow>
   (\<And>a k. kept a k c \<noteq> Inl RecursionError) \<Longrightarrow> visit n c refs state \<noteq> Inl RecursionError"
proof (induction n c refs state rule: visit.induct)
  case (2 n c named rest found followed)
  let ?a = "the (ref_type named)" and ?k = "ref_number named"
  let ?look = "if (?a, ?k) \<in> set followed then Inr None else kept ?a ?k c"
  show ?case
  proof (cases ?look)
    case (Inl e)
    then have "e \<noteq> RecursionError" using 2(7) [of ?a ?k] by (auto split: if_splits)
    with Inl show ?thesis by (simp only: visit.simps Let_def rbind_simps) simp
  next
    case (Inr v)
    show ?thesis
    proof (cases v)
      case None
      have "card (S - set ((?a, ?k) # followed)) \<le> card (S - set followed)"
        using 2(5) by (intro card_mono) auto
      then have "visit n c rest (found, (?a, ?k) # followed) \<noteq> Inl RecursionError"
        using 2(6) by (intro 2(1) [OF refl refl Inr None 2(4) 2(5) _ 2(7)]) auto
      with Inr None show ?thesis by (simp only: visit.simps Let_def rbind_simps option.case) simp
    next
      case (Some made)
      with Inr have new: "(?a, ?k) \<notin> set followed" and k: "kept_at c (?a, ?k) = Some made"
        by (auto simp: kept_at_def split: if_splits)
      have inS: "(?a, ?k) \<in> S" using 2(4) k by simp
      have less: "card (S - set ((?a, ?k) # followed)) < card (S - set followed)"
        using 2(5) inS new by (intro psubset_card_mono) auto
      with 2(6) obtain m where n: "n = Suc m" by (cases n) auto
      let ?found = "if ?a \<in> set found then found else found @ [?a]"
      let ?inner = "visit m c (references (content_schema (tv_content made))) (?found, (?a, ?k) # followed)"
      have inner: "?inner \<noteq> Inl RecursionError"
        using less 2(6) n by (intro 2(2) [OF refl refl Inr Some n 2(4) 2(5) _ 2(7)]) auto
      have after: "visit n c rest st \<noteq> Inl RecursionError" if i: "?inner = Inr st" for st
      proof -
        have "set followed \<subseteq> set (snd st)" using follows_sub [OF visit_follows [OF i]] by simp
        then have "card (S - set (snd st)) \<le> card (S - set followed)" using 2(5) by (intro card_mono) auto
        with 2(6) show ?thesis by (intro 2(3) [OF refl refl Inr Some n i 2(4) 2(5) _ 2(7)]) auto
      qed
      have unfolded: "visit n c (named # rest) (found, followed) = rbind ?inner (visit n c rest)"
        by (simp only: visit.simps Let_def Inr rbind_simps Some option.case n nat.case)
      show ?thesis unfolding unfolded using inner after by (cases ?inner) auto
    qed
  qed
qed simp

section \<open>The module's contract\<close>

text \<open>
  C25: when no version of a type is built on itself through the versions it names as its base, the composition of
  every schema returns, whatever the depth its bases nest to: one bound on nested calls is enough, and any
  greater gives the same.
\<close>

theorem composition_returns:
  assumes "wf (base_of c)"
  shows "\<exists>n. \<forall>k \<ge> n. composition k schema c \<noteq> Inl RecursionError \<and> composition k schema c = composition n schema c"
proof -
  obtain n where "composition n schema c \<noteq> Inl RecursionError" using composition_wf [OF assms] by blast
  then have "composition k schema c \<noteq> Inl RecursionError \<and> composition k schema c = composition n schema c"
    if "n \<le> k" for k
    using composition_more [OF _ that] composition_fuel [OF _ that] by blast
  then show ?thesis by blast
qed

text \<open>A corpus that holds nothing.\<close>

definition empty_corpus :: corpus where
  "empty_corpus = \<lparr>c_holds = \<lambda>_. False, c_artifact = \<lambda>_. None, c_type_version = \<lambda>_. None, c_versions = \<lambda>_. [],
     c_ids = \<lambda>_. []\<rparr>"

theorem composition_returns_witness:
  "\<exists>n. \<forall>k \<ge> n. composition k (VMap [(KText ''$ref'', VStr ''kb:https://a.io/t@1'')]) empty_corpus \<noteq> Inl RecursionError \<and>
     composition k (VMap [(KText ''$ref'', VStr ''kb:https://a.io/t@1'')]) empty_corpus =
     composition n (VMap [(KText ''$ref'', VStr ''kb:https://a.io/t@1'')]) empty_corpus"
proof (rule composition_returns)
  have "type_schema ref empty_corpus = Inr s \<Longrightarrow> False" for ref s
    by (auto simp: type_schema_def kept_def typed_at_def empty_corpus_def split: option.splits)
  then have "base_of empty_corpus = {}" by (auto simp: base_of_def)
  then show "wf (base_of empty_corpus)" by simp
qed

text \<open>
  a type's schema stands last in its own composition, and a field or a collection it declares is as the last
  schema of the composition that names it says: its own, or its nearest base's.
\<close>

theorem declared_own_first:
  assumes "composition n schema c = Inr built" "declared n schema c = Inr d"
  shows "schema = VMap (last built) \<and>
    (map_of (d_properties d) k = Some v \<longleftrightarrow> (\<exists>pre p post. built = pre @ p # post \<and>
       says ''properties'' p k = Some v \<and> \<not> (\<exists>q \<in> set post. says ''properties'' q k \<noteq> None))) \<and>
    (map_of (d_parts d) k = Some v \<longleftrightarrow> (\<exists>pre p post. built = pre @ p # post \<and>
       says ''parts'' p k = Some v \<and> \<not> (\<exists>q \<in> set post. says ''parts'' q k \<noteq> None)))"
proof -
  from assms have d: "declared_all built \<lparr>d_properties = [], d_parts = [], d_summary = []\<rparr> = Inr d"
    by (simp add: declared_def)
  have "schema = VMap (last built)" using composition_last [OF assms(1)] by auto
  moreover have "map_of (d_properties d) k = Some v \<longleftrightarrow> (\<exists>pre p post. built = pre @ p # post \<and>
       says ''properties'' p k = Some v \<and> \<not> (\<exists>q \<in> set post. says ''properties'' q k \<noteq> None))"
    using declared_all_says [OF _ d, of "''properties''" d_properties k v] by simp
  moreover have "map_of (d_parts d) k = Some v \<longleftrightarrow> (\<exists>pre p post. built = pre @ p # post \<and>
       says ''parts'' p k = Some v \<and> \<not> (\<exists>q \<in> set post. says ''parts'' q k \<noteq> None))"
    using declared_all_says [OF _ d, of "''parts''" d_parts k v] by simp
  ultimately show ?thesis by blast
qed

theorem declared_own_first_witness:
  "map_of (d_properties \<lparr>d_properties = [(KText ''a'', VInt 2)], d_parts = [], d_summary = []\<rparr>) (KText ''a'') = Some (VInt 2)
   \<and> declared 2 (VMap [(KText ''allOf'', VList [VMap [(KText ''properties'', VMap [(KText ''a'', VInt 1)])]]),
       (KText ''properties'', VMap [(KText ''a'', VInt 2)])]) empty_corpus
     = Inr \<lparr>d_properties = [(KText ''a'', VInt 2)], d_parts = [], d_summary = []\<rparr>"
proof -
  let ?base = "[(KText ''properties'', VMap [(KText ''a'', VInt 1)])]"
  let ?s = "[(KText ''allOf'', VList [VMap ?base]), (KText ''properties'', VMap [(KText ''a'', VInt 2)])]"
  have b: "composition 2 (VMap ?s) empty_corpus = Inr [?base, ?s]" by code_simp
  have d: "declared 2 (VMap ?s) empty_corpus = Inr \<lparr>d_properties = [(KText ''a'', VInt 2)], d_parts = [], d_summary = []\<rparr>"
    by code_simp
  have "says ''properties'' ?s (KText ''a'') = Some (VInt 2)" by code_simp
  then have "\<exists>pre p post. [?base, ?s] = pre @ p # post \<and> says ''properties'' p (KText ''a'') = Some (VInt 2)
      \<and> \<not> (\<exists>q \<in> set post. says ''properties'' q (KText ''a'') \<noteq> None)"
    by (intro exI [of _ "[?base]"] exI [of _ ?s] exI [of _ "[]"]) simp
  with declared_own_first [OF b d, of "KText ''a''" "VInt 2"] d show ?thesis by blast
qed

text \<open>
  \<open>nearest_type\<close> gives the held type nearest above an IRI: a type is held there, the IRI sits under it, and no type
  is held at any of the IRIs between them.
\<close>

theorem nearest_type_nearest:
  shows "nearest_type a c = Inr (Some t) \<longleftrightarrow> (\<exists>pre post. ids_above a = pre @ t # post \<and> typed_at t c = Inr True \<and>
      (\<nexists>b. b \<in> set pre \<and> typed_at b c \<noteq> Inr False))"
  unfolding nearest_type_def first_typed_Some by blast

text \<open>
  \<open>nearest_was\<close> says, of a type the corpus no longer holds, whether it would be the nearest held type above an IRI
  were it still held.
\<close>

theorem nearest_was_removed:
  assumes "nearest_was a t c = Inr was"
    and "typed_at t c' = Inr True" "\<And>b. b \<noteq> t \<Longrightarrow> typed_at b c' = typed_at b c"
  shows "was \<longleftrightarrow> nearest_type a c' = Inr (Some t)"
  unfolding nearest_type_def by (rule first_was_typed) (use assms in \<open>simp_all add: nearest_was_def\<close>)

text \<open>A corpus that holds one type.\<close>

definition one_type :: "string \<Rightarrow> obj \<Rightarrow> corpus" where
  "one_type at content = empty_corpus \<lparr>c_holds := \<lambda>a. a = ArtifactId at,
     c_artifact := \<lambda>a. if a = ArtifactId at then Some content else None\<rparr>"

theorem nearest_was_removed_witness:
  "nearest_was (ArtifactId ''https://a.io/t/u/x'') (ArtifactId ''https://a.io/t'') empty_corpus = Inr True \<and>
   nearest_type (ArtifactId ''https://a.io/t/u/x'')
     (one_type ''https://a.io/t'' [(KText ''type'', VStr ''https://missingmass.io/kb/type@1'')])
     = Inr (Some (ArtifactId ''https://a.io/t''))"
proof -
  let ?c' = "one_type ''https://a.io/t'' [(KText ''type'', VStr ''https://missingmass.io/kb/type@1'')]"
  have was: "nearest_was (ArtifactId ''https://a.io/t/u/x'') (ArtifactId ''https://a.io/t'') empty_corpus = Inr True"
    by code_simp
  have held: "typed_at (ArtifactId ''https://a.io/t'') ?c' = Inr True" by code_simp
  have other: "typed_at b ?c' = typed_at b empty_corpus" if "b \<noteq> ArtifactId ''https://a.io/t''" for b
    using that by (simp add: typed_at_def one_type_def empty_corpus_def)
  from nearest_was_removed [OF was held other] was show ?thesis by simp
qed

text \<open>
  C26: \<open>read_through\<close> gives the kind's own type first, then, each once, exactly the types a version of which is kept and
  named by the schema, or by a version kept that it reaches by such names.
\<close>

theorem read_through_exact:
  assumes "read_through n k schema c = Inr found"
  shows "hd found = type_of k \<and> distinct found \<and>
    set found = insert (type_of k) {fst at | at. named_from c (references schema) at \<and> kept_at c at \<noteq> None}"
proof -
  from assms obtain followed where v: "visit n c (references schema) ([type_of k], []) = Inr (found, followed)"
    by (auto simp: read_through_def results)
  note f = visit_follows [OF v]
  have "named_from c (references schema) at \<Longrightarrow> at \<in> set followed" for at
  proof (induction rule: named_from.induct)
    case (here r)
    then show ?case using follows_refs [OF f] by auto
  next
    case (there at made r)
    then show ?case using follows_closed [OF f, of at made] by auto
  qed
  then have "set followed = {at. named_from c (references schema) at}" using follows_named [OF f] by auto
  moreover have "fst ` {at. named_from c (references schema) at \<and> kept_at c at \<noteq> None}
      = {fst at | at. named_from c (references schema) at \<and> kept_at c at \<noteq> None}" by blast
  ultimately have s: "set found = insert (type_of k) {fst at | at. named_from c (references schema) at \<and> kept_at c at \<noteq> None}"
    using follows_found [OF f] by simp
  from follows_more [OF f] obtain more where "found = type_of k # more" by auto
  with follows_distinct [OF f] s show ?thesis by simp
qed

theorem read_through_exact_witness:
  "read_through 0 TYPE_KIND (VMap [(KText ''$ref'', VStr ''kb:https://a.io/t@1'')]) empty_corpus = Inr [ArtifactId TYPES]
   \<and> distinct [ArtifactId TYPES]"
proof -
  have r: "read_through 0 TYPE_KIND (VMap [(KText ''$ref'', VStr ''kb:https://a.io/t@1'')]) empty_corpus = Inr [ArtifactId TYPES]"
    by code_simp
  from read_through_exact [OF r] r show ?thesis by blast
qed

text \<open>
  following references always ends: nested no deeper than the corpus keeps versions of types, the walk does not
  run out, even when types refer to each other in a circle.
\<close>

theorem read_through_returns:
  assumes "finite S" "\<And>a m made. kept a m c = Inr (Some made) \<Longrightarrow> (a, m) \<in> S"
    and "\<And>a m. kept a m c \<noteq> Inl RecursionError" "card S \<le> n"
  shows "read_through n k schema c \<noteq> Inl RecursionError"
proof -
  have "visit n c (references schema) ([type_of k], []) \<noteq> Inl RecursionError"
  proof (rule visit_deep [of c S])
    fix at assume "kept_at c at \<noteq> None"
    then show "at \<in> S" using assms(2) [of "fst at" "snd at"] by (auto simp: kept_at_def split: sum.splits)
  qed (use assms in auto)
  then show ?thesis by (auto simp: read_through_def results)
qed

theorem read_through_returns_witness:
  "read_through 0 TYPE_KIND (VMap [(KText ''$ref'', VStr ''kb:https://a.io/t@1'')]) empty_corpus \<noteq> Inl RecursionError"
  by (rule read_through_returns [of "{}"]) (auto simp: kept_def typed_at_def empty_corpus_def)

end
