(* ===== verification/KB_Port_Values.thy ===== *)
theory KB_Port_Values
  imports KB_Composition
begin

text \<open>
  \<open>port_values.py\<close>: the values the storage port takes and gives, each dataclass a record with the fields it
  has, and the two functions that judge links: \<open>told\<close>, what tells each link of one artifact from every other it
  holds, and \<open>held_waiting\<close>. A moment is the number of microseconds since the epoch the database keeps it as.
\<close>

section \<open>The values\<close>

record port_link =
  l_field :: string
  l_place :: string
  l_target :: artifact_id
  l_part :: string
  l_kinds :: "string list"
  l_implicit :: bool
  l_under :: "artifact_id option"
  l_waits :: bool
  l_holder :: "string option"
  l_imported :: bool

definition port_link :: "string \<Rightarrow> string \<Rightarrow> artifact_id \<Rightarrow> string \<Rightarrow> string list \<Rightarrow> string option \<Rightarrow> port_link" where
  "port_link fld at landing part kinds holder =
     \<lparr>l_field = fld, l_place = at, l_target = landing, l_part = part, l_kinds = kinds, l_implicit = False,
      l_under = None, l_waits = False, l_holder = holder, l_imported = False\<rparr>"

record linking =
  ln_source :: artifact_id
  ln_field :: string
  ln_place :: string
  ln_target :: artifact_id
  ln_part :: string
  ln_holder :: "string option"

record made_version =
  vd_version :: version
  vd_title :: string

record change =
  ch_artifact :: artifact_id
  ch_content :: "obj option"
  ch_links :: "port_link list"
  ch_parts :: "string list"
  ch_read :: int
  ch_revision :: int
  ch_through :: "(artifact_id \<times> int) list"
  ch_searched :: "(string \<times> string \<times> string) list"
  ch_kind :: "kind option"
  ch_version :: "made_version option"

definition change_op :: "change \<Rightarrow> string" where
  "change_op ch = (if ch_content ch = None then ''remove'' else if ch_read ch = 0 then ''create'' else ''replace'')"

record entry =
  e_id :: string
  e_at :: int
  e_seq :: int
  e_record :: obj
  e_artifact :: string
  e_role :: string
  e_execution :: string
  e_batch :: string

record candidate_row =
  cd_artifact :: artifact_id
  cd_section :: string
  cd_field :: string

section \<open>What tells a link\<close>

type_synonym telling = "string \<times> string option \<times> artifact_id \<times> string"

text \<open>\<open>told\<close> reads four of a link's values, which a \<open>Link\<close> handed and a \<open>Linking\<close> read back both have.\<close>

definition link_key :: "port_link \<Rightarrow> telling" where
  "link_key l = (l_field l, l_holder l, l_target l, l_part l)"

definition linking_key :: "linking \<Rightarrow> telling" where
  "linking_key l = (ln_field l, ln_holder l, ln_target l, ln_part l)"

fun told_from :: "(telling \<rightharpoonup> nat) \<Rightarrow> telling list \<Rightarrow> (telling \<times> nat) option list" where
  "told_from seen [] = []"
| "told_from seen (key # rest) =
     (let count = (case seen key of None \<Rightarrow> 0 | Some n \<Rightarrow> Suc n)
      in (if fst (snd key) = None then None else Some (key, count)) # told_from (seen(key \<mapsto> count)) rest)"

definition told :: "telling list \<Rightarrow> (telling \<times> nat) option list" where
  "told keys = told_from Map.empty keys"

definition held_waiting :: "linking list \<Rightarrow> (telling \<times> nat) set" where
  "held_waiting links = {t. Some t \<in> set (told (map linking_key links))}"

lemma length_told [simp]: "length (told keys) = length keys"
proof -
  have "length (told_from seen keys) = length keys" for seen
    by (induction keys arbitrary: seen) (auto simp: Let_def)
  then show ?thesis by (simp add: told_def)
qed

lemma held_waiting_set [code_unfold]: "held_waiting links = set (List.map_filter id (told (map linking_key links)))"
  unfolding held_waiting_def List.map_filter_def by force

declare told_from.simps(2) [simp del]

subsection \<open>What a count of equal keys says\<close>

definition next_count :: "(telling \<rightharpoonup> nat) \<Rightarrow> telling \<Rightarrow> nat" where
  "next_count seen key = (case seen key of None \<Rightarrow> 0 | Some n \<Rightarrow> Suc n)"

lemma next_count_upd: "next_count (seen(key \<mapsto> m)) k = (if k = key then Suc m else next_count seen k)"
  by (simp add: next_count_def)

lemma told_from_Cons:
  "told_from seen (key # rest) =
     (if fst (snd key) = None then None else Some (key, next_count seen key))
       # told_from (seen(key \<mapsto> next_count seen key)) rest"
  by (simp add: told_from.simps(2) Let_def next_count_def)

lemma told_from_set:
  "Some (k, n) \<in> set (told_from seen keys) \<longleftrightarrow>
     fst (snd k) \<noteq> None \<and> next_count seen k \<le> n \<and> n < next_count seen k + count_list keys k"
proof (induction keys arbitrary: seen)
  case (Cons key keys)
  show ?case
  proof (cases "k = key")
    case True
    have "Some (key, n) \<in> set (told_from (seen(key \<mapsto> next_count seen key)) keys) \<longleftrightarrow>
      fst (snd key) \<noteq> None \<and> Suc (next_count seen key) \<le> n \<and> n < Suc (next_count seen key) + count_list keys key"
      using Cons [of "seen(key \<mapsto> next_count seen key)"] unfolding True by (simp only: next_count_upd simp_thms if_True)
    then show ?thesis unfolding True told_from_Cons by (auto simp del: fun_upd_apply)
  next
    case False
    then show ?thesis by (auto simp: told_from_Cons Cons next_count_upd simp del: fun_upd_apply)
  qed
qed simp

lemma told_set: "Some (k, n) \<in> set (told keys) \<longleftrightarrow> fst (snd k) \<noteq> None \<and> n < count_list keys k"
  by (simp add: told_def told_from_set next_count_def)

lemma told_from_nth:
  "i < length keys \<Longrightarrow> told_from seen keys ! i =
     (if fst (snd (keys ! i)) = None then None
      else Some (keys ! i, next_count seen (keys ! i) + count_list (take i keys) (keys ! i)))"
proof (induction keys arbitrary: seen i)
  case (Cons key keys)
  then show ?case
    by (cases i) (auto simp: told_from_Cons next_count_upd)
qed simp

lemma told_nth:
  "i < length keys \<Longrightarrow> told keys ! i =
     (if fst (snd (keys ! i)) = None then None else Some (keys ! i, count_list (take i keys) (keys ! i)))"
  by (simp add: told_def told_from_nth next_count_def)

lemma count_take_less:
  assumes "i < j" "j < length xs" "xs ! i = x"
  shows "count_list (take i xs) x < count_list (take j xs) x"
proof -
  have "take j xs = take i xs @ xs ! i # take (j - Suc i) (drop (Suc i) xs)"
    using assms id_take_nth_drop [of i "take j xs"] by (simp add: min_def drop_take)
  then show ?thesis using assms(3) by simp
qed

text \<open>
  two links of one artifact, held by something, are never told the same; and what tells an artifact's links is
  no matter of the order it carries them in: the links a change carries are told exactly as those before it were
  when each stands as often, so one moved in its list is the very same link, and one that stood waiting before
  is found again as long as the artifact carries it as often.
\<close>

theorem told_tells:
  assumes "\<And>k. count_list before k \<le> count_list after k"
    and i: "i < length after" "j < length after" "i \<noteq> j" "told after ! i \<noteq> None"
  shows "told after ! i \<noteq> told after ! j \<and> {t. Some t \<in> set (told before)} \<subseteq> {t. Some t \<in> set (told after)}"
proof
  consider "i < j" | "j < i" using i(3) by linarith
  then show "told after ! i \<noteq> told after ! j"
    using i count_take_less [of i j after] count_take_less [of j i after] by cases (fastforce simp: told_nth split: if_splits)+
  show "{t. Some t \<in> set (told before)} \<subseteq> {t. Some t \<in> set (told after)}"
  proof clarify
    fix k :: telling and n
    assume "Some (k, n) \<in> set (told before)"
    with assms(1) [of k] show "Some (k, n) \<in> set (told after)" by (cases k) (auto simp: told_set)
  qed
qed

definition told_example :: "telling list" where
  "told_example = [(''on'', Some [], ArtifactId ''https://a.io/x'', []), (''on'', None, ArtifactId ''https://a.io/x'', []),
     (''on'', Some [], ArtifactId ''https://a.io/x'', [])]"

lemma told_tells_witness:
  "told (rev told_example) ! 0 \<noteq> told (rev told_example) ! 2 \<and>
   {t. Some t \<in> set (told told_example)} \<subseteq> {t. Some t \<in> set (told (rev told_example))}"
  by (rule told_tells) (simp_all add: told_example_def told_nth)

end
