(* ===== verification/KB_Keywords.thy ===== *)
theory KB_Keywords
  imports KB_Composition
begin

text \<open>
  \<open>keywords.py\<close>: every place one of kb's keywords stands in a type's schema, in the order it is written, with
  whether kb reads it there. The generators are lists here. A key that is not text is never a keyword.
\<close>

section \<open>Where kb reads its keywords\<close>

definition OWN :: "string list" where "OWN = [''ref'', ''parts'', ''sections'', ''summary'']"

datatype reading = Top | Items | Field_level | Elsewhere

definition READ :: "reading \<Rightarrow> string list" where
  "READ w = (case w of Top \<Rightarrow> [''parts'', ''summary'', ''sections''] | Items \<Rightarrow> [''parts'']
     | Field_level \<Rightarrow> [''ref''] | Elsewhere \<Rightarrow> [])"

definition ONE :: "string list" where
  "ONE = [''items'', ''additionalProperties'', ''contains'', ''not'', ''if'', ''then'', ''else'', ''propertyNames'',
     ''unevaluatedItems'', ''unevaluatedProperties'', ''contentSchema'']"

definition EACH :: "string list" where "EACH = [''prefixItems'', ''anyOf'', ''oneOf'']"

definition NAMED :: "string list" where
  "NAMED = [''$defs'', ''definitions'', ''patternProperties'', ''dependentSchemas'']"

record standing =
  st_keyword :: string
  st_place :: string
  st_holder :: string
  st_read :: bool
  st_value :: val

definition top_of :: "reading \<Rightarrow> reading" where
  "top_of w = (if w = Top \<or> w = Items then w else Elsewhere)"

abbreviation slashed :: "string \<Rightarrow> string \<Rightarrow> string" where
  "slashed place step \<equiv> place @ ''/'' @ step"

lemma size_enum_from [termination_simp]:
  "(i, x) \<in> set (enum_from n xs) \<Longrightarrow> size x < size_list size xs"
  by (auto simp: set_enum_from size_listed)

lemma size_held_entry: "(k, VMap entries) \<in> set m \<Longrightarrow> map_of entries j = Some v \<Longrightarrow>
    size v < size_list (size_prod (\<lambda>_. 0) size) m"
  using size_entry_in [of k "VMap entries" m] size_entry [of entries j v] by simp

function (sequential) kw_walk :: "val \<Rightarrow> string \<Rightarrow> reading \<Rightarrow> standing list"
  and kw_inside :: "string \<Rightarrow> val \<Rightarrow> string \<Rightarrow> reading \<Rightarrow> standing list"
  and kw_collections :: "val \<Rightarrow> string \<Rightarrow> standing list" where
  "kw_walk (VMap m) place w = concat (map (\<lambda>(k, value). case k of
     KText key \<Rightarrow>
       if key \<in> set OWN then
         \<lparr>st_keyword = key, st_place = slashed place key, st_holder = place, st_read = key \<in> set (READ w), st_value = value\<rparr>
         # (if key = ''parts'' \<and> key \<in> set (READ w) then kw_collections value (slashed place key) else [])
       else kw_inside key value (slashed place key) w
   | KOther _ \<Rightarrow> []) m)"
| "kw_walk other place w = []"
| "kw_inside key value place w =
     (if key = ''allOf'' then (case value of
        VList xs \<Rightarrow> concat (map (\<lambda>(index, member). kw_walk member (slashed place (nat_str index)) (top_of w)) (enum_from 0 xs))
      | _ \<Rightarrow> [])
      else if key = ''properties'' then (case value of
        VMap m \<Rightarrow> concat (map (\<lambda>(name, field). kw_walk field (slashed place (key_str name))
                    (if top_of w \<noteq> Elsewhere then Field_level else Elsewhere)) m)
      | _ \<Rightarrow> [])
      else if key \<in> set ONE then kw_walk value place Elsewhere
      else if key \<in> set EACH then (case value of
        VList xs \<Rightarrow> concat (map (\<lambda>(index, member). kw_walk member (slashed place (nat_str index)) Elsewhere) (enum_from 0 xs))
      | _ \<Rightarrow> [])
      else if key \<in> set NAMED then (case value of
        VMap m \<Rightarrow> concat (map (\<lambda>(name, member). kw_walk member (slashed place (key_str name)) Elsewhere) m)
      | _ \<Rightarrow> [])
      else [])"
| "kw_collections (VMap m) place = concat (map (\<lambda>(name, collection). case collection of
     VMap entries \<Rightarrow> (case dget entries ''items'' of
         Some value \<Rightarrow> kw_walk value (slashed place (key_str name) @ ''/items'') Items | None \<Rightarrow> [])
   | _ \<Rightarrow> []) m)"
| "kw_collections other place = []"
  by pat_completeness auto

termination
  by (relation "measure (\<lambda>x. case x of Inl (v, place, w) \<Rightarrow> 2 * size v
        | Inr (Inl (key, v, place, w)) \<Rightarrow> 2 * size v + 1 | Inr (Inr (v, place)) \<Rightarrow> 2 * size v + 1)")
     (auto dest: size_entry_in size_enum_from size_held_entry)

declare kw_walk.simps(1) [simp del] kw_inside.simps [simp del] kw_collections.simps(1) [simp del]

definition standing_keywords :: "val \<Rightarrow> standing list" where
  "standing_keywords schema = kw_walk schema ''schema'' Top"

section \<open>What is read is what a type's composition declares\<close>

text \<open>
  The link fields of a schema: under \<open>properties\<close> of its top, of the top of its \<open>allOf\<close> members, or of the top of the items
  of a collection either declares, at any depth. This is where \<open>composition\<close> and \<open>declared\<close> look, which never go
  anywhere else in a schema.
\<close>

inductive kb_link :: "reading \<Rightarrow> val \<Rightarrow> val \<Rightarrow> bool" where
  field: "(KText ''ref'', x) \<in> set f \<Longrightarrow> kb_link Field_level (VMap f) x"
| properties: "w \<in> {Top, Items} \<Longrightarrow> (KText ''properties'', VMap declared_fields) \<in> set m \<Longrightarrow> (name, field) \<in> set declared_fields \<Longrightarrow>
    kb_link Field_level field x \<Longrightarrow> kb_link w (VMap m) x"
| member: "w \<in> {Top, Items} \<Longrightarrow> (KText ''allOf'', VList members) \<in> set m \<Longrightarrow> s \<in> set members \<Longrightarrow>
    kb_link w s x \<Longrightarrow> kb_link w (VMap m) x"
| entries: "w \<in> {Top, Items} \<Longrightarrow> (KText ''parts'', VMap parts) \<in> set m \<Longrightarrow> (name, VMap collection) \<in> set parts \<Longrightarrow>
    dget collection ''items'' = Some s \<Longrightarrow> kb_link Items s x \<Longrightarrow> kb_link w (VMap m) x"

inductive_cases kb_link_cases: "kb_link w (VMap m) x"

lemma kb_link_entry: "kb_link w (VMap [e]) x \<Longrightarrow> e \<in> set m \<Longrightarrow> kb_link w (VMap m) x"
  by (erule kb_link_cases) (auto intro: kb_link.intros)

definition reads_link :: "standing \<Rightarrow> bool" where
  "reads_link k = (st_keyword k = ''ref'' \<and> st_read k)"

lemma in_enum_from: "(i, x) \<in> set (enum_from n xs) \<Longrightarrow> x \<in> set xs"
  by (auto simp: set_enum_from)

lemma enum_from_in: "x \<in> set xs \<Longrightarrow> \<exists>i. (i, x) \<in> set (enum_from n xs)"
  by (auto simp: set_enum_from in_set_conv_nth)

lemma READ_ref [simp]: "''ref'' \<in> set (READ w) \<longleftrightarrow> w = Field_level"
  and READ_parts [simp]: "''parts'' \<in> set (READ w) \<longleftrightarrow> w \<in> {Top, Items}"
  by (cases w; simp add: READ_def)+

lemma top_of_simps [simp]: "top_of Top = Top" "top_of Items = Items" "top_of Field_level = Elsewhere"
  "top_of Elsewhere = Elsewhere"
  by (simp_all add: top_of_def)

lemma kw_inside_cases:
  assumes "k \<in> set (kw_inside key vl place w)"
  obtains (allOf) xs i s where "key = ''allOf''" "vl = VList xs" "(i, s) \<in> set (enum_from 0 xs)"
      "k \<in> set (kw_walk s (slashed place (nat_str i)) (top_of w))"
  | (properties) m name field where "key \<noteq> ''allOf''" "key = ''properties''" "vl = VMap m" "(name, field) \<in> set m"
      "k \<in> set (kw_walk field (slashed place (key_str name)) (if top_of w \<noteq> Elsewhere then Field_level else Elsewhere))"
  | (one) "key \<noteq> ''allOf''" "key \<noteq> ''properties''" "key \<in> set ONE" "k \<in> set (kw_walk vl place Elsewhere)"
  | (each) xs i s where "key \<noteq> ''allOf''" "key \<noteq> ''properties''" "key \<notin> set ONE" "key \<in> set EACH" "vl = VList xs"
      "(i, s) \<in> set (enum_from 0 xs)" "k \<in> set (kw_walk s (slashed place (nat_str i)) Elsewhere)"
  | (named) m name s where "key \<noteq> ''allOf''" "key \<noteq> ''properties''" "key \<notin> set ONE" "key \<notin> set EACH"
      "key \<in> set NAMED" "vl = VMap m" "(name, s) \<in> set m" "k \<in> set (kw_walk s (slashed place (key_str name)) Elsewhere)"
proof -
  have "key = ''allOf'' \<or> key = ''properties'' \<or> key \<in> set ONE \<or> key \<in> set EACH \<or> key \<in> set NAMED"
    using assms by (rule_tac ccontr) (simp add: kw_inside.simps)
  then consider "key = ''allOf''" | "key \<noteq> ''allOf''" "key = ''properties''"
    | "key \<noteq> ''allOf''" "key \<noteq> ''properties''" "key \<in> set ONE"
    | "key \<noteq> ''allOf''" "key \<noteq> ''properties''" "key \<notin> set ONE" "key \<in> set EACH"
    | "key \<noteq> ''allOf''" "key \<noteq> ''properties''" "key \<notin> set ONE" "key \<notin> set EACH" "key \<in> set NAMED" by blast
  then show thesis
  proof cases
    case 1
    with assms show thesis by (auto simp: kw_inside.simps split: val.splits intro: allOf)
  next
    case 2
    with assms show thesis by (auto simp: kw_inside.simps split: val.splits intro: properties)
  next
    case 3
    with assms show thesis by (auto simp: kw_inside.simps intro: one)
  next
    case 4
    with assms show thesis by (auto simp: kw_inside.simps split: val.splits intro: each)
  next
    case 5
    with assms show thesis by (auto simp: kw_inside.simps split: val.splits intro: named)
  qed
qed

lemma keywords_sound:
  "\<forall>k \<in> set (kw_walk v place w). reads_link k \<longrightarrow> kb_link w v (st_value k)"
  "\<forall>k \<in> set (kw_inside key vl place w). reads_link k \<longrightarrow>
     w \<in> {Top, Items} \<and> kb_link w (VMap [(KText key, vl)]) (st_value k)"
  "\<forall>k \<in> set (kw_collections vl place). reads_link k \<longrightarrow> (\<exists>parts name collection s. vl = VMap parts \<and>
     (name, VMap collection) \<in> set parts \<and> dget collection ''items'' = Some s \<and> kb_link Items s (st_value k))"
proof (induction v place w and key vl place w and vl place
    rule: kw_walk_kw_inside_kw_collections.induct)
  case (1 m place w)
  show ?case
  proof (intro ballI impI)
    fix k assume "k \<in> set (kw_walk (VMap m) place w)" "reads_link k"
    then obtain key vl where e: "(KText key, vl) \<in> set m"
      and k: "k \<in> set (if key \<in> set OWN then
         \<lparr>st_keyword = key, st_place = slashed place key, st_holder = place, st_read = key \<in> set (READ w), st_value = vl\<rparr>
         # (if key = ''parts'' \<and> key \<in> set (READ w) then kw_collections vl (slashed place key) else [])
       else kw_inside key vl (slashed place key) w)"
      by (auto simp: kw_walk.simps(1) split: key.splits)
    show "kb_link w (VMap m) (st_value k)"
    proof (cases "key \<in> set OWN")
      case False
      with 1(2) [OF e refl refl False] k \<open>reads_link k\<close> e show ?thesis by (auto intro: kb_link_entry)
    next
      case True
      with k consider
        "k = \<lparr>st_keyword = key, st_place = slashed place key, st_holder = place, st_read = key \<in> set (READ w), st_value = vl\<rparr>"
        | "key = ''parts''" "w \<in> {Top, Items}" "k \<in> set (kw_collections vl (slashed place key))"
        by (auto split: if_splits)
      then show ?thesis
      proof cases
        case 1
        with \<open>reads_link k\<close> have "key = ''ref''" "w = Field_level" by (auto simp: reads_link_def)
        with 1 e show ?thesis by (auto intro: kb_link.field)
      next
        case 2
        with 1(1) [OF e refl refl True] \<open>reads_link k\<close> obtain parts name collection s where "vl = VMap parts"
          "(name, VMap collection) \<in> set parts" "dget collection ''items'' = Some s" "kb_link Items s (st_value k)"
          by fastforce
        with 2 e show ?thesis by (auto intro: kb_link.entries)
      qed
    qed
  qed
next
  case (3 key vl place w)
  show ?case
  proof (intro ballI impI)
    fix k assume k: "k \<in> set (kw_inside key vl place w)" and r: "reads_link k"
    have no: "\<not> kb_link Elsewhere v x" for v x by (rule notI, erule kb_link.cases) auto
    from k show "w \<in> {Top, Items} \<and> kb_link w (VMap [(KText key, vl)]) (st_value k)"
    proof (cases rule: kw_inside_cases)
      case (allOf xs i s)
      with 3(1) [OF allOf(1-3) refl] r have l: "kb_link (top_of w) s (st_value k)" by blast
      with no have w: "w \<in> {Top, Items}" by (cases w) auto
      with l allOf show ?thesis by (auto intro!: kb_link.member dest: in_enum_from)
    next
      case (properties m name field)
      with 3(2) [of m "(name, field)" name field] r
      have l: "kb_link (if top_of w \<noteq> Elsewhere then Field_level else Elsewhere) field (st_value k)" by simp
      with no have w: "w \<in> {Top, Items}" by (cases w) auto
      with l have "kb_link Field_level field (st_value k)" by auto
      with w properties show ?thesis by (auto intro!: kb_link.properties)
    next
      case one
      with 3(3) [OF one(1-3)] r no show ?thesis by blast
    next
      case (each xs i s)
      with 3(4) [OF each(1-6) refl] r no show ?thesis by blast
    next
      case (named m name s)
      with 3(5) [OF named(1-7) refl] r no show ?thesis by blast
    qed
  qed
next
  case (4 m place)
  show ?case
  proof (intro ballI impI)
    fix k assume "k \<in> set (kw_collections (VMap m) place)" and r: "reads_link k"
    then obtain name collection s where c: "(name, VMap collection) \<in> set m" "dget collection ''items'' = Some s"
      "k \<in> set (kw_walk s (slashed place (key_str name) @ ''/items'') Items)"
      by (clarsimp simp: kw_collections.simps(1) split: val.splits option.splits) metis
    with 4 [OF c(1) refl refl c(2)] r show "\<exists>parts name collection s. VMap m = VMap parts \<and>
       (name, VMap collection) \<in> set parts \<and> dget collection ''items'' = Some s \<and> kb_link Items s (st_value k)" by blast
  qed
qed auto

lemma kw_walk_entry:
  assumes "(KText key, vl) \<in> set m" "k \<in> set (if key \<in> set OWN then
         \<lparr>st_keyword = key, st_place = slashed place key, st_holder = place, st_read = key \<in> set (READ w), st_value = vl\<rparr>
         # (if key = ''parts'' \<and> key \<in> set (READ w) then kw_collections vl (slashed place key) else [])
       else kw_inside key vl (slashed place key) w)"
  shows "k \<in> set (kw_walk (VMap m) place w)"
  unfolding kw_walk.simps(1) set_concat set_map
  by (rule UN_I [OF image_eqI [OF refl assms(1)]]) (use assms(2) in simp)

lemma keywords_complete: "kb_link w v x \<Longrightarrow> \<exists>k \<in> set (kw_walk v place w). reads_link k \<and> st_value k = x"
proof (induction arbitrary: place rule: kb_link.induct)
  case (field x f)
  let ?k = "\<lparr>st_keyword = ''ref'', st_place = slashed place ''ref'', st_holder = place, st_read = True, st_value = x\<rparr>"
  have "?k \<in> set (kw_walk (VMap f) place Field_level)"
    by (rule kw_walk_entry [OF field]) (simp add: OWN_def)
  then show ?case by (rule bexI [rotated]) (simp add: reads_link_def)
next
  case (properties w declared_fields m name field x)
  from properties.IH [of "slashed (slashed place ''properties'') (key_str name)"] obtain k where
    k: "k \<in> set (kw_walk field (slashed (slashed place ''properties'') (key_str name)) Field_level)"
      "reads_link k" "st_value k = x" by blast
  have "top_of w \<noteq> Elsewhere" using properties.hyps(1) by auto
  with k(1) properties.hyps(3) have "k \<in> set (kw_inside ''properties'' (VMap declared_fields) (slashed place ''properties'') w)"
    by (force simp: kw_inside.simps)
  then have "k \<in> set (kw_walk (VMap m) place w)"
    by (intro kw_walk_entry [OF properties.hyps(2)]) (simp add: OWN_def)
  with k show ?case by blast
next
  case (member w members m s x)
  from enum_from_in [OF member.hyps(3), of 0] obtain i where i: "(i, s) \<in> set (enum_from 0 members)" by blast
  from member.IH [of "slashed (slashed place ''allOf'') (nat_str i)"] obtain k where
    k: "k \<in> set (kw_walk s (slashed (slashed place ''allOf'') (nat_str i)) w)" "reads_link k" "st_value k = x" by blast
  have "top_of w = w" using member.hyps(1) by auto
  with k(1) i have "k \<in> set (kw_inside ''allOf'' (VList members) (slashed place ''allOf'') w)"
    by (force simp: kw_inside.simps)
  then have "k \<in> set (kw_walk (VMap m) place w)"
    by (intro kw_walk_entry [OF member.hyps(2)]) (simp add: OWN_def)
  with k show ?case by blast
next
  case (entries w parts m name collection s x)
  from entries.IH [of "slashed (slashed place ''parts'') (key_str name) @ ''/items''"] obtain k where
    k: "k \<in> set (kw_walk s (slashed (slashed place ''parts'') (key_str name) @ ''/items'') Items)"
      "reads_link k" "st_value k = x" by blast
  with entries.hyps(3,4) have "k \<in> set (kw_collections (VMap parts) (slashed place ''parts''))"
    by (force simp: kw_collections.simps(1) intro!: bexI [of _ "(name, VMap collection)"])
  with entries.hyps(1) have "k \<in> set (kw_walk (VMap m) place w)"
    by (intro kw_walk_entry [OF entries.hyps(2)]) (auto simp: OWN_def)
  with k show ?case by blast
qed

section \<open>The module's contract\<close>

text \<open>
  \<open>standing\<close> says kb reads a \<open>ref\<close> exactly where it is on a field under \<open>properties\<close> of a schema's top, of the top
  of its \<open>allOf\<close> members, or of the top of the items of a collection one of those declares, and nowhere else in the
  schema.
\<close>

theorem link_fields_read:
  "(\<exists>k \<in> set (standing_keywords schema). st_keyword k = ''ref'' \<and> st_read k \<and> st_value k = x)
     \<longleftrightarrow> kb_link Top schema x"
  unfolding standing_keywords_def
  using keywords_sound(1) [of schema "''schema''" Top] keywords_complete [of Top schema x "''schema''"]
  by (auto simp: reads_link_def)

end
