(* ===== verification/KB_Definitions.thy ===== *)
theory KB_Definitions
  imports KB_Keywords
begin

text \<open>
  \<open>definitions.py\<close>: a type checked as it is written: every shape it refers to belongs to a type version held, it is
  not built on itself, kb's keywords stand only where kb reads them, and every link field kb reads says all it
  must.
\<close>

section \<open>The references of a schema\<close>

function (sequential) refs :: "val \<Rightarrow> string \<Rightarrow> (string \<times> string) list" where
  "refs (VMap m) place = concat (map (\<lambda>(k, v).
     (case (k, v) of
        (KText key, VStr ref) \<Rightarrow> if key = ''$ref'' then [(slashed place ''$ref'', ref)] else []
      | _ \<Rightarrow> refs v (slashed place (key_str k)))) m)"
| "refs (VList xs) place = concat (map (\<lambda>(index, v). refs v (slashed place (nat_str index))) (enum_from 0 xs))"
| "refs other place = []"
  by pat_completeness auto
termination
  by (relation "measure (\<lambda>(v, place). size v)") (auto dest: size_entry_in size_enum_from)

definition shape_faults :: "artifact_id \<Rightarrow> corpus \<Rightarrow> string \<times> string \<Rightarrow> exn + fault list" where
  "shape_faults type_id draft at = (case at of (place, ref) \<Rightarrow> (case reference ref of
     None \<Rightarrow> Inr []
   | Some named \<Rightarrow>
       if ref_type named = Some type_id \<and> ref_whole named then Inr [built_on_itself type_id place ref]
       else rbind (comp_held named draft) (\<lambda>held.
              Inr (if held then [] else [no_such_shape type_id place ref]))))"

definition shapes :: "artifact_id \<Rightarrow> val \<Rightarrow> corpus \<Rightarrow> exn + fault list" where
  "shapes type_id schema draft =
     rbind (rall (map (shape_faults type_id draft) (refs schema ''schema''))) (\<lambda>found. Inr (concat found))"

section \<open>Link fields\<close>

definition left_out :: "obj \<Rightarrow> string list" where
  "left_out ref = filter (\<lambda>key. case dget ref key of
       None \<Rightarrow> True
     | Some v \<Rightarrow> key = ''parts'' \<and> (case v of VBool _ \<Rightarrow> False | _ \<Rightarrow> True))
     [''cardinality'', ''parts'', ''on_delete'']"

definition link_field :: "artifact_id \<Rightarrow> standing \<Rightarrow> fault list" where
  "link_field type_id stood =
     (let field = last (split_on (CHR ''/'') (st_holder stood));
          ref = as_map (Some (st_value stood))
      in (if left_out ref \<noteq> [] then [incomplete_link type_id (st_holder stood) field (left_out ref)] else [])
       @ (case dget ref ''cardinality'' of
            Some v \<Rightarrow> if \<not> py_eq v (VStr ''one'') \<and> \<not> py_eq v (VStr ''many'')
              then [unknown_reach type_id (st_holder stood) field v] else []
          | None \<Rightarrow> [])
       @ (case dget ref ''on_delete'' of
            Some v \<Rightarrow> if \<not> py_eq v (VStr ''refuse'')
              then [unknown_removal type_id (st_holder stood) field v] else []
          | None \<Rightarrow> [])
       @ (if dget ref ''targets'' = None then [no_targets type_id (st_holder stood) field] else []))"

definition keyword_faults :: "artifact_id \<Rightarrow> standing \<Rightarrow> exn + fault list" where
  "keyword_faults type_id k =
     (if \<not> st_read k \<and> st_keyword k = ''ref'' then Inr [misplaced_link type_id (st_place k)]
      else if \<not> st_read k then rbind (misplaced type_id (st_keyword k) (st_place k)) (\<lambda>f. Inr [f])
      else Inr (if st_keyword k = ''ref'' then link_field type_id k else []))"

definition definition_faults :: "artifact_id \<Rightarrow> obj \<Rightarrow> corpus \<Rightarrow> exn + fault list" where
  "definition_faults type_id content draft =
     (let schema = content_schema content
      in rbind (shapes type_id schema draft) (\<lambda>found.
         rbind (rall (map (keyword_faults type_id) (standing_keywords schema))) (\<lambda>more.
         Inr (found @ concat more))))"

section \<open>Lemmas\<close>

text \<open>A link field that says all it must.\<close>

definition whole_link :: "val \<Rightarrow> bool" where
  "whole_link v = (let ref = as_map (Some v) in
     dget ref ''targets'' \<noteq> None \<and> (\<exists>b. dget ref ''parts'' = Some (VBool b)) \<and>
     (dget ref ''cardinality'' = Some (VStr ''one'') \<or> dget ref ''cardinality'' = Some (VStr ''many'')) \<and>
     dget ref ''on_delete'' = Some (VStr ''refuse''))"

lemma py_eq_str [simp]: "py_eq v (VStr s) \<longleftrightarrow> v = VStr s"
  by (cases v) (auto simp: py_eq_map)

lemma link_field_none: "link_field type_id k = [] \<longleftrightarrow> whole_link (st_value k)"
proof -
  have "left_out ref = [] \<longleftrightarrow> dget ref ''cardinality'' \<noteq> None \<and> (\<exists>b. dget ref ''parts'' = Some (VBool b)) \<and>
      dget ref ''on_delete'' \<noteq> None" for ref
    by (auto simp: left_out_def split: option.splits val.splits)
  then show ?thesis
    by (auto simp: link_field_def whole_link_def Let_def split: option.splits if_splits)
qed

lemma keyword_said: "\<forall>k \<in> set (kw_walk v place w). st_keyword k \<in> set OWN"
  "\<forall>k \<in> set (kw_inside key vl place w). st_keyword k \<in> set OWN"
  "\<forall>k \<in> set (kw_collections vl place). st_keyword k \<in> set OWN"
proof (induction v place w and key vl place w and vl place rule: kw_walk_kw_inside_kw_collections.induct)
  case (1 m place w)
  show ?case
  proof
    fix k assume "k \<in> set (kw_walk (VMap m) place w)"
    then obtain key vl where e: "(KText key, vl) \<in> set m"
      and k: "k \<in> set (if key \<in> set OWN then
         \<lparr>st_keyword = key, st_place = slashed place key, st_holder = place, st_read = key \<in> set (READ w), st_value = vl\<rparr>
         # (if key = ''parts'' \<and> key \<in> set (READ w) then kw_collections vl (slashed place key) else [])
       else kw_inside key vl (slashed place key) w)"
      by (auto simp: kw_walk.simps(1) split: key.splits)
    then show "st_keyword k \<in> set OWN"
      using 1(1) [OF e refl refl] 1(2) [OF e refl refl]
      by (cases "key \<in> set OWN") (auto split: if_splits)
  qed
next
  case (3 key vl place w)
  show ?case
  proof
    fix k assume "k \<in> set (kw_inside key vl place w)"
    then show "st_keyword k \<in> set OWN"
    proof (cases rule: kw_inside_cases)
      case (allOf xs i s)
      with 3(1) [OF allOf(1-3) refl] show ?thesis by blast
    next
      case (properties m name field)
      with 3(2) [OF properties(1-4) refl] show ?thesis by blast
    next
      case one
      with 3(3) [OF one(1-3)] show ?thesis by blast
    next
      case (each xs i s)
      with 3(4) [OF each(1-6) refl] show ?thesis by blast
    next
      case (named m name s)
      with 3(5) [OF named(1-7) refl] show ?thesis by blast
    qed
  qed
next
  case (4 m place)
  show ?case
  proof
    fix k assume "k \<in> set (kw_collections (VMap m) place)"
    then obtain name collection s where c: "(name, VMap collection) \<in> set m" "dget collection ''items'' = Some s"
      "k \<in> set (kw_walk s (slashed place (key_str name) @ ''/items'') Items)"
      by (clarsimp simp: kw_collections.simps(1) split: val.splits option.splits) metis
    with 4 [OF c(1) refl refl c(2)] show "st_keyword k \<in> set OWN" by blast
  qed
qed auto

lemma keyword_faults_returns: "st_keyword k \<in> set OWN \<Longrightarrow> \<exists>found. keyword_faults type_id k = Inr found \<and>
    (found = [] \<longleftrightarrow> st_read k \<and> (st_keyword k = ''ref'' \<longrightarrow> whole_link (st_value k)))"
  by (auto simp: keyword_faults_def misplaced_def WHERE_READ_def OWN_def link_field_none)

lemma rall_concat_Nil:
  "(\<And>x. x \<in> set xs \<Longrightarrow> \<exists>found. f x = Inr found \<and> (found = [] \<longleftrightarrow> P x)) \<Longrightarrow>
   \<exists>found. rall (map f xs) = Inr found \<and> (concat found = [] \<longleftrightarrow> (\<forall>x \<in> set xs. P x))"
proof (induction xs)
  case (Cons x xs)
  from Cons.IH Cons.prems obtain more where "rall (map f xs) = Inr more"
    "concat more = [] \<longleftrightarrow> (\<forall>x \<in> set xs. P x)" by auto
  moreover from Cons.prems obtain found where "f x = Inr found" "found = [] \<longleftrightarrow> P x" by auto
  ultimately show ?case by auto
qed simp

text \<open>Every reference of a schema, at every depth.\<close>

definition shape_held :: "artifact_id \<Rightarrow> corpus \<Rightarrow> string \<Rightarrow> bool" where
  "shape_held type_id draft ref = (case reference ref of
     None \<Rightarrow> True
   | Some named \<Rightarrow> \<not> (ref_type named = Some type_id \<and> ref_whole named) \<and> comp_held named draft = Inr True)"

lemma rall_concat_Inr:
  "rbind (rall (map f xs)) (\<lambda>found. Inr (concat found)) = Inr [] \<longleftrightarrow> (\<forall>x \<in> set xs. f x = Inr [])"
  by (induction xs) (auto simp: results)

lemma shapes_none: "shapes a schema c = Inr [] \<longleftrightarrow> (\<forall>(place, ref) \<in> set (refs schema ''schema''). shape_held a c ref)"
proof -
  have "shape_faults a c (place, ref) = Inr [] \<longleftrightarrow> shape_held a c ref" for place ref
    by (auto simp: shape_faults_def shape_held_def results split: option.splits if_splits)
  then show ?thesis unfolding shapes_def rall_concat_Inr by auto
qed

section \<open>The module's contract\<close>

text \<open>
  C23: a type is accepted (no fault, no exception) exactly when every kb: reference anywhere in its schema is to a version
  of a type held, and not to the type itself as its base, every one of kb's keywords stands where kb reads it, and
  every link field kb reads says its kinds, one or many, whether it may point into a part, and refuse.
\<close>

theorem type_accepted:
  "definition_faults a content c = Inr [] \<longleftrightarrow>
     (\<forall>(place, ref) \<in> set (refs (content_schema content) ''schema''). shape_held a c ref) \<and>
     (\<forall>k \<in> set (standing_keywords (content_schema content)). st_read k) \<and>
     (\<forall>x. kb_link Top (content_schema content) x \<longrightarrow> whole_link x)"
proof -
  let ?schema = "content_schema content" and ?ok = "\<lambda>k. st_read k \<and> (st_keyword k = ''ref'' \<longrightarrow> whole_link (st_value k))"
  obtain more where m: "rall (map (keyword_faults a) (standing_keywords ?schema)) = Inr more"
    "concat more = [] \<longleftrightarrow> (\<forall>k \<in> set (standing_keywords ?schema). ?ok k)"
    using rall_concat_Nil [of "standing_keywords ?schema" "keyword_faults a" ?ok] keyword_faults_returns [of _ a]
      keyword_said(1) [of ?schema "''schema''" Top]
    unfolding standing_keywords_def by blast
  have links: "(\<forall>k \<in> set (standing_keywords ?schema). ?ok k) \<longleftrightarrow>
      (\<forall>k \<in> set (standing_keywords ?schema). st_read k) \<and> (\<forall>x. kb_link Top ?schema x \<longrightarrow> whole_link x)"
    using keywords_sound(1) [of ?schema "''schema''" Top] keywords_complete [of Top ?schema _ "''schema''"]
    unfolding standing_keywords_def reads_link_def by blast
  have "definition_faults a content c = Inr [] \<longleftrightarrow> shapes a ?schema c = Inr [] \<and> concat more = []"
    by (auto simp: definition_faults_def m(1) results Let_def)
  then show ?thesis unfolding m(2) links shapes_none by blast
qed

theorem type_accepted_witness:
  "definition_faults (ArtifactId ''https://a.io/t'')
     [(KText ''schema'', VMap [(KText ''properties'', VMap [(KText ''f'', VMap [(KText ''ref'', VMap
        [(KText ''targets'', VList []), (KText ''cardinality'', VStr ''one''), (KText ''parts'', VBool False),
         (KText ''on_delete'', VStr ''refuse'')])])])])] empty_corpus = Inr []
   \<and> whole_link (VMap [(KText ''targets'', VList []), (KText ''cardinality'', VStr ''one''), (KText ''parts'', VBool False),
         (KText ''on_delete'', VStr ''refuse'')])"
proof -
  let ?r = "VMap [(KText ''targets'', VList []), (KText ''cardinality'', VStr ''one''), (KText ''parts'', VBool False),
         (KText ''on_delete'', VStr ''refuse'')]"
  let ?c = "[(KText ''schema'', VMap [(KText ''properties'', VMap [(KText ''f'', VMap [(KText ''ref'', ?r)])])])]"
  have ok: "definition_faults (ArtifactId ''https://a.io/t'') ?c empty_corpus = Inr []" by code_simp
  have "kb_link Top (content_schema ?c) ?r"
    by (auto simp: content_schema_def intro!: kb_link.properties [of Top _ _ "KText ''f''"] kb_link.field)
  with type_accepted [of "ArtifactId ''https://a.io/t''" ?c empty_corpus] ok show ?thesis by blast
qed

section \<open>Where the checks fall short\<close>

text \<open>Two types, each built on the other: the artifacts held, and the versions kept of them.\<close>

definition built_on :: "string \<Rightarrow> obj" where
  "built_on other = [(KText ''type'', VStr ''https://missingmass.io/kb/type@1''), (KText ''version'', VInt 1),
     (KText ''schema'', VMap [(KText ''$ref'', VStr (''kb:'' @ other @ ''@1''))])]"

definition circle :: corpus where
  "circle = \<lparr>c_holds = \<lambda>a. iri_of a \<in> {''https://a.io/a'', ''https://a.io/b''},
     c_artifact = \<lambda>a. if iri_of a = ''https://a.io/a'' then Some (built_on ''https://a.io/b'')
       else if iri_of a = ''https://a.io/b'' then Some (built_on ''https://a.io/a'') else None,
     c_type_version = \<lambda>v. if v = Version (Kind ''https://a.io/a'') 1
         then Some \<lparr>tv_version = v, tv_content = built_on ''https://a.io/b'', tv_revision = 1, tv_title = ''A''\<rparr>
       else if v = Version (Kind ''https://a.io/b'') 1
         then Some \<lparr>tv_version = v, tv_content = built_on ''https://a.io/a'', tv_revision = 1, tv_title = ''B''\<rparr>
       else None,
     c_versions = \<lambda>_. [1], c_ids = \<lambda>_. [ArtifactId ''https://a.io/a'', ArtifactId ''https://a.io/b'']\<rparr>"

lemma circle_schemas:
  "type_schema ''kb:https://a.io/a@1'' circle = Inr (VMap [(KText ''$ref'', VStr ''kb:https://a.io/b@1'')])"
  "type_schema ''kb:https://a.io/b@1'' circle = Inr (VMap [(KText ''$ref'', VStr ''kb:https://a.io/a@1'')])"
  "whole_ref [(KText ''$ref'', VStr ''kb:https://a.io/a@1'')] = Some ''kb:https://a.io/a@1''"
  "whole_ref [(KText ''$ref'', VStr ''kb:https://a.io/b@1'')] = Some ''kb:https://a.io/b@1''"
  by code_simp+

text \<open>
  C24: two types of one set, each built on the other, are both accepted, since only a type naming itself is refused; yet
  no bound on nested calls lets either be composed: the code recurses until Python gives up.
\<close>

theorem circle_accepted_never_composed:
  "definition_faults (ArtifactId ''https://a.io/a'') (built_on ''https://a.io/b'') circle = Inr [] \<and>
   definition_faults (ArtifactId ''https://a.io/b'') (built_on ''https://a.io/a'') circle = Inr [] \<and>
   composition n (VMap [(KText ''$ref'', VStr ''kb:https://a.io/a@1'')]) circle = Inl RecursionError"
proof -
  have "composition n (VMap [(KText ''$ref'', VStr ''kb:https://a.io/a@1'')]) circle = Inl RecursionError \<and>
        composition n (VMap [(KText ''$ref'', VStr ''kb:https://a.io/b@1'')]) circle = Inl RecursionError"
    by (induction n) (simp_all add: composition.simps circle_schemas)
  moreover have "definition_faults (ArtifactId ''https://a.io/a'') (built_on ''https://a.io/b'') circle = Inr []"
    "definition_faults (ArtifactId ''https://a.io/b'') (built_on ''https://a.io/a'') circle = Inr []" by code_simp+
  ultimately show ?thesis by blast
qed

text \<open>
  fields shown at a glance declared at the top of a collection's items are refused, by a message saying that is
  where kb reads them.
\<close>

theorem summary_of_items_refused:
  "definition_faults (ArtifactId ''https://a.io/t'') [(KText ''schema'', VMap [(KText ''parts'', VMap [(KText ''steps'',
       VMap [(KText ''items'', VMap [(KText ''summary'', VList [])])])])])] empty_corpus
   = Inr [Fault ''https://a.io/t'' ''schema/parts/steps/items/summary'' PLACEMENT
       (''kb does not read 'summary' there; it reads 'summary' only at the top of a type's schema or of a ''
        @ ''collection's items, and 'schema/parts/steps/items/summary' is not'')]"
  by code_simp

text \<open>
  a type with a boolean schema among its \<open>allOf\<close>, which JSON Schema allows, is accepted, yet composing it raises
  whatever the bound.
\<close>

theorem boolean_member_never_composed:
  "definition_faults (ArtifactId ''https://a.io/t'') [(KText ''schema'', VMap [(KText ''allOf'', VList [VBool True])])]
     empty_corpus = Inr [] \<and>
   composition (Suc (Suc n)) (VMap [(KText ''allOf'', VList [VBool True])]) empty_corpus = Inl AttributeError"
proof
  show "definition_faults (ArtifactId ''https://a.io/t'') [(KText ''schema'', VMap [(KText ''allOf'', VList [VBool True])])]
     empty_corpus = Inr []" by code_simp
qed (simp add: composition.simps py_iter_def)

end
