(* ===== verification/KB_Links.thy ===== *)
theory KB_Links
  imports KB_Port_Values KB_Definitions "HOL-Library.Multiset"
begin

text \<open>
  \<open>links.py\<close>: every link an artifact carries, wherever it sits, read through its type's composition, and those
  links as the port takes them. A node is told from others by the way to it from the artifact, which stands for
  the identity \<open>is\<close> compares. A field whose name is not text is carried under the text it is written as. The bound
  \<open>n\<close> is the one \<open>composition\<close> takes.
\<close>

section \<open>The links an artifact carries\<close>

record link =
  lk_field :: string
  lk_place :: string
  lk_target :: val
  lk_ref :: val
  lk_own :: bool
  lk_holder :: string

fun holds_text :: "string \<Rightarrow> string \<Rightarrow> bool" where
  "holds_text p [] = (p = [])"
| "holds_text p (c # s) = (starts_with p (c # s) \<or> holds_text p s)"

text \<open>\<open>field["ref"]\<close> of a field in which \<open>"ref" in field\<close>; None for one in which it is not.\<close>

definition ref_of :: "val \<Rightarrow> exn + val option" where
  "ref_of v = (case v of
     VMap m \<Rightarrow> Inr (dget m ''ref'')
   | VList xs \<Rightarrow> if VStr ''ref'' \<in> set xs then Inl TypeError else Inr None
   | VStr s \<Rightarrow> if holds_text ''ref'' s then Inl TypeError else Inr None
   | _ \<Rightarrow> Inl TypeError)"

fun ref_fields :: "obj \<Rightarrow> exn + obj" where
  "ref_fields [] = Inr []"
| "ref_fields ((name, fld) # rest) = rbind (ref_of fld) (\<lambda>ref. rbind (ref_fields rest) (\<lambda>more.
     Inr (case ref of None \<Rightarrow> more | Some r \<Rightarrow> (name, r) # more)))"

definition link_references :: "nat \<Rightarrow> val \<Rightarrow> corpus \<Rightarrow> exn + obj" where
  "link_references n schema c = rbind (declared n schema c) (\<lambda>d. ref_fields (d_properties d))"

fun links_listed :: "string \<Rightarrow> val \<Rightarrow> string \<Rightarrow> string \<Rightarrow> nat \<Rightarrow> val list \<Rightarrow> link list" where
  "links_listed fld ref at holder index [] = []"
| "links_listed fld ref at holder index (x # xs) =
     \<lparr>lk_field = fld, lk_place = at @ fld @ ''/'' @ nat_str index, lk_target = x, lk_ref = ref,
      lk_own = (at = []), lk_holder = holder\<rparr> # links_listed fld ref at holder (Suc index) xs"

fun links_fields :: "obj \<Rightarrow> obj \<Rightarrow> string \<Rightarrow> string \<Rightarrow> link list" where
  "links_fields node [] at holder = []"
| "links_fields node ((fld, ref) # shown) at holder =
     (case map_of node fld of
        Some (VList xs) \<Rightarrow> links_listed (key_str fld) ref at holder 0 xs
      | None \<Rightarrow> [] | Some VNull \<Rightarrow> []
      | Some v \<Rightarrow> [\<lparr>lk_field = key_str fld, lk_place = at @ key_str fld, lk_target = v, lk_ref = ref,
                    lk_own = (at = []), lk_holder = holder\<rparr>])
     @ links_fields node shown at holder"

definition links_held :: "string \<Rightarrow> key \<Rightarrow> obj \<Rightarrow> nat \<Rightarrow> exn + string" where
  "links_held holder collection item index =
     (let step = (case dget item ''id'' of Some (VStr name) \<Rightarrow> name | _ \<Rightarrow> nat_str index)
      in case collection of
           KText c \<Rightarrow> Inr (names_placed (if holder \<noteq> [] then [holder, c, step] else [c, step]))
         | KOther _ \<Rightarrow> Inl TypeError)"

type_synonym node_way = "(key \<times> nat) list"

text \<open>The list, or the mapping, a value is.\<close>

definition list_at :: "obj \<Rightarrow> key \<Rightarrow> val list option" where
  "list_at node k = (case map_of node k of Some (VList xs) \<Rightarrow> Some xs | _ \<Rightarrow> None)"

definition map_in :: "val \<Rightarrow> obj option" where
  "map_in v = (case v of VMap m \<Rightarrow> Some m | _ \<Rightarrow> None)"

lemma list_at_Some [simp]: "list_at node k = Some xs \<longleftrightarrow> map_of node k = Some (VList xs)"
  by (simp add: list_at_def split: option.splits val.splits)

lemma map_in_Some [simp]: "map_in v = Some m \<longleftrightarrow> v = VMap m"
  by (simp add: map_in_def split: val.splits)

lemma map_in_VMap [simp]: "map_in (VMap m) = Some m"
  by (simp add: map_in_def)

declare rbind_cong [fundef_cong del]

function (sequential)
      links_in :: "nat \<Rightarrow> corpus \<Rightarrow> node_way option \<Rightarrow> obj \<Rightarrow> obj \<Rightarrow> obj \<Rightarrow> string \<Rightarrow> node_way \<Rightarrow> bool \<Rightarrow> string \<Rightarrow> exn + link list"
  and links_in_parts :: "nat \<Rightarrow> corpus \<Rightarrow> node_way option \<Rightarrow> obj \<Rightarrow> obj \<Rightarrow> string \<Rightarrow> node_way \<Rightarrow> bool \<Rightarrow> string \<Rightarrow> exn + link list"
  and links_in_items :: "nat \<Rightarrow> corpus \<Rightarrow> node_way option \<Rightarrow> key \<Rightarrow> val \<Rightarrow> obj \<Rightarrow> nat \<Rightarrow> val list \<Rightarrow> string \<Rightarrow> node_way \<Rightarrow> bool \<Rightarrow> string \<Rightarrow> exn + link list"
where
  "links_in n c within node shown parts at here entered holder =
     (let entered = (entered \<or> within = Some here)
      in rbind (links_in_parts n c within node parts at here entered holder) (\<lambda>inner.
         Inr ((if entered then links_fields node shown at holder else []) @ inner)))"
| "links_in_parts n c within node [] at here entered holder = Inr []"
| "links_in_parts n c within node ((collection, part) # parts) at here entered holder =
     (case list_at node collection of
        None \<Rightarrow> links_in_parts n c within node parts at here entered holder
      | Some entries \<Rightarrow>
          rbind (item_schema part) (\<lambda>schema. rbind (link_references n schema c) (\<lambda>shown.
          rbind (links_in_items n c within collection schema shown 0 entries at here entered holder) (\<lambda>found.
          rbind (links_in_parts n c within node parts at here entered holder) (\<lambda>more. Inr (found @ more))))))"
| "links_in_items n c within collection schema shown index [] at here entered holder = Inr []"
| "links_in_items n c within collection schema shown index (entry # entries) at here entered holder =
     (case map_in entry of
        None \<Rightarrow> links_in_items n c within collection schema shown (Suc index) entries at here entered holder
      | Some item \<Rightarrow>
          rbind (declared n schema c) (\<lambda>d. rbind (links_held holder collection item index) (\<lambda>held.
          rbind (links_in n c within item shown (d_parts d) (at @ key_str collection @ ''/'' @ nat_str index @ ''/'')
                   (here @ [(collection, index)]) entered held) (\<lambda>found.
          rbind (links_in_items n c within collection schema shown (Suc index) entries at here entered holder) (\<lambda>more.
          Inr (found @ more))))))"
  by pat_completeness auto
termination
proof (relation "measures [(\<lambda>x. case x of
        Inl (n, c, w, node, _) \<Rightarrow> 2 * size (VMap node) + 1
      | Inr (Inl (n, c, w, node, _)) \<Rightarrow> 2 * size (VMap node)
      | Inr (Inr (n, c, w, coll, s, r, i, entries, _)) \<Rightarrow> 2 * size_list size entries),
    (\<lambda>x. case x of Inl _ \<Rightarrow> 0 | Inr (Inl (n, c, w, node, parts, _)) \<Rightarrow> length parts | Inr (Inr _) \<Rightarrow> 0)]", goal_cases)
qed (auto dest: size_entry)

declare rbind_cong [fundef_cong]
declare links_in.simps [simp del]

definition within_spot :: "spot option \<Rightarrow> node_way option" where
  "within_spot node = (case node of
     None \<Rightarrow> Some []
   | Some (Item way collection index) \<Rightarrow> Some (map (\<lambda>(c, i). (KText c, i)) (way @ [(collection, index)]))
   | Some (Field way fld) \<Rightarrow> None)"

definition inside :: "nat \<Rightarrow> obj \<Rightarrow> val \<Rightarrow> corpus \<Rightarrow> spot option \<Rightarrow> exn + link list" where
  "inside n artifact schema c node = rbind (declared n schema c) (\<lambda>d. rbind (link_references n schema c) (\<lambda>shown.
     links_in n c (within_spot node) artifact shown (d_parts d) [] [] False []))"

definition carried :: "nat \<Rightarrow> obj \<Rightarrow> val \<Rightarrow> corpus \<Rightarrow> exn + link list" where
  "carried n artifact schema c = inside n artifact schema c None"

section \<open>Links as the port takes them\<close>

text \<open>
  \<open>tuple(link.ref["targets"])\<close>; an entry that is not text is the name of no kind, and is left out.
\<close>

definition texts_of :: "val list \<Rightarrow> string list" where
  "texts_of xs = List.map_filter (\<lambda>v. case v of VStr s \<Rightarrow> Some s | _ \<Rightarrow> None) xs"

definition link_kinds :: "val \<Rightarrow> exn + string list" where
  "link_kinds ref = (case ref of
     VMap m \<Rightarrow> (case dget m ''targets'' of
        None \<Rightarrow> Inl (KeyError ''targets'') | Some v \<Rightarrow> rbind (py_iter v) (\<lambda>xs. Inr (texts_of xs)))
   | _ \<Rightarrow> Inl TypeError)"

definition link_read :: "link \<Rightarrow> exn + port_link option" where
  "link_read l = (case lk_target l of
     VStr t \<Rightarrow> (case target t of
        Inl (Refused _) \<Rightarrow> Inr None
      | Inl e \<Rightarrow> Inl e
      | Inr found \<Rightarrow> rbind (link_kinds (lk_ref l)) (\<lambda>kinds.
          Inr (Some (port_link (lk_field l) (lk_place l) (loc_id found) (names_placed (loc_place found)) kinds
                      (Some (lk_holder l))))))
   | _ \<Rightarrow> Inr None)"

definition somes :: "'a option list \<Rightarrow> 'a list" where
  "somes xs = List.map_filter id xs"

fun spread :: "'a option list \<Rightarrow> 'b option list \<Rightarrow> 'b option list" where
  "spread (Some _ # rs) (t # ts) = t # spread rs ts"
| "spread (None # rs) ts = None # spread rs ts"
| "spread _ _ = []"

definition links_told :: "link list \<Rightarrow> exn + (telling \<times> nat) option list" where
  "links_told found = rbind (rall (map link_read found)) (\<lambda>read.
     Inr (spread read (told (map link_key (somes read)))))"

definition link_under :: "artifact_id \<Rightarrow> corpus \<Rightarrow> exn + artifact_id option" where
  "link_under landing c = nearest_type landing c"

definition implicit_link :: "kind \<Rightarrow> port_link" where
  "implicit_link k = (port_link [] [] (type_of k) [] [kind_name TYPE_KIND] (Some [])) \<lparr>l_implicit := True\<rparr>"

definition says_waits :: "(telling \<times> nat) set \<Rightarrow> port_link \<times> (telling \<times> nat) option \<Rightarrow> corpus \<Rightarrow> exn + port_link" where
  "says_waits waited lt c = (case lt of (l, t) \<Rightarrow> rbind (link_under (l_target l) c) (\<lambda>under.
     Inr (l \<lparr>l_under := under, l_waits := (case t of None \<Rightarrow> False | Some x \<Rightarrow> x \<in> waited)\<rparr>)))"

definition handed :: "nat \<Rightarrow> obj \<Rightarrow> corpus \<Rightarrow> obj \<Rightarrow> (telling \<times> nat) set \<Rightarrow> exn + port_link list" where
  "handed n artifact c typed waited = rbind (artifact_kind artifact) (\<lambda>k.
     rbind (case dget typed ''schema'' of None \<Rightarrow> Inl (KeyError ''schema'') | Some s \<Rightarrow> Inr s) (\<lambda>schema.
     rbind (carried n artifact schema c) (\<lambda>found. rbind (rall (map link_read found)) (\<lambda>read.
     let own = somes read
     in rbind (rall (map (\<lambda>lt. says_waits waited lt c) (zip own (told (map link_key own))))) (\<lambda>links.
          Inr (implicit_link k # links))))))"

section \<open>What tells a link is no matter of where it stands\<close>

type_synonym strip = "string \<times> val \<times> val \<times> string"

definition strip :: "link \<Rightarrow> strip" where
  "strip l = (lk_field l, lk_target l, lk_ref l, lk_holder l)"

definition strips :: "exn + link list \<Rightarrow> exn + strip list" where
  "strips r = rbind r (\<lambda>ls. Inr (map strip ls))"

lemma strip_link:
  "strip \<lparr>lk_field = f, lk_place = p, lk_target = t, lk_ref = r, lk_own = own, lk_holder = h\<rparr> = (f, t, r, h)"
  by (simp add: strip_def)

lemma strips_simps [simp]: "strips (Inl e) = Inl e" "strips (Inr ls) = Inr (map strip ls)"
  by (simp_all add: strips_def)

lemma strips_bind: "strips (rbind r f) = rbind r (\<lambda>x. strips (f x))"
  by (cases r) simp_all

lemmas strips_over = strips_bind [where 'a = val] strips_bind [where 'a = "(key \<times> val) list"]
  strips_bind [where 'a = declares] strips_bind [where 'a = "char list"]

lemma strips_append:
  "strips (rbind a (\<lambda>x. rbind b (\<lambda>y. Inr (x @ y)))) = rbind (strips a) (\<lambda>x. rbind (strips b) (\<lambda>y. Inr (x @ y)))"
  by (cases a; cases b) simp_all

lemma strip_listed: "map strip (links_listed fld ref at holder i xs) = map (\<lambda>x. (fld, x, ref, holder)) xs"
  by (induction xs arbitrary: i) (simp_all add: strip_link)

lemma strip_fields: "map strip (links_fields node shown at holder) = map strip (links_fields node shown at' holder)"
proof (induction shown)
  case (Cons r shown)
  obtain k ref where "r = (k, ref)" by (cases r)
  with Cons show ?case by (simp add: strip_listed strip_link split: option.splits val.splits)
qed simp

lemma strips_prepend: "strips (rbind a (\<lambda>x. Inr (ls @ x))) = rbind (strips a) (\<lambda>x. Inr (map strip ls @ x))"
  by (cases a) simp_all

lemma strips_anywhere:
  shows "entered \<Longrightarrow> strips (links_in n c within node shown parts at here entered holder) =
           strips (links_in n c within' node shown parts at' here' True holder)"
    and "entered \<Longrightarrow> strips (links_in_parts n c within node parts at here entered holder) =
           strips (links_in_parts n c within' node parts at' here' True holder)"
    and "entered \<Longrightarrow> strips (links_in_items n c within collection schema shown i entries at here entered holder) =
           strips (links_in_items n c within' collection schema shown i entries at' here' True holder)"
proof (induction n c within node shown parts at here entered holder and n c within node parts at here entered holder
    and n c within collection schema shown i entries at here entered holder
    arbitrary: within' at' here' and within' at' here' and within' at' here'
    rule: links_in_links_in_parts_links_in_items.induct)
  case (1 n c within node shown parts at here entered holder)
  show ?case
    using "1.IH" [OF refl, of within' at' here'] 1(2)
    by (simp add: links_in.simps Let_def strips_prepend strip_fields [of node shown at holder at'])
next
  case (3 n c within node collection part parts at here entered holder)
  show ?case
  proof (cases "list_at node collection")
    case None
    with "3.IH"(1) [OF None, of within' at' here'] 3(4) show ?thesis by simp
  next
    case (Some es)
    show ?thesis
      using "3.IH"(2) [OF Some, of _ _ within' at' here'] "3.IH"(3) [OF Some, of within' at' here'] 3(4) Some
      by (simp add: strips_over strips_append del: list_at_Some)
  qed
next
  case (5 n c within collection schema shown index entry entries at here entered holder)
  show ?case
  proof (cases "map_in entry")
    case None
    with "5.IH"(1) [OF None, of within' at' here'] 5(4) show ?thesis by simp
  next
    case (Some item)
    show ?thesis
      using "5.IH"(2) [OF Some, of _ _ within' "at' @ key_str collection @ ''/'' @ nat_str index @ ''/''"
          "here' @ [(collection, index)]"] "5.IH"(3) [OF Some, of within' at' here'] 5(4) Some
      by (simp add: strips_over strips_append del: map_in_Some)
  qed
qed simp_all

subsection \<open>Items moved in their list\<close>

definition named_entry :: "val \<Rightarrow> bool" where
  "named_entry e = (case map_in e of None \<Rightarrow> True | Some m \<Rightarrow> is_str (dget m ''id''))"

definition item_strips :: "nat \<Rightarrow> corpus \<Rightarrow> key \<Rightarrow> val \<Rightarrow> obj \<Rightarrow> string \<Rightarrow> val \<Rightarrow> exn + strip list" where
  "item_strips n c collection schema shown holder entry = (case map_in entry of None \<Rightarrow> Inr []
   | Some item \<Rightarrow> rbind (declared n schema c) (\<lambda>d. rbind (links_held holder collection item 0) (\<lambda>held.
       strips (links_in n c None item shown (d_parts d) [] [] True held))))"

lemma links_held_named:
  "named_entry (VMap item) \<Longrightarrow> links_held holder collection item i = links_held holder collection item 0"
  by (simp add: named_entry_def map_in_def links_held_def is_str_def Let_def split: option.splits val.splits)

lemma rbind_assoc: "rbind (rbind r f) g = rbind r (\<lambda>x. rbind (f x) g)"
  by (cases r) simp_all

lemma links_items_each:
  "\<forall>e \<in> set entries. named_entry e \<Longrightarrow>
   strips (links_in_items n c within collection schema shown i entries at here True holder) =
     rbind (rall (map (item_strips n c collection schema shown holder) entries)) (\<lambda>ls. Inr (concat ls))"
proof (induction entries arbitrary: i)
  case (Cons e entries)
  show ?case
  proof (cases "map_in e")
    case None
    with Cons show ?thesis by (simp add: item_strips_def rbind_assoc)
  next
    case (Some item)
    then have e: "e = VMap item" by simp
    with Cons.prems have held: "links_held holder collection item i = links_held holder collection item 0"
      by (intro links_held_named) simp
    show ?thesis
      using Cons strips_anywhere(1) [of True n c within item shown _ "at @ key_str collection @ ''/'' @ nat_str i @ ''/''"
          "here @ [(collection, i)]" _ None "[]" "[]"]
      by (simp add: e item_strips_def held strips_over strips_append rbind_assoc)
  qed
qed simp

lemma mset_concat_map: "mset xs = mset ys \<Longrightarrow> mset (concat (map f xs)) = mset (concat (map f ys))"
proof -
  have "mset (concat (map f zs)) = \<Sum>\<^sub># (image_mset (\<lambda>z. mset (f z)) (mset zs))" for zs
    by (induction zs) simp_all
  then show "mset xs = mset ys \<Longrightarrow> ?thesis" by simp
qed

lemma rall_moved:
  assumes "rall (map f xs) = Inr ls" "mset ys = mset xs"
  shows "\<exists>ls'. rall (map f ys) = Inr ls' \<and> mset (concat ls') = mset (concat ls)"
proof -
  define g where "g = (\<lambda>x. projr (f x))"
  from assms(1) have m: "map f xs = map Inr ls" by (simp add: rall_Inr_iff)
  have ls: "ls = map g xs" using arg_cong [OF m, of "map projr"] by (simp add: g_def o_def)
  have "\<forall>x \<in> set xs. f x = Inr (g x)" using m by (simp only: ls map_map map_eq_conv) simp
  then have "map f ys = map Inr (map g ys)" using mset_eq_setD [OF assms(2)] by simp
  then show ?thesis using mset_concat_map [OF assms(2), of g] by (auto simp: rall_Inr_iff ls simp del: map_map)
qed

lemma links_items_moved:
  assumes "\<forall>e \<in> set xs. named_entry e" "mset ys = mset xs"
    and "strips (links_in_items n c within collection schema shown i xs at here True holder) = Inr ls"
  shows "\<exists>ls'. strips (links_in_items n c within collection schema shown i ys at here True holder) = Inr ls' \<and> mset ls' = mset ls"
proof -
  have "\<forall>e \<in> set ys. named_entry e" using assms(1,2) mset_eq_setD by blast
  then show ?thesis using assms rall_moved [OF _ assms(2)] by (fastforce simp: links_items_each results)
qed

lemma links_parts_moved:
  assumes "map_of node k = Some (VList xs)" "\<forall>e \<in> set xs. named_entry e" "mset ys = mset xs"
  shows "strips (links_in_parts n c within node parts at here True holder) = Inr ls \<Longrightarrow>
    \<exists>ls'. strips (links_in_parts n c within (AList.update k (VList ys) node) parts at here True holder) = Inr ls' \<and>
      mset ls' = mset ls"
proof (induction parts arbitrary: ls)
  case (Cons p parts)
  obtain collection part where p: "p = (collection, part)" by (cases p)
  show ?case
  proof (cases "list_at node collection")
    case None
    then have "list_at (AList.update k (VList ys) node) collection = None"
      using assms(1) by (auto simp: list_at_def update_conv' split: option.splits val.splits)
    with None Cons show ?thesis by (simp add: p)
  next
    case (Some es)
    define es' where "es' = (if collection = k then ys else es)"
    have es': "list_at (AList.update k (VList ys) node) collection = Some es'"
      using Some by (simp add: es'_def update_conv')
    from Cons.prems Some obtain s sh l1 l2 where
      l: "item_schema part = Inr s" "link_references n s c = Inr sh"
         "strips (links_in_items n c within collection s sh 0 es at here True holder) = Inr l1"
         "strips (links_in_parts n c within node parts at here True holder) = Inr l2" "ls = l1 @ l2"
      by (auto simp: p strips_over strips_append results simp del: list_at_Some)
    obtain l2' where l2': "strips (links_in_parts n c within (AList.update k (VList ys) node) parts at here True holder) = Inr l2'"
      "mset l2' = mset l2" using Cons.IH [OF l(4)] by blast
    obtain l1' where l1': "strips (links_in_items n c within collection s sh 0 es' at here True holder) = Inr l1'"
      "mset l1' = mset l1"
    proof (cases "collection = k")
      case True
      with Some assms(1) have "es = xs" by simp
      with True l(3) show thesis using links_items_moved [OF assms(2,3)] that by (force simp: es'_def)
    qed (use l(3) that in \<open>simp add: es'_def\<close>)
    show ?thesis using l l1' l2' es' by (simp add: p strips_over strips_append del: list_at_Some)
  qed
qed simp

lemma links_fields_moved:
  assumes "map_of node k = Some (VList xs)" "mset ys = mset xs"
  shows "mset (map strip (links_fields (AList.update k (VList ys) node) shown at holder)) =
    mset (map strip (links_fields node shown at holder))"
proof (induction shown)
  case (Cons r shown)
  obtain f ref where "r = (f, ref)" by (cases r)
  with Cons assms show ?case
    by (cases "f = k") (simp_all add: update_conv' strip_listed)
qed simp

lemma carried_moved:
  assumes "map_of artifact k = Some (VList xs)" "\<forall>e \<in> set xs. named_entry e" "mset ys = mset xs"
    and "carried n artifact schema c = Inr la"
  shows "\<exists>lb. carried n (AList.update k (VList ys) artifact) schema c = Inr lb \<and> mset (map strip lb) = mset (map strip la)"
proof -
  from assms(4) obtain d sh l1 where l: "declared n schema c = Inr d" "link_references n schema c = Inr sh"
    "links_in_parts n c (Some []) artifact (d_parts d) [] [] True [] = Inr l1"
    "la = links_fields artifact sh [] [] @ l1"
    by (auto simp: carried_def inside_def within_spot_def links_in.simps results)
  then have "strips (links_in_parts n c (Some []) artifact (d_parts d) [] [] True []) = Inr (map strip l1)" by simp
  from links_parts_moved [OF assms(1-3) this] obtain l2 where
    "links_in_parts n c (Some []) (AList.update k (VList ys) artifact) (d_parts d) [] [] True [] = Inr l2"
    "mset (map strip l2) = mset (map strip l1)"
    by (auto simp: strips_def results)
  with l links_fields_moved [OF assms(1,3), of sh "[]" "[]"] show ?thesis
    by (auto simp: carried_def inside_def within_spot_def links_in.simps)
qed

text \<open>What tells a link is read from what \<open>strip\<close> keeps of it.\<close>

definition strip_key :: "strip \<Rightarrow> telling option" where
  "strip_key s = (case s of (f, t, r, h) \<Rightarrow> (case t of
     VStr x \<Rightarrow> (case target x of Inr found \<Rightarrow> Some (f, Some h, loc_id found, names_placed (loc_place found)) | _ \<Rightarrow> None)
   | _ \<Rightarrow> None))"

lemma read_key: "link_read l = Inr r \<Longrightarrow> map_option link_key r = strip_key (strip l)"
proof (cases "lk_target l")
  case (VStr t)
  assume r: "link_read l = Inr r"
  show ?thesis
  proof (cases "target t")
    case (Inl e)
    with r VStr show ?thesis by (cases e) (auto simp: link_read_def strip_key_def strip_def)
  next
    case (Inr found)
    show ?thesis
    proof (cases "link_kinds (lk_ref l)")
      case (Inl e)
      with r VStr Inr show ?thesis by (simp add: link_read_def)
    next
      case kinds: (Inr kinds)
      have "r = Some (port_link (lk_field l) (lk_place l) (loc_id found) (names_placed (loc_place found)) kinds
                      (Some (lk_holder l)))"
        using r by (simp add: link_read_def VStr Inr kinds)
      then show ?thesis by (simp add: strip_key_def strip_def VStr Inr port_link_def link_key_def)
    qed
  qed
qed (auto simp: link_read_def strip_key_def strip_def)

lemma reads_stripped: "strip l = strip l' \<Longrightarrow> isl (link_read l) = isl (link_read l')"
  by (auto simp: link_read_def strip_def split: val.splits sum.splits exn.splits)
     (auto simp: rbind_def split: sum.splits)

lemma somes_simps [simp]: "somes [] = []" "somes (None # xs) = somes xs" "somes (Some x # xs) = x # somes xs"
  by (simp_all add: somes_def List.map_filter_simps)

lemma spread_told: "length ts = length (somes rs) \<Longrightarrow> {t. Some t \<in> set (spread rs ts)} = {t. Some t \<in> set ts}"
proof (induction rs arbitrary: ts)
  case (Cons r rs)
  then show ?case by (cases r; cases ts) auto
qed simp

lemma reads_keys:
  "rall (map link_read ls) = Inr rs \<Longrightarrow> map link_key (somes rs) = List.map_filter strip_key (map strip ls)"
proof (induction ls arbitrary: rs)
  case (Cons l ls)
  from Cons.prems obtain r rs' where r: "link_read l = Inr r" "rall (map link_read ls) = Inr rs'" "rs = r # rs'"
    by (auto simp: results)
  with Cons.IH read_key [OF r(1), symmetric] show ?case by (cases r) (simp_all add: List.map_filter_simps)
qed (simp add: List.map_filter_simps)

lemma count_filter_mset:
  "mset xs = mset ys \<Longrightarrow> mset (List.map_filter f xs) = mset (List.map_filter f ys)"
  by (simp add: List.map_filter_def mset_filter)

text \<open>
  C21: when the named items of one of an artifact's collections are put in another order, the links it carries are
  read as before and told exactly as they were, wherever each now stands: so a link that waited is still the very
  link the store held waiting.
\<close>

theorem moved_items_told_alike:
  assumes "map_of artifact k = Some (VList xs)" "\<forall>e \<in> set xs. named_entry e" "mset ys = mset xs"
    and la: "carried n artifact schema c = Inr la" "links_told la = Inr ta"
  shows "\<exists>lb tb. carried n (AList.update k (VList ys) artifact) schema c = Inr lb \<and> links_told lb = Inr tb \<and>
    {t. Some t \<in> set tb} = {t. Some t \<in> set ta}"
proof -
  obtain lb where lb: "carried n (AList.update k (VList ys) artifact) schema c = Inr lb"
    "mset (map strip lb) = mset (map strip la)"
    using carried_moved [OF assms(1-3) la(1)] by blast
  from la(2) obtain ra where ra: "rall (map link_read la) = Inr ra"
    "ta = spread ra (told (map link_key (somes ra)))" by (auto simp: links_told_def results)
  have "\<not> isl (link_read l)" if "l \<in> set lb" for l
  proof -
    have "strip l \<in> strip ` set la" using that lb(2) by (metis image_eqI list.set_map mset_eq_setD)
    then obtain l' where "l' \<in> set la" "strip l = strip l'" by auto
    moreover have "link_read l' \<in> set (map link_read la)" using \<open>l' \<in> set la\<close> by simp
    then have "link_read l' \<in> set (map Inr ra)" unfolding ra(1) [unfolded rall_Inr_iff] .
    then have "\<not> isl (link_read l')" by auto
    ultimately show ?thesis using reads_stripped by blast
  qed
  then have "rall (map link_read lb) = Inr (map (\<lambda>l. projr (link_read l)) lb)" by (simp add: rall_Inr_iff)
  then obtain rb where rb: "rall (map link_read lb) = Inr rb" by blast
  have keys: "mset (map link_key (somes rb)) = mset (map link_key (somes ra))"
    unfolding reads_keys [OF ra(1)] reads_keys [OF rb] by (rule count_filter_mset) (rule lb(2))
  then have "count_list (map link_key (somes rb)) k = count_list (map link_key (somes ra)) k" for k
    by (metis count_mset)
  then have "{t. Some t \<in> set (told (map link_key (somes rb)))} = {t. Some t \<in> set (told (map link_key (somes ra)))}"
    by (auto simp: told_set)
  with lb(1) rb ra show ?thesis by (auto simp: links_told_def spread_told)
qed

definition step_schema :: val where
  "step_schema = VMap [(KText ''parts'', VMap [(KText ''steps'', VMap [(KText ''items'', VMap [(KText ''properties'',
     VMap [(KText ''on'', VMap [(KText ''ref'', VMap [(KText ''targets'', VList [VStr ''https://a.io/t''])])])])])])])]"

definition steps_held :: "val list" where
  "steps_held = [VMap [(KText ''id'', VStr ''a''), (KText ''on'', VStr ''https://a.io/t/x'')],
     VMap [(KText ''id'', VStr ''b''), (KText ''on'', VList [VStr ''https://a.io/t/x'', VStr ''https://a.io/t/y''])]]"

lemma moved_items_told_alike_witness:
  "\<exists>la ta lb tb. carried 3 [(KText ''steps'', VList steps_held)] step_schema empty_corpus = Inr la \<and> links_told la = Inr ta \<and>
     carried 3 (AList.update (KText ''steps'') (VList (rev steps_held)) [(KText ''steps'', VList steps_held)]) step_schema
       empty_corpus = Inr lb \<and> links_told lb = Inr tb \<and> {t. Some t \<in> set tb} = {t. Some t \<in> set ta}"
proof -
  have "\<not> isl (rbind (carried 3 [(KText ''steps'', VList steps_held)] step_schema empty_corpus) links_told)"
    by code_simp
  then obtain la ta where l: "carried 3 [(KText ''steps'', VList steps_held)] step_schema empty_corpus = Inr la"
    "links_told la = Inr ta"
    by (cases "carried 3 [(KText ''steps'', VList steps_held)] step_schema empty_corpus";
        cases "links_told (projr (carried 3 [(KText ''steps'', VList steps_held)] step_schema empty_corpus))") auto
  have "\<forall>e \<in> set steps_held. named_entry e" by (simp add: steps_held_def named_entry_def is_str_def)
  from moved_items_told_alike [OF _ this _ l, of "KText ''steps''" "rev steps_held"] l show ?thesis by auto
qed

section \<open>What is handed\<close>

lemma spread_length: "length (somes rs) = length ts \<Longrightarrow> length (spread rs ts) = length rs"
proof (induction rs arbitrary: ts)
  case (Cons r rs)
  then show ?case by (cases r; cases ts) auto
qed simp

lemma says_waits_Inr:
  "says_waits waited (l, t) c = Inr l' \<longleftrightarrow> (\<exists>under. link_under (l_target l) c = Inr under \<and>
     l' = l \<lparr>l_under := under, l_waits := (case t of None \<Rightarrow> False | Some x \<Rightarrow> x \<in> waited)\<rparr>)"
  by (auto simp: says_waits_def results)

text \<open>
  C20: what is handed opens with the implicit link to the artifact's type, and then gives the links the artifact
  carries that name something, told exactly as \<open>told\<close> tells those it carries, each saying it waits
  exactly when it is told as one of those the store held waiting, and the held type its target sits under.
\<close>

theorem handed_tells:
  assumes "handed n artifact c typed waited = Inr links"
  shows "\<exists>k schema found ta own. artifact_kind artifact = Inr k \<and> dget typed ''schema'' = Some schema \<and>
    carried n artifact schema c = Inr found \<and> links_told found = Inr ta \<and> links = implicit_link k # own \<and>
    {t. Some t \<in> set ta} = {t. Some t \<in> set (told (map link_key own))} \<and>
    (\<forall>i < length own. l_waits (own ! i) = (told (map link_key own) ! i \<in> Some ` waited) \<and>
       nearest_type (l_target (own ! i)) c = Inr (l_under (own ! i)))"
proof -
  from assms obtain k schema found read own where h: "artifact_kind artifact = Inr k" "dget typed ''schema'' = Some schema"
    "carried n artifact schema c = Inr found" "rall (map link_read found) = Inr read"
    "map (\<lambda>lt. says_waits waited lt c) (zip (somes read) (told (map link_key (somes read)))) = map Inr own"
    "links = implicit_link k # own"
    by (auto simp: handed_def results Let_def rall_Inr_iff split: option.splits)
  let ?t = "told (map link_key (somes read))"
  have len: "length own = length (somes read)" using arg_cong [OF h(5), of length] by simp
  have each: "says_waits waited (somes read ! i, ?t ! i) c = Inr (own ! i)" if "i < length own" for i
    using arg_cong [OF h(5), of "\<lambda>xs. xs ! i"] that len by simp
  have key: "link_key (own ! i) = link_key (somes read ! i)" if "i < length own" for i
    using each [OF that] by (auto simp: says_waits_Inr link_key_def)
  have keys: "map link_key own = map link_key (somes read)"
    using len key by (simp add: list_eq_iff_nth_eq)
  have "l_waits (own ! i) = (?t ! i \<in> Some ` waited) \<and> nearest_type (l_target (own ! i)) c = Inr (l_under (own ! i))"
    if "i < length own" for i
    using each [OF that] by (auto simp: says_waits_Inr link_under_def split: option.splits)
  with h keys show ?thesis by (auto simp: links_told_def spread_told)
qed

definition plan_held :: obj where
  "plan_held = [(KText ''id'', VStr ''https://a.io/plan/p''), (KText ''type'', VStr ''https://a.io/plan@1''),
     (KText ''steps'', VList steps_held)]"

lemma handed_tells_witness:
  "\<exists>links own. handed 3 plan_held empty_corpus [(KText ''schema'', step_schema)] {} = Inr links \<and>
     links = implicit_link (Kind ''https://a.io/plan'') # own"
proof -
  have "\<not> isl (handed 3 plan_held empty_corpus [(KText ''schema'', step_schema)] {})" by code_simp
  then obtain links where l: "handed 3 plan_held empty_corpus [(KText ''schema'', step_schema)] {} = Inr links"
    by (cases "handed 3 plan_held empty_corpus [(KText ''schema'', step_schema)] {}") auto
  have "artifact_kind plan_held = Inr (Kind ''https://a.io/plan'')" by code_simp
  with handed_tells [OF l] l show ?thesis by auto
qed

definition any_field :: obj where
  "any_field = [(KText ''properties'', VMap [(KText ''note'', VBool True)])]"

text \<open>
  a field whose schema is \<open>true\<close>, which JSON Schema allows for a value of any kind, is accepted in a type's
  definition, and then no link of any artifact of the type can be read: asking whether it holds \<open>ref\<close> raises
  \<open>TypeError\<close>.
\<close>

lemma boolean_field_never_linked:
  "definition_faults (ArtifactId ''https://a.io/plan'') [(KText ''schema'', VMap any_field)] empty_corpus = Inr [] \<and>
   carried (Suc n) artifact (VMap any_field) c' = Inl TypeError"
proof
  show "definition_faults (ArtifactId ''https://a.io/plan'') [(KText ''schema'', VMap any_field)] empty_corpus = Inr []"
    by code_simp
  show "carried (Suc n) artifact (VMap any_field) c' = Inl TypeError"
    by (simp add: carried_def inside_def link_references_def declared_def any_field_def composition.simps whole_ref_def declared_by_def
        updated_def ref_of_def dict_over_def)
qed

end
