(* ===== verification/KB_Stored.thy ===== *)
theory KB_Stored
  imports KB_Port_Values
begin

text \<open>
  Content as the database keeps it (\<open>sqlite_reads.py\<close>, \<open>encoded\<close> to \<open>_mapping\<close>): JSON, in which a mapping's keys are
  text, so a mapping with a key that is not text, or whose one key is the mark itself, is kept as its pairs under
  the mark. What \<open>json\<close> writes of a JSON value it reads back as the same value, an object's names in order; so a
  stored text is the \<open>json\<close> value here, and reading it applies \<open>_mapping\<close> to each object from the inside out,
  as the decoder's \<open>object_hook\<close> is.
\<close>

datatype json = JNull | JBool bool | JInt int | JFloat string | JStr string
  | JList "json list" | JMap "(string \<times> json) list"

definition PAIRS :: string where "PAIRS = ''~pairs''"

fun scalar_json :: "scalar \<Rightarrow> json" where
  "scalar_json SNull = JNull"
| "scalar_json (SBool b) = JBool b"
| "scalar_json (SInt i) = JInt i"
| "scalar_json (SFloat s) = JFloat s"

fun key_json :: "key \<Rightarrow> json" where
  "key_json (KText s) = JStr s"
| "key_json (KOther k) = scalar_json k"

definition text_key :: "key \<Rightarrow> bool" where
  "text_key k = (case k of KText _ \<Rightarrow> True | KOther _ \<Rightarrow> False)"

fun encodable :: "val \<Rightarrow> json" where
  "encodable VNull = JNull"
| "encodable (VBool b) = JBool b"
| "encodable (VInt i) = JInt i"
| "encodable (VFloat s) = JFloat s"
| "encodable (VStr s) = JStr s"
| "encodable (VList xs) = JList (map encodable xs)"
| "encodable (VMap m) =
     (if list_all (\<lambda>e. text_key (fst e)) m \<and> dkeys m \<noteq> [KText PAIRS]
        then JMap (map (\<lambda>e. (key_str (fst e), encodable (snd e))) m)
      else JMap [(PAIRS, JList (map (\<lambda>e. JList [key_json (fst e), encodable (snd e)]) m))])"

definition encoded :: "obj \<Rightarrow> json" where
  "encoded content = encodable (VMap content)"

text \<open>A value read back as a mapping's key, which must be hashable.\<close>

fun hashed :: "val \<Rightarrow> exn + key" where
  "hashed (VStr s) = Inr (KText s)"
| "hashed VNull = Inr (KOther SNull)"
| "hashed (VBool b) = Inr (KOther (SBool b))"
| "hashed (VInt i) = Inr (KOther (SInt i))"
| "hashed (VFloat s) = Inr (KOther (SFloat s))"
| "hashed _ = Inl TypeError"

text \<open>\<open>for key, item in\<close> what is kept: each a list of two.\<close>

fun unpaired :: "val \<Rightarrow> exn + (key \<times> val)" where
  "unpaired (VList [k, v]) = rbind (hashed k) (\<lambda>key. Inr (key, v))"
| "unpaired (VList _) = Inl (ValueError [])"
| "unpaired _ = Inl TypeError"

definition json_mapping :: "(string \<times> val) list \<Rightarrow> exn + val" where
  "json_mapping read = (case read of
     [(name, inner)] \<Rightarrow>
       if name = PAIRS
         then rbind (py_iter inner) (\<lambda>pairs. rbind (rall (map unpaired pairs)) (\<lambda>entries. Inr (VMap (dict_over [] entries))))
       else Inr (VMap [(KText name, inner)])
   | _ \<Rightarrow> Inr (VMap (dict_over [] (map (\<lambda>(name, v). (KText name, v)) read))))"

fun decoded_val :: "json \<Rightarrow> exn + val" where
  "decoded_val JNull = Inr VNull"
| "decoded_val (JBool b) = Inr (VBool b)"
| "decoded_val (JInt i) = Inr (VInt i)"
| "decoded_val (JFloat s) = Inr (VFloat s)"
| "decoded_val (JStr s) = Inr (VStr s)"
| "decoded_val (JList xs) = rbind (rall (map decoded_val xs)) (\<lambda>vs. Inr (VList vs))"
| "decoded_val (JMap m) =
     rbind (rall (map (\<lambda>e. rbind (decoded_val (snd e)) (\<lambda>v. Inr (fst e, v))) m)) json_mapping"

definition decoded :: "json \<Rightarrow> exn + obj" where
  "decoded stored = rbind (decoded_val stored) (\<lambda>v. case v of VMap m \<Rightarrow> Inr m | _ \<Rightarrow> Inl AttributeError)"

section \<open>What is stored reads back\<close>

lemma dict_over_distinct: "distinct (map fst (a @ b)) \<Longrightarrow> dict_over a b = a @ b"
proof (induction b arbitrary: a)
  case (Cons e b)
  obtain k v where e: "e = (k, v)" by (cases e)
  have "AList.update k v a = a @ [(k, v)]" using Cons.prems e by (induction a) auto
  with Cons e show ?case by (simp add: dict_over_def)
qed (simp add: dict_over_def)

lemma dict_over_fresh [simp]: "distinct (map fst b) \<Longrightarrow> dict_over [] b = b"
  using dict_over_distinct [of "[]" b] by simp

lemma hashed_key: "\<exists>v. decoded_val (key_json k) = Inr v \<and> hashed v = Inr k"
proof (cases k)
  case (KOther s)
  then show ?thesis by (cases s) auto
qed auto

lemma rall_map: "(\<And>x. x \<in> set xs \<Longrightarrow> f x = Inr (g x)) \<Longrightarrow> rall (map f xs) = Inr (map g xs)"
  by (auto simp: rall_Inr_iff)

lemma text_keyed: "list_all (\<lambda>e. text_key (fst e)) m \<Longrightarrow> map (\<lambda>e. (KText (key_str (fst e)), snd e)) m = m"
  by (induction m) (auto simp: text_key_def split: key.splits)

lemma json_mapping_texts:
  assumes "list_all (\<lambda>e. text_key (fst e)) m" "dkeys m \<noteq> [KText PAIRS]" "distinct (map fst m)"
  shows "json_mapping (map (\<lambda>e. (key_str (fst e), snd e)) m) = Inr (VMap m)"
proof -
  have m: "map ((\<lambda>(name, v). (KText name, v)) \<circ> (\<lambda>e. (key_str (fst e), snd e))) m = m"
    using text_keyed [OF assms(1)] by (simp add: o_def)
  consider "m = []" | k v where "m = [(k, v)]" | e f r where "m = e # f # r" by (metis list.exhaust surj_pair)
  then show ?thesis
  proof cases
    case 2
    with assms(1,2) show ?thesis by (cases k) (auto simp: json_mapping_def text_key_def)
  next
    case 3
    with m assms(3) show ?thesis by (simp add: json_mapping_def)
  qed (simp add: json_mapping_def)
qed

lemma json_mapping_pairs:
  assumes "\<And>e. e \<in> set m \<Longrightarrow> unpaired (f e) = Inr e" "distinct (map fst m)"
  shows "json_mapping [(PAIRS, VList (map f m))] = Inr (VMap m)"
proof -
  have "rall (map unpaired (map f m)) = Inr m" using rall_map [of m "\<lambda>e. unpaired (f e)" id] assms(1) by (simp add: o_def)
  with assms(2) show ?thesis by (simp add: json_mapping_def py_iter_def del: map_map)
qed

lemma decoded_encodable: "well_keyed v \<Longrightarrow> decoded_val (encodable v) = Inr v"
proof (induction v)
  case (VList xs)
  then show ?case using rall_map [of xs "\<lambda>x. decoded_val (encodable x)" id] by (simp add: o_def)
next
  case (VMap m)
  have each: "decoded_val (encodable (snd e)) = Inr (snd e)" if "e \<in> set m" for e
    using VMap that by (cases e) auto
  have distinct: "distinct (map fst m)" using VMap.prems by simp
  show ?case
  proof (cases "list_all (\<lambda>e. text_key (fst e)) m \<and> dkeys m \<noteq> [KText PAIRS]")
    case True
    have "rall (map (\<lambda>e. rbind (decoded_val (snd e)) (\<lambda>v. Inr (fst e, v))) (map (\<lambda>e. (key_str (fst e), encodable (snd e))) m))
      = (Inr (map (\<lambda>e. (key_str (fst e), snd e)) m) :: exn + _)"
      unfolding map_map by (rule rall_map) (simp add: each)
    with True distinct show ?thesis by (simp add: json_mapping_texts del: map_map)
  next
    case False
    define kv where "kv e = projr (decoded_val (key_json (fst e)))" for e :: "key \<times> val"
    have kv: "decoded_val (key_json (fst e)) = Inr (kv e) \<and> hashed (kv e) = Inr (fst e)" for e
      using hashed_key [of "fst e"] by (auto simp: kv_def)
    define f where "f e = VList [kv e, snd e]" for e
    have "rall (map decoded_val (map (\<lambda>e. JList [key_json (fst e), encodable (snd e)]) m)) = Inr (map f m)"
      unfolding map_map by (rule rall_map) (simp add: each kv f_def)
    moreover have "json_mapping [(PAIRS, VList (map f m))] = Inr (VMap m)"
      by (rule json_mapping_pairs) (simp_all add: f_def kv distinct)
    moreover have "encodable (VMap m) = JMap [(PAIRS, JList (map (\<lambda>e. JList [key_json (fst e), encodable (snd e)]) m))]"
      by (simp only: encodable.simps False if_False)
    ultimately show ?thesis by (simp del: map_map encodable.simps)
  qed
qed simp_all

text \<open>content reads back from the database as it was written, keys that are not text, and one that is the mark, among it.\<close>

theorem stored_reads_back:
  assumes "well_keyed (VMap content)"
  shows "decoded (encoded content) = Inr content"
  using decoded_encodable [OF assms] by (simp add: decoded_def encoded_def del: encodable.simps)

lemma stored_reads_back_witness:
  "decoded (encoded [(KText ''a'', VMap [(KText ''~pairs'', VInt 1)]), (KOther (SInt 3), VMap [(KOther SNull, VList [VBool True])])])
   = Inr [(KText ''a'', VMap [(KText ''~pairs'', VInt 1)]), (KOther (SInt 3), VMap [(KOther SNull, VList [VBool True])])]"
  by (rule stored_reads_back) simp

end
