(* ===== verification/KB_Sqlite_Reads.thy ===== *)
theory KB_Sqlite_Reads
  imports KB_Stored "HOL-Library.Option_ord" "HOL-Library.Product_Lexorder"
begin

text \<open>
  The SQLite adapter's tables and its reads (\<open>sqlite_store.SCHEMA\<close>, \<open>sqlite_reads.py\<close>, \<open>sqlite_types.py\<close>). A table
  is the list of its rows, a record of its columns; a primary key or a unique column is kept by the writes. FTS5 and
  the text YAML writes of a value are parameters: \<open>matches\<close> says whether a row's words hold one of the words
  asked for, \<open>written\<close> what a field's value is written as. Numbers are unbounded here; SQLite's integers hold 64 bits.
\<close>

section \<open>The tables\<close>

record artifact_row =
  a_id :: string
  a_kind :: string
  a_revision :: int
  a_content :: json

record link_row =
  r_source :: string
  r_ordinal :: nat
  r_field :: string
  r_place :: string
  r_target :: string
  r_part :: string
  r_implicit :: bool
  r_holder :: "string option"

record set_row =
  s_seq :: nat
  s_batch :: "string option"

record version_row =
  v_artifact :: string
  v_landed :: nat
  v_step :: nat
  v_revision :: int
  v_content :: "json option"

record entry_row =
  n_landing :: nat
  n_id :: string
  n_moment :: int
  n_seq :: int
  n_artifact :: string
  n_role :: string
  n_execution :: string
  n_batch :: string
  n_record :: json

record type_row =
  y_id :: string
  y_type :: string
  y_number :: int
  y_revision :: int
  y_title :: string
  y_content :: json

record search_row =
  q_row :: nat
  q_words :: string
  q_artifact :: string
  q_kind :: string
  q_what :: string
  q_name :: string
  q_ordinal :: nat

record db =
  t_artifacts :: "artifact_row list"
  t_parts :: "(string \<times> string) list"
  t_links :: "link_row list"
  t_sets :: "set_row list"
  t_sets_last :: nat
  t_versions :: "version_row list"
  t_entries :: "entry_row list"
  t_types :: "type_row list"
  t_searched :: "(nat \<times> string) list"
  t_search :: "search_row list"

text \<open>\<open>make\<close>: a database with its schema and nothing in it; \<open>t_sets_last\<close> is what AUTOINCREMENT remembers.\<close>

definition made_db :: db where
  "made_db = \<lparr>t_artifacts = [], t_parts = [], t_links = [], t_sets = [], t_sets_last = 0, t_versions = [],
     t_entries = [], t_types = [], t_searched = [], t_search = []\<rparr>"

section \<open>Reads\<close>

definition sq_rows :: "db \<Rightarrow> artifact_id \<Rightarrow> artifact_row list" where
  "sq_rows db a = filter (\<lambda>r. a_id r = iri_of a) (t_artifacts db)"

definition sq_holds :: "db \<Rightarrow> artifact_id \<Rightarrow> bool" where
  "sq_holds db a = (sq_rows db a \<noteq> [])"

definition sq_artifact :: "db \<Rightarrow> artifact_id \<Rightarrow> exn + obj" where
  "sq_artifact db a = (case sq_rows db a of [] \<Rightarrow> Inl (KeyError (iri_of a)) | r # _ \<Rightarrow> decoded (a_content r))"

definition types_read :: "db \<Rightarrow> string \<Rightarrow> (json \<times> int \<times> string) option" where
  "types_read db v = (case filter (\<lambda>r. y_id r = v) (t_types db) of
     [] \<Rightarrow> None | r # _ \<Rightarrow> Some (y_content r, y_revision r, y_title r))"

definition sq_type_version :: "db \<Rightarrow> version \<Rightarrow> exn + type_version" where
  "sq_type_version db v = (case types_read db (version_str v) of
     None \<Rightarrow> Inl (KeyError (version_str v))
   | Some (stored, revision, title) \<Rightarrow> rbind (decoded stored) (\<lambda>content.
       Inr \<lparr>tv_version = v, tv_content = content, tv_revision = revision, tv_title = title\<rparr>))"

definition types_numbers :: "db \<Rightarrow> string \<Rightarrow> int list" where
  "types_numbers db type_id = sort (map y_number (filter (\<lambda>r. y_type r = type_id) (t_types db)))"

definition sq_versions :: "db \<Rightarrow> artifact_id \<Rightarrow> int list" where
  "sq_versions db a = types_numbers db (iri_of a)"

text \<open>Names in \<open>names.order\<close>.\<close>

definition sq_ordered :: "string list \<Rightarrow> artifact_id list" where
  "sq_ordered found = map ArtifactId (sort_key names_order found)"

text \<open>\<open>_holds\<close>: each field named holds the value given, as the text its value is written as.\<close>

definition fields_hold :: "(val \<Rightarrow> string) \<Rightarrow> obj \<Rightarrow> (string \<times> string) list \<Rightarrow> bool" where
  "fields_hold written artifact asked = list_all (\<lambda>(f, v). case dget artifact f of
     None \<Rightarrow> False | Some x \<Rightarrow> written x = v) asked"

definition sq_selected :: "(val \<Rightarrow> string) \<Rightarrow> (string \<times> string) list \<Rightarrow> below_path option \<Rightarrow> kind list \<Rightarrow> artifact_row \<Rightarrow> exn + bool" where
  "sq_selected written asked path leaving r =
     (if a_kind r \<in> kind_name ` set leaving then Inr False
      else if (case path of None \<Rightarrow> False | Some p \<Rightarrow> \<not> selects (below_segments p) (a_id r) (a_kind r)) then Inr False
      else if asked = [] then Inr True
      else rbind (decoded (a_content r)) (\<lambda>content. Inr (fields_hold written content asked)))"

definition sq_ids :: "(val \<Rightarrow> string) \<Rightarrow> db \<Rightarrow> kind option \<Rightarrow> (string \<times> string) list \<Rightarrow> below_path option \<Rightarrow> kind list \<Rightarrow>
    exn + artifact_id list" where
  "sq_ids written db of_kind asked path leaving =
     (let rows = filter (\<lambda>r. case of_kind of None \<Rightarrow> True | Some k \<Rightarrow> a_kind r = kind_name k) (t_artifacts db)
      in rbind (rall (map (sq_selected written asked path leaving) rows)) (\<lambda>chosen.
           Inr (sq_ordered (map (a_id \<circ> fst) (filter snd (zip rows chosen))))))"

definition row_linking :: "link_row \<Rightarrow> linking" where
  "row_linking r = \<lparr>ln_source = ArtifactId (r_source r), ln_field = r_field r, ln_place = r_place r,
     ln_target = ArtifactId (r_target r), ln_part = r_part r, ln_holder = r_holder r\<rparr>"

text \<open>The kind of the artifact holding a link, null for one no row of \<open>artifacts\<close> joins.\<close>

definition source_kind :: "db \<Rightarrow> link_row \<Rightarrow> string option" where
  "source_kind db r = (case sq_rows db (ArtifactId (r_source r)) of [] \<Rightarrow> None | a # _ \<Rightarrow> Some (a_kind a))"

definition kinded :: "db \<Rightarrow> artifact_id \<Rightarrow> string \<Rightarrow> kind option \<Rightarrow> bool \<Rightarrow> (linking \<times> string option) list" where
  "kinded db a fld of_kind implicit =
     map (\<lambda>r. (row_linking r, source_kind db r))
       (filter (\<lambda>r. (fld = [] \<or> r_field r = fld) \<and>
                    (case of_kind of None \<Rightarrow> True | Some k \<Rightarrow> source_kind db r = Some (kind_name k)))
         (sort_key (\<lambda>r. (names_order (r_source r), r_ordinal r))
           (filter (\<lambda>r. r_target r = iri_of a \<and> (implicit \<or> \<not> r_implicit r)) (t_links db))))"

definition links_into :: "db \<Rightarrow> artifact_id \<Rightarrow> string \<Rightarrow> kind option \<Rightarrow> bool \<Rightarrow> linking list" where
  "links_into db a fld of_kind implicit = map fst (kinded db a fld of_kind implicit)"

definition sq_links_in :: "db \<Rightarrow> artifact_id \<Rightarrow> string \<Rightarrow> kind option \<Rightarrow> linking list" where
  "sq_links_in db a fld of_kind = links_into db a fld of_kind False"

text \<open>\<open>inbound\<close>: each source counted once for its kind and field.\<close>

fun inbound_counts :: "(linking \<times> string option) list \<Rightarrow> ((string option \<times> string) \<times> artifact_id) list \<Rightarrow>
    ((string option \<times> string) \<times> nat) list \<Rightarrow> ((string option \<times> string) \<times> nat) list" where
  "inbound_counts [] counted counts = counts"
| "inbound_counts ((each, k) # rest) counted counts =
     (let key = (k, ln_field each) in
      if (key, ln_source each) \<in> set counted then inbound_counts rest counted counts
      else inbound_counts rest ((key, ln_source each) # counted)
             (AList.update key ((case map_of counts key of None \<Rightarrow> 0 | Some n \<Rightarrow> n) + 1) counts))"

definition sq_inbound :: "db \<Rightarrow> artifact_id \<Rightarrow> ((string option \<times> string) \<times> nat) list" where
  "sq_inbound db a = inbound_counts (kinded db a [] None False) [] []"

text \<open>A link lands when its target is held and, where it names a part, the part is.\<close>

definition row_lands :: "db \<Rightarrow> link_row \<Rightarrow> bool" where
  "row_lands db r \<longleftrightarrow> sq_holds db (ArtifactId (r_target r)) \<and>
     (r_part r = [] \<or> (r_target r, r_part r) \<in> set (t_parts db))"

definition sq_waiting :: "db \<Rightarrow> artifact_id option \<Rightarrow> linking list" where
  "sq_waiting db source = map row_linking
     (sort_key (\<lambda>r. (names_order (r_target r), names_order (r_source r), r_ordinal r))
       (filter (\<lambda>r. \<not> r_implicit r \<and> \<not> row_lands db r \<and> (case source of None \<Rightarrow> True | Some a \<Rightarrow> r_source r = iri_of a))
         (t_links db)))"

definition sq_search :: "(string \<Rightarrow> string list \<Rightarrow> bool) \<Rightarrow> db \<Rightarrow> string list \<Rightarrow> kind option \<Rightarrow> bool \<Rightarrow> bool \<Rightarrow> candidate_row list" where
  "sq_search matches db asked of_kind sections in_fields =
     (if asked = [] then []
      else map (\<lambda>r. \<lparr>cd_artifact = ArtifactId (q_artifact r),
               cd_section = (if q_what r = ''section'' then q_name r else []),
               cd_field = (if q_what r = ''field'' then q_name r else [])\<rparr>)
        (filter (\<lambda>r. (q_what r = ''section'' \<and> sections \<or> q_what r = ''field'' \<and> in_fields) \<and>
                     (case of_kind of None \<Rightarrow> True | Some k \<Rightarrow> q_kind r = kind_name k))
          (sort_key (\<lambda>r. (names_order (q_artifact r), q_ordinal r))
            (filter (\<lambda>r. matches (q_words r) asked) (t_search db)))))"

record history_asked =
  h_artifact :: "artifact_id option"
  h_role :: string
  h_execution :: string
  h_since :: "int option"
  h_batch :: string

definition asked_of :: "history_asked \<Rightarrow> entry_row \<Rightarrow> bool" where
  "asked_of h r \<longleftrightarrow> (case h_artifact h of None \<Rightarrow> True | Some a \<Rightarrow> n_artifact r = iri_of a) \<and>
     (h_role h = [] \<or> n_role r = h_role h) \<and> (h_execution h = [] \<or> n_execution r = h_execution h) \<and>
     (case h_since h of None \<Rightarrow> True | Some m \<Rightarrow> m \<le> n_moment r) \<and> (h_batch h = [] \<or> n_batch r = h_batch h)"

definition sq_history :: "db \<Rightarrow> history_asked \<Rightarrow> exn + obj list" where
  "sq_history db h =
     (let rows = filter (asked_of h) (t_entries db)
      in rall (map (decoded \<circ> n_record)
           (if h_artifact h \<noteq> None then sort_key n_landing rows else sort_key (\<lambda>r. (n_moment r, n_landing r)) rows)))"

definition sq_entry_ids :: "db \<Rightarrow> int \<Rightarrow> string list" where
  "sq_entry_ids db at = map n_id (filter (\<lambda>r. n_moment r = at) (t_entries db))"

definition sq_landed_last :: "db \<Rightarrow> string" where
  "sq_landed_last db = (case rev (sort_key n_landing (t_entries db)) of [] \<Rightarrow> [] | r # _ \<Rightarrow> n_id r)"

section \<open>The store as a corpus\<close>

definition sq_corpus :: "(val \<Rightarrow> string) \<Rightarrow> db \<Rightarrow> corpus" where
  "sq_corpus written db = \<lparr>c_holds = sq_holds db,
     c_artifact = (\<lambda>a. case sq_artifact db a of Inl _ \<Rightarrow> None | Inr m \<Rightarrow> Some m),
     c_type_version = (\<lambda>v. case sq_type_version db v of Inl _ \<Rightarrow> None | Inr t \<Rightarrow> Some t),
     c_versions = sq_versions db,
     c_ids = (\<lambda>k. case sq_ids written db k [] None [] of Inl _ \<Rightarrow> [] | Inr found \<Rightarrow> found)\<rparr>"

end
