(* ===== verification/KB_Sqlite.thy ===== *)
theory KB_Sqlite
  imports KB_Sqlite_Reads
begin

text \<open>
  The SQLite adapter's landing of a set (\<open>sqlite_store.py\<close>, \<open>sqlite_checks.py\<close>, \<open>sqlite_search.py\<close> and the writes of
  \<open>sqlite_types.py\<close>). A step over the tables is a function from the database to what it returns or raises and the
  database it leaves, so that what a refused set had written is still there until the savepoint takes it back. A
  connection is the database last committed, the one its open transaction sees, its savepoints, and whether it
  holds the write lock. Where the code goes over a Python set, its members are gone over in the order first given.
\<close>

section \<open>Steps over the tables\<close>

datatype refusal =
    Conflict_at string int int
  | Conflict_ids "string list"
  | Linked "linking list"
  | Unlanded "linking list"
  | Integrity_error string
  | Lock_in_reads
  | Busy_store
  | Raised exn

type_synonym ('s, 'a) act = "'s \<Rightarrow> (refusal + 'a) \<times> 's"

definition act_bind :: "('s, 'a) act \<Rightarrow> ('a \<Rightarrow> ('s, 'b) act) \<Rightarrow> ('s, 'b) act" where
  "act_bind m f s = (case m s of (Inl r, s') \<Rightarrow> (Inl r, s') | (Inr x, s') \<Rightarrow> f x s')"

definition act_refuse :: "refusal \<Rightarrow> ('s, 'a) act" where "act_refuse r s = (Inl r, s)"
definition act_return :: "'a \<Rightarrow> ('s, 'a) act" where "act_return x s = (Inr x, s)"
definition act_read :: "('s \<Rightarrow> 'a) \<Rightarrow> ('s, 'a) act" where "act_read g s = (Inr (g s), s)"
definition act_write :: "('s \<Rightarrow> 's) \<Rightarrow> ('s, unit) act" where "act_write g s = (Inr (), g s)"

fun act_each :: "('x \<Rightarrow> ('s, unit) act) \<Rightarrow> 'x list \<Rightarrow> ('s, unit) act" where
  "act_each f [] = act_return ()"
| "act_each f (x # xs) = act_bind (f x) (\<lambda>_. act_each f xs)"

section \<open>The checks of a set\<close>

definition compared :: "artifact_id \<Rightarrow> int \<Rightarrow> (db, int) act" where
  "compared a read db = (let held = (case sq_rows db a of [] \<Rightarrow> 0 | r # _ \<Rightarrow> a_revision r)
     in (if held \<noteq> read then Inl (Conflict_at (iri_of a) read held) else Inr held, db))"

definition unmoved :: "change list \<Rightarrow> (db, unit) act" where
  "unmoved changes = act_each (\<lambda>(a, read). act_bind (compared a read) (\<lambda>_. act_return ()))
     (once_each (concat (map ch_through changes)))"

definition sq_parts :: "db \<Rightarrow> artifact_id \<Rightarrow> string list" where
  "sq_parts db a = map snd (filter (\<lambda>p. fst p = iri_of a) (t_parts db))"

definition waited_before :: "db \<Rightarrow> artifact_id \<Rightarrow> (telling \<times> nat) set" where
  "waited_before db a = held_waiting (sq_waiting db (Some a))"

definition vouched :: "db \<Rightarrow> port_link \<Rightarrow> bool" where
  "vouched db l = (\<not> l_implicit l \<and> (case l_under l of None \<Rightarrow> False
     | Some nearest \<Rightarrow> iri_of nearest \<in> set (l_kinds l) \<and> sq_holds db nearest))"

definition lands :: "db \<Rightarrow> port_link \<Rightarrow> (telling \<times> nat) option \<Rightarrow> (telling \<times> nat) set \<Rightarrow> bool" where
  "lands db l as_told waited = (case sq_rows db (l_target l) of
     [] \<Rightarrow> vouched db l
   | r # _ \<Rightarrow>
       if a_kind r \<notin> set (l_kinds l) then False
       else if l_part l = [] \<or> l_part l \<in> set (sq_parts db (l_target l)) then True
       else l_imported l \<or> (l_waits l \<and> (case as_told of None \<Rightarrow> False | Some t \<Rightarrow> t \<in> waited)))"

definition last_changes :: "change list \<Rightarrow> (artifact_id \<times> change) list" where
  "last_changes changes = dict_over [] (map (\<lambda>ch. (ch_artifact ch, ch)) changes)"

definition unlanded_links :: "db \<Rightarrow> change list \<Rightarrow> (artifact_id \<Rightarrow> (telling \<times> nat) set) \<Rightarrow> linking list" where
  "unlanded_links db changes waited = concat (map (\<lambda>(a, ch).
     if ch_content ch = None then []
     else map (\<lambda>(l, t). \<lparr>ln_source = a, ln_field = l_field l, ln_place = l_place l, ln_target = l_target l,
                 ln_part = l_part l, ln_holder = Some []\<rparr>)
       (filter (\<lambda>(l, t). \<not> lands db l t (waited a)) (zip (ch_links ch) (told (map link_key (ch_links ch))))))
     (last_changes changes))"

type_synonym before = "(artifact_id \<times> (int \<times> string list)) list"

definition broken_links :: "db \<Rightarrow> change list \<Rightarrow> before \<Rightarrow> linking list" where
  "broken_links db changes before = concat (map (\<lambda>(a, held, parts).
     let gone = (if sq_holds db a then Some (filter (\<lambda>p. p \<notin> set (sq_parts db a)) parts) else None)
     in if held = 0 then []
        else filter (\<lambda>l. ln_source l \<notin> fst ` set (last_changes changes) \<and>
               (case gone of None \<Rightarrow> True | Some ps \<Rightarrow> ln_part l \<in> set ps))
             (links_into db a [] None True)) before)"

definition integral :: "change list \<Rightarrow> before \<Rightarrow> (artifact_id \<Rightarrow> (telling \<times> nat) set) \<Rightarrow> (db, unit) act" where
  "integral changes before waited db =
     (let unlanded = unlanded_links db changes waited; linked = broken_links db changes before
      in (if unlanded \<noteq> [] then Inl (Unlanded unlanded)
          else if linked \<noteq> [] then Inl (Linked linked) else Inr (), db))"

definition unheld :: "entry list \<Rightarrow> (db, unit) act" where
  "unheld entries db =
     (let ids = map e_id entries; held = filter (\<lambda>i. i \<in> set ids) (map n_id (t_entries db))
      in (if held \<noteq> [] \<or> \<not> distinct ids then Inl (Conflict_ids (if held \<noteq> [] then held else ids)) else Inr (), db))"

section \<open>The writes of a set\<close>

definition unsearched :: "string \<Rightarrow> db \<Rightarrow> db" where
  "unsearched name db = db
     \<lparr>t_search := filter (\<lambda>r. (q_row r, name) \<notin> set (t_searched db)) (t_search db),
      t_searched := filter (\<lambda>r. snd r \<noteq> name) (t_searched db)\<rparr>"

definition searchable :: "string \<Rightarrow> string \<Rightarrow> (string \<times> string \<times> string) list \<Rightarrow> db \<Rightarrow> db" where
  "searchable name kind_text rows db =
     (let last = (if t_searched db = [] then 0 else Max (set (map fst (t_searched db))));
          numbered = map (\<lambda>(ordinal, row). (last + ordinal + 1, ordinal, row)) (enum_from 0 rows)
      in db \<lparr>t_searched := t_searched db @ map (\<lambda>(row, _, _). (row, name)) numbered,
             t_search := t_search db @ map (\<lambda>(row, ordinal, what, label, words).
               \<lparr>q_row = row, q_words = words, q_artifact = name, q_kind = kind_text, q_what = what, q_name = label,
                q_ordinal = ordinal\<rparr>) numbered\<rparr>)"

definition types_made :: "string \<Rightarrow> string \<Rightarrow> int \<Rightarrow> int \<Rightarrow> string \<Rightarrow> json \<Rightarrow> (db, unit) act" where
  "types_made type_id version number revision title stored db =
     (if version \<in> set (map y_id (t_types db)) then (Inl (Integrity_error ''type_versions.id''), db)
      else (Inr (), db \<lparr>t_types := t_types db @ [\<lparr>y_id = version, y_type = type_id, y_number = number,
             y_revision = revision, y_title = title, y_content = stored\<rparr>]\<rparr>))"

definition types_removed :: "string \<Rightarrow> db \<Rightarrow> db" where
  "types_removed type_id db = db \<lparr>t_types := filter (\<lambda>r. y_type r \<noteq> type_id) (t_types db)\<rparr>"

definition relinked :: "artifact_id \<Rightarrow> port_link list \<Rightarrow> db \<Rightarrow> db" where
  "relinked a links db = db \<lparr>t_links := filter (\<lambda>r. r_source r \<noteq> iri_of a) (t_links db) @
     map (\<lambda>(ordinal, l). \<lparr>r_source = iri_of a, r_ordinal = ordinal, r_field = l_field l, r_place = l_place l,
            r_target = iri_of (l_target l), r_part = l_part l, r_implicit = l_implicit l, r_holder = l_holder l\<rparr>)
       (enum_from 0 links)\<rparr>"

definition taken_out :: "change \<Rightarrow> nat \<Rightarrow> nat \<Rightarrow> db \<Rightarrow> db" where
  "taken_out ch landed step db =
     (let name = iri_of (ch_artifact ch);
          db = unsearched name db;
          db = db \<lparr>t_parts := filter (\<lambda>p. fst p \<noteq> name) (t_parts db),
                   t_artifacts := filter (\<lambda>r. a_id r \<noteq> name) (t_artifacts db)\<rparr>;
          db = relinked (ch_artifact ch) (if ch_content ch = None then [] else ch_links ch) db
      in db \<lparr>t_versions := t_versions db @ [\<lparr>v_artifact = name, v_landed = landed, v_step = step,
              v_revision = ch_revision ch, v_content = map_option encoded (ch_content ch)\<rparr>]\<rparr>)"

definition put_in :: "change \<Rightarrow> kind \<Rightarrow> json \<Rightarrow> db \<Rightarrow> db" where
  "put_in ch k stored db =
     (let name = iri_of (ch_artifact ch);
          db = db \<lparr>t_artifacts := t_artifacts db @ [\<lparr>a_id = name, a_kind = kind_name k,
                     a_revision = ch_revision ch, a_content = stored\<rparr>],
                   t_parts := t_parts db @ map (\<lambda>p. (name, p)) (once_each (ch_parts ch))\<rparr>
      in searchable name (kind_name k) (ch_searched ch) db)"

definition set_written :: "change \<Rightarrow> nat \<Rightarrow> nat \<Rightarrow> (db, unit) act" where
  "set_written ch landed step = act_bind (act_write (taken_out ch landed step)) (\<lambda>_.
     case ch_content ch of
       None \<Rightarrow> act_write (types_removed (iri_of (ch_artifact ch)))
     | Some content \<Rightarrow> (case ch_kind ch of
         None \<Rightarrow> act_refuse (Raised AttributeError)
       | Some k \<Rightarrow> act_bind (act_write (put_in ch k (encoded content))) (\<lambda>_. case ch_version ch of
             None \<Rightarrow> act_return ()
           | Some v \<Rightarrow> types_made (iri_of (ch_artifact ch)) (version_str (vd_version v))
               (version_number (vd_version v)) (ch_revision ch) (vd_title v) (encoded content))))"

definition set_added :: "entry list \<Rightarrow> (db, nat) act" where
  "set_added entries db =
     (let batch = (case entries of [] \<Rightarrow> None | e # _ \<Rightarrow> Some (e_batch e)); seq = t_sets_last db + 1
      in if batch \<noteq> None \<and> batch \<in> set (map s_batch (t_sets db)) then (Inl (Integrity_error ''sets.batch''), db)
         else (Inr seq, db \<lparr>t_sets := t_sets db @ [\<lparr>s_seq = seq, s_batch = batch\<rparr>], t_sets_last := seq\<rparr>))"

definition next_landing :: "db \<Rightarrow> nat" where
  "next_landing db = (if t_entries db = [] then 1 else Max (set (map n_landing (t_entries db))) + 1)"

definition entry_added :: "entry \<Rightarrow> (db, unit) act" where
  "entry_added e db =
     (if e_id e \<in> set (map n_id (t_entries db)) then (Inl (Integrity_error ''entries.id''), db)
      else (Inr (), db \<lparr>t_entries := t_entries db @ [\<lparr>n_landing = next_landing db, n_id = e_id e, n_moment = e_at e,
             n_seq = e_seq e, n_artifact = e_artifact e, n_role = e_role e, n_execution = e_execution e,
             n_batch = e_batch e, n_record = encoded (e_record e)\<rparr>]\<rparr>))"

definition recorded :: "entry list \<Rightarrow> (db, unit) act" where
  "recorded entries = act_each entry_added entries"

section \<open>Landing a set\<close>

text \<open>\<open>before.setdefault\<close>: what an artifact stood at when the set first came to it.\<close>

definition setdefault :: "artifact_id \<Rightarrow> int \<times> string list \<Rightarrow> before \<Rightarrow> before" where
  "setdefault a found before = (if a \<in> fst ` set before then before else before @ [(a, found)])"

fun changes_written :: "nat \<Rightarrow> nat \<Rightarrow> change list \<Rightarrow> before \<Rightarrow> (db, before) act" where
  "changes_written landed step [] before = act_return before"
| "changes_written landed step (ch # changes) before =
     act_bind (compared (ch_artifact ch) (ch_read ch)) (\<lambda>held.
     act_bind (act_read (\<lambda>db. sq_parts db (ch_artifact ch))) (\<lambda>parts.
     act_bind (set_written ch landed step) (\<lambda>_.
     changes_written landed (Suc step) changes (setdefault (ch_artifact ch) (held, parts) before))))"

definition land_set :: "change list \<Rightarrow> entry list \<Rightarrow> (db, unit) act" where
  "land_set changes entries =
     act_bind (unheld entries) (\<lambda>_.
     act_bind (set_added entries) (\<lambda>landed.
     act_bind (unmoved changes) (\<lambda>_.
     act_bind (act_read waited_before) (\<lambda>waited.
     act_bind (changes_written landed 0 changes []) (\<lambda>before.
     act_bind (integral changes before waited) (\<lambda>_.
     recorded entries))))))"

section \<open>The connection\<close>

record conn =
  k_committed :: db
  k_open :: "db option"
  k_saved :: "db list"
  k_locked :: bool

definition opened_db :: "db \<Rightarrow> conn" where
  "opened_db db = \<lparr>k_committed = db, k_open = None, k_saved = [], k_locked = False\<rparr>"

text \<open>The database the connection's reads see.\<close>

definition view :: "conn \<Rightarrow> db" where
  "view c = (case k_open c of None \<Rightarrow> k_committed c | Some db \<Rightarrow> db)"

definition sql_begin :: "conn \<Rightarrow> conn" where "sql_begin c = c \<lparr>k_open := Some (k_committed c), k_saved := []\<rparr>"
definition sql_commit :: "conn \<Rightarrow> conn" where "sql_commit c = c \<lparr>k_committed := view c, k_open := None, k_saved := []\<rparr>"
definition sql_rollback :: "conn \<Rightarrow> conn" where "sql_rollback c = c \<lparr>k_open := None, k_saved := []\<rparr>"
definition sql_savepoint :: "conn \<Rightarrow> conn" where "sql_savepoint c = c \<lparr>k_saved := view c # k_saved c\<rparr>"
definition sql_release :: "conn \<Rightarrow> conn" where "sql_release c = c \<lparr>k_saved := tl (k_saved c)\<rparr>"
definition sql_rollback_to :: "conn \<Rightarrow> conn" where "sql_rollback_to c = c \<lparr>k_open := Some (hd (k_saved c))\<rparr>"

definition on_db :: "(db, 'a) act \<Rightarrow> (conn, 'a) act" where
  "on_db m c = (let (r, db) = m (view c)
     in (r, if k_open c = None then c \<lparr>k_committed := db\<rparr> else c \<lparr>k_open := Some db\<rparr>))"

definition saved :: "(conn, 'a) act \<Rightarrow> (conn, 'a) act" where
  "saved body c = (case body (sql_savepoint c) of
     (Inr x, c') \<Rightarrow> (Inr x, sql_release c')
   | (Inl r, c') \<Rightarrow> (Inl r, sql_release (sql_rollback_to c')))"

text \<open>\<open>exclusive\<close>; \<open>other\<close> says another connection held the write lock for as long as SQLite waits for it.\<close>

definition exclusive :: "bool \<Rightarrow> (conn, 'a) act \<Rightarrow> (conn, 'a) act" where
  "exclusive other body c =
     (if k_locked c then body c
      else if k_open c \<noteq> None then (Inl Lock_in_reads, c)
      else if other then (Inl Busy_store, c)
      else case body ((sql_begin c) \<lparr>k_locked := True\<rparr>) of
        (Inr x, c') \<Rightarrow> (Inr x, (sql_commit c') \<lparr>k_locked := False\<rparr>)
      | (Inl r, c') \<Rightarrow> (Inl r, (if k_open c' \<noteq> None then sql_rollback c' else c') \<lparr>k_locked := False\<rparr>))"

definition at_one_moment :: "(conn, 'a) act \<Rightarrow> (conn, 'a) act" where
  "at_one_moment body c =
     (if k_open c \<noteq> None then body c
      else (case body (sql_begin c) of (r, c') \<Rightarrow> (r, if k_open c' \<noteq> None then sql_commit c' else c')))"

definition land :: "bool \<Rightarrow> change list \<Rightarrow> entry list \<Rightarrow> (conn, unit) act" where
  "land other changes entries = exclusive other (saved (on_db (land_set changes entries)))"

end
