(* ===== verification/KB_Sqlite_Land.thy ===== *)
theory KB_Sqlite_Land
  imports KB_Sqlite
begin

text \<open>
  What a landing leaves: a refused set leaves the connection as it was; a set that lands read every artifact at
  the revision it stood at, leaves the artifacts the map its changes make, breaks no link from outside it, and only
  adds to the history. The tables are taken one by one, each as one lemma over the changes written.
\<close>

section \<open>Steps, unfolded\<close>

lemma act_bind_Inr [results]: "act_bind m f s = (Inr y, s'') \<longleftrightarrow> (\<exists>x s'. m s = (Inr x, s') \<and> f x s' = (Inr y, s''))"
  by (auto simp: act_bind_def split: prod.splits sum.splits)

lemma act_return_Inr [results]: "act_return x s = (Inr y, s') \<longleftrightarrow> y = x \<and> s' = s"
  by (auto simp: act_return_def)

lemmas acts = act_bind_def act_refuse_def act_return_def act_read_def act_write_def

definition held_revision :: "db \<Rightarrow> artifact_id \<Rightarrow> int" where
  "held_revision db a = (case sq_rows db a of [] \<Rightarrow> 0 | r # _ \<Rightarrow> a_revision r)"

lemma compared_Inr [results]: "compared a read db = (Inr held, db') \<longleftrightarrow> db' = db \<and> held = read \<and> held_revision db a = read"
  by (auto simp: compared_def held_revision_def Let_def)

lemma unheld_Inr [results]:
  "unheld entries db = (Inr u, db') \<longleftrightarrow>
     db' = db \<and> set (map n_id (t_entries db)) \<inter> set (map e_id entries) = {} \<and> distinct (map e_id entries)"
  by (auto simp: unheld_def Let_def filter_empty_conv)

lemma integral_Inr [results]:
  "integral changes before waited db = (Inr u, db') \<longleftrightarrow>
     db' = db \<and> unlanded_links db changes waited = [] \<and> broken_links db changes before = []"
  by (auto simp: integral_def Let_def)

text \<open>What a set's row leaves of every other table, and a change written.\<close>

definition tables :: "db \<Rightarrow> artifact_row list \<times> (string \<times> string) list \<times> link_row list" where
  "tables db = (t_artifacts db, t_parts db, t_links db)"

lemma set_added_Inr:
  "set_added entries db = (Inr landed, db') \<Longrightarrow>
     tables db' = tables db \<and> t_entries db' = t_entries db \<and> t_versions db' = t_versions db \<and> t_types db' = t_types db"
  by (auto simp: set_added_def Let_def tables_def split: if_splits)

definition artifact_rows :: "change \<Rightarrow> artifact_row list" where
  "artifact_rows ch = (case ch_content ch of None \<Rightarrow> [] | Some content \<Rightarrow> (case ch_kind ch of None \<Rightarrow> []
     | Some k \<Rightarrow> [\<lparr>a_id = iri_of (ch_artifact ch), a_kind = kind_name k, a_revision = ch_revision ch,
                a_content = encoded content\<rparr>]))"

definition part_rows :: "change \<Rightarrow> (string \<times> string) list" where
  "part_rows ch = (if ch_content ch = None then [] else map (\<lambda>p. (iri_of (ch_artifact ch), p)) (once_each (ch_parts ch)))"

definition link_rows :: "change \<Rightarrow> link_row list" where
  "link_rows ch = (if ch_content ch = None then [] else
     map (\<lambda>(ordinal, l). \<lparr>r_source = iri_of (ch_artifact ch), r_ordinal = ordinal, r_field = l_field l, r_place = l_place l,
            r_target = iri_of (l_target l), r_part = l_part l, r_implicit = l_implicit l, r_holder = l_holder l\<rparr>)
       (enum_from 0 (ch_links ch)))"

lemma enum_from_Nil [simp]: "enum_from n xs = [] \<longleftrightarrow> xs = []"
  by (cases xs) simp_all

lemma set_written_Inr:
  assumes "set_written ch landed step db = (Inr u, db')"
  shows "t_artifacts db' = filter (\<lambda>r. a_id r \<noteq> iri_of (ch_artifact ch)) (t_artifacts db) @ artifact_rows ch"
    and "t_parts db' = filter (\<lambda>p. fst p \<noteq> iri_of (ch_artifact ch)) (t_parts db) @ part_rows ch"
    and "t_links db' = filter (\<lambda>r. r_source r \<noteq> iri_of (ch_artifact ch)) (t_links db) @ link_rows ch"
    and "t_entries db' = t_entries db"
    and "t_versions db' = t_versions db @ [\<lparr>v_artifact = iri_of (ch_artifact ch), v_landed = landed, v_step = step,
           v_revision = ch_revision ch, v_content = map_option encoded (ch_content ch)\<rparr>]"
    and "ch_content ch \<noteq> None \<longrightarrow> ch_kind ch \<noteq> None"
  using assms
  by (auto simp: set_written_def acts taken_out_def put_in_def types_made_def types_removed_def unsearched_def
      searchable_def relinked_def Let_def artifact_rows_def part_rows_def link_rows_def
      split: option.splits if_splits)

definition source_rows :: "db \<Rightarrow> artifact_id \<Rightarrow> link_row list" where
  "source_rows db a = filter (\<lambda>r. r_source r = iri_of a) (t_links db)"

lemma iri_of_eq [simp]: "iri_of a = iri_of b \<longleftrightarrow> a = b"
  by (cases a; cases b) simp

text \<open>A change written leaves every other artifact's rows as they were, and its own as it gives them.\<close>

lemma set_written_rows:
  assumes "set_written ch landed step db = (Inr u, db')"
  shows "sq_rows db' a = (if a = ch_artifact ch then artifact_rows ch else sq_rows db a)"
    and "sq_parts db' a = (if a = ch_artifact ch then map snd (part_rows ch) else sq_parts db a)"
    and "source_rows db' a = (if a = ch_artifact ch then link_rows ch else source_rows db a)"
proof -
  have "a_id r = iri_of (ch_artifact ch)" if "r \<in> set (artifact_rows ch)" for r
    using that by (auto simp: artifact_rows_def split: option.splits)
  then have rows: "filter (\<lambda>r. a_id r = iri_of a) (artifact_rows ch) = (if a = ch_artifact ch then artifact_rows ch else [])"
    by (auto simp: filter_id_conv filter_empty_conv)
  have "fst p = iri_of (ch_artifact ch)" if "p \<in> set (part_rows ch)" for p
    using that by (auto simp: part_rows_def split: if_splits)
  then have parts: "filter (\<lambda>p. fst p = iri_of a) (part_rows ch) = (if a = ch_artifact ch then part_rows ch else [])"
    by (auto simp: filter_id_conv filter_empty_conv)
  have "r_source r = iri_of (ch_artifact ch)" if "r \<in> set (link_rows ch)" for r
    using that by (auto simp: link_rows_def split: if_splits)
  then have links: "filter (\<lambda>r. r_source r = iri_of a) (link_rows ch) = (if a = ch_artifact ch then link_rows ch else [])"
    by (auto simp: filter_id_conv filter_empty_conv)
  note w = set_written_Inr [OF assms]
  show "sq_rows db' a = (if a = ch_artifact ch then artifact_rows ch else sq_rows db a)"
    by (auto simp: sq_rows_def w(1) rows filter_empty_conv intro!: filter_cong)
  show "sq_parts db' a = (if a = ch_artifact ch then map snd (part_rows ch) else sq_parts db a)"
    by (auto simp: sq_parts_def w(2) parts filter_empty_conv intro!: arg_cong [where f = "map snd"] filter_cong)
  show "source_rows db' a = (if a = ch_artifact ch then link_rows ch else source_rows db a)"
    by (auto simp: source_rows_def w(3) links filter_empty_conv intro!: filter_cong)
qed

lemma changes_written_Cons:
  "changes_written landed step (ch # changes) before db = (Inr before', db') \<longleftrightarrow>
     held_revision db (ch_artifact ch) = ch_read ch \<and>
     (\<exists>db1. set_written ch landed step db = (Inr (), db1) \<and>
        changes_written landed (Suc step) changes
          (setdefault (ch_artifact ch) (held_revision db (ch_artifact ch), sq_parts db (ch_artifact ch)) before) db1
          = (Inr before', db'))"
  by (auto simp: results act_read_def)

text \<open>The last change of an artifact in a set.\<close>

definition last_change :: "change list \<Rightarrow> artifact_id \<Rightarrow> change option" where
  "last_change changes a = map_of (rev (map (\<lambda>ch. (ch_artifact ch, ch)) changes)) a"

lemma last_change_Cons: "last_change (ch # changes) a =
    (case last_change changes a of Some x \<Rightarrow> Some x | None \<Rightarrow> if a = ch_artifact ch then Some ch else None)"
  by (auto simp: last_change_def map_of_append map_add_def split: option.splits)

lemma last_change_None: "last_change changes a = None \<longleftrightarrow> a \<notin> ch_artifact ` set changes"
  by (induction changes) (auto simp: last_change_Cons last_change_def split: option.splits)

lemma last_change_in: "last_change changes a = Some ch \<Longrightarrow> ch \<in> set changes \<and> ch_artifact ch = a"
  by (auto simp: last_change_def dest!: map_of_SomeD)

lemma map_of_last_changes: "map_of (last_changes changes) a = last_change changes a"
  by (auto simp: last_changes_def map_of_dict_over last_change_def split: option.splits)

lemma distinct_last_changes: "distinct (map fst (last_changes changes))"
  by (simp add: last_changes_def distinct_dict_over)

lemma last_changes_set: "(a, ch) \<in> set (last_changes changes) \<longleftrightarrow> last_change changes a = Some ch"
  by (metis distinct_last_changes map_of_last_changes map_of_eq_Some_iff)

lemma last_changes_fst: "fst ` set (last_changes changes) = ch_artifact ` set changes"
proof -
  have "fst ` set (last_changes changes) = dom (map_of (last_changes changes))" by (simp add: dom_map_of_conv_image_fst)
  also have "\<dots> = ch_artifact ` set changes" using last_change_None by (auto simp: map_of_last_changes dom_def)
  finally show ?thesis .
qed

lemma changes_written_rows:
  assumes "changes_written landed step changes before db = (Inr before', db')"
  shows "sq_rows db' a = (case last_change changes a of None \<Rightarrow> sq_rows db a | Some ch \<Rightarrow> artifact_rows ch)"
    and "sq_parts db' a = (case last_change changes a of None \<Rightarrow> sq_parts db a | Some ch \<Rightarrow> map snd (part_rows ch))"
    and "source_rows db' a = (case last_change changes a of None \<Rightarrow> source_rows db a | Some ch \<Rightarrow> link_rows ch)"
  using assms
  by (induction changes arbitrary: step before db)
     (auto simp: act_return_def last_change_def [of "[]"] changes_written_Cons last_change_Cons set_written_rows
       simp del: changes_written.simps(2) split: option.splits)

lemma setdefault_mono: "set before \<subseteq> set (setdefault a x before)"
  by (auto simp: setdefault_def)

lemma changes_written_before_mono:
  "changes_written landed step changes before db = (Inr before', db') \<Longrightarrow> set before \<subseteq> set before'"
  using setdefault_mono
  by (induction changes arbitrary: step before db)
     (fastforce simp: act_return_def changes_written_Cons simp del: changes_written.simps(2))+

lemma changes_written_before:
  assumes "changes_written landed step changes before db = (Inr before', db')" "a \<in> ch_artifact ` set changes"
    and "a \<notin> fst ` set before"
  shows "(a, (held_revision db a, sq_parts db a)) \<in> set before'"
  using assms
proof (induction changes arbitrary: step before db)
  case (Cons ch changes)
  let ?found = "(held_revision db (ch_artifact ch), sq_parts db (ch_artifact ch))"
  from Cons.prems(1) obtain db1 where w: "set_written ch landed step db = (Inr (), db1)"
    and rest: "changes_written landed (Suc step) changes (setdefault (ch_artifact ch) ?found before) db1 = (Inr before', db')"
    by (auto simp: changes_written_Cons simp del: changes_written.simps(2))
  show ?case
  proof (cases "a = ch_artifact ch")
    case True
    with Cons.prems(3) have "(a, ?found) \<in> set (setdefault (ch_artifact ch) ?found before)"
      by (auto simp: setdefault_def)
    with True changes_written_before_mono [OF rest] show ?thesis by auto
  next
    case False
    then have "held_revision db1 a = held_revision db a" "sq_parts db1 a = sq_parts db a"
      using set_written_rows [OF w, of a] by (simp_all add: held_revision_def)
    moreover have "a \<notin> fst ` set (setdefault (ch_artifact ch) ?found before)"
      using False Cons.prems(3) by (auto simp: setdefault_def)
    ultimately show ?thesis using Cons.IH [OF rest] Cons.prems(2) False by auto
  qed
qed simp

lemma entry_added_tables:
  "recorded entries db = (Inr u, db') \<Longrightarrow> tables db' = tables db \<and> t_versions db' = t_versions db \<and> t_types db' = t_types db"
  unfolding recorded_def
proof (induction entries arbitrary: db)
  case (Cons e entries)
  from Cons.prems obtain db1 where e: "entry_added e db = (Inr (), db1)" "act_each entry_added entries db1 = (Inr u, db')"
    by (auto simp: results)
  from e(1) have "tables db1 = tables db \<and> t_versions db1 = t_versions db \<and> t_types db1 = t_types db"
    by (auto simp: entry_added_def tables_def split: if_splits)
  with Cons.IH [OF e(2)] show ?case by simp
qed (simp add: act_return_def)

lemma of_tables:
  assumes "tables db' = tables db"
  shows "sq_rows db' a = sq_rows db a" "sq_parts db' a = sq_parts db a" "source_rows db' a = source_rows db a"
    "held_revision db' a = held_revision db a" "sq_holds db' a = sq_holds db a" "row_lands db' r = row_lands db r"
  using assms
  by (simp_all add: tables_def sq_rows_def sq_parts_def source_rows_def held_revision_def sq_holds_def row_lands_def)

text \<open>A set landed: what its checks found, and the database its changes left.\<close>

lemma land_set_Inr:
  assumes "land_set changes entries db = (Inr u, db')"
  obtains db1 db2 landed before where
    "set (map n_id (t_entries db)) \<inter> set (map e_id entries) = {}" "distinct (map e_id entries)"
    "set_added entries db = (Inr landed, db1)" "tables db1 = tables db"
    "unmoved changes db1 = (Inr (), db1)"
    "changes_written landed 0 changes [] db1 = (Inr before, db2)"
    "unlanded_links db2 changes (waited_before db1) = []" "broken_links db2 changes before = []"
    "recorded entries db2 = (Inr (), db')" "tables db' = tables db2"
proof -
  have same: "s' = s" if "unmoved changes s = (Inr v, s')" for s s' v
  proof -
    have "s' = s" if "act_each (\<lambda>(a, read). act_bind (compared a read) (\<lambda>_. act_return ())) xs s = (Inr v, s')" for xs and s s' v
      using that by (induction xs arbitrary: s) (auto simp: results act_return_def)
    with that show ?thesis by (simp add: unmoved_def)
  qed
  show ?thesis
    using assms same set_added_Inr entry_added_tables that by (fastforce simp: land_set_def results act_read_def)
qed

section \<open>No landing breaks a link from outside it\<close>

text \<open>
  What every landing keeps of the tables: a name is held once, at a revision other than 0, every link is held by
  an artifact held, and the artifact of its type, which its implicit link names, is held. A set of kb's gives
  what it leaves a revision other than 0.
\<close>

definition db_ok :: "db \<Rightarrow> bool" where
  "db_ok db \<longleftrightarrow> distinct (map a_id (t_artifacts db)) \<and> (\<forall>r \<in> set (t_artifacts db). a_revision r \<noteq> 0) \<and>
     (\<forall>r \<in> set (t_links db). sq_holds db (ArtifactId (r_source r)) \<and>
        (r_implicit r \<longrightarrow> sq_holds db (ArtifactId (r_target r))))"

definition revised :: "change list \<Rightarrow> bool" where
  "revised changes \<longleftrightarrow> (\<forall>ch \<in> set changes. ch_content ch \<noteq> None \<longrightarrow> ch_revision ch \<noteq> 0)"

lemma held_revision_holds: "\<forall>r \<in> set (t_artifacts db). a_revision r \<noteq> 0 \<Longrightarrow> held_revision db a \<noteq> 0 \<longleftrightarrow> sq_holds db a"
proof -
  assume "\<forall>r \<in> set (t_artifacts db). a_revision r \<noteq> 0"
  then have "\<forall>r \<in> set (sq_rows db a). a_revision r \<noteq> 0" by (simp add: sq_rows_def)
  then show ?thesis by (cases "sq_rows db a") (simp_all add: held_revision_def sq_holds_def)
qed

lemma links_into_set:
  "l \<in> set (links_into db a [] None True) \<longleftrightarrow> (\<exists>r \<in> set (t_links db). r_target r = iri_of a \<and> l = row_linking r)"
  by (auto simp: links_into_def kinded_def)

text \<open>A link row from outside the set into what it removes or into a part it drops.\<close>

lemma broken_links_in:
  assumes "broken_links db changes before = []" "(a, held, parts) \<in> set before" "held \<noteq> 0"
    and "r \<in> set (t_links db)" "r_target r = iri_of a" "ArtifactId (r_source r) \<notin> ch_artifact ` set changes"
  shows "sq_holds db a \<and> (r_part r \<in> set parts \<longrightarrow> r_part r \<in> set (sq_parts db a))"
proof -
  have "row_linking r \<in> set (links_into db a [] None True)" using assms(4,5) by (auto simp: links_into_set)
  moreover have "\<forall>x \<in> set before. (case x of (a, held, parts) \<Rightarrow>
     let gone = (if sq_holds db a then Some (filter (\<lambda>p. p \<notin> set (sq_parts db a)) parts) else None)
     in if held = 0 then []
        else filter (\<lambda>l. ln_source l \<notin> fst ` set (last_changes changes) \<and>
               (case gone of None \<Rightarrow> True | Some ps \<Rightarrow> ln_part l \<in> set ps))
             (links_into db a [] None True)) = []"
    using assms(1) by (simp add: broken_links_def)
  from bspec [OF this assms(2)] have "filter (\<lambda>l. ln_source l \<notin> fst ` set (last_changes changes) \<and>
       (case (if sq_holds db a then Some (filter (\<lambda>p. p \<notin> set (sq_parts db a)) parts) else None) of
          None \<Rightarrow> True | Some ps \<Rightarrow> ln_part l \<in> set ps)) (links_into db a [] None True) = []"
    using assms(3) by (simp add: Let_def)
  ultimately have "\<not> (ln_source (row_linking r) \<notin> fst ` set (last_changes changes) \<and>
       (case (if sq_holds db a then Some (filter (\<lambda>p. p \<notin> set (sq_parts db a)) parts) else None) of
          None \<Rightarrow> True | Some ps \<Rightarrow> ln_part (row_linking r) \<in> set ps))"
    unfolding filter_empty_conv by blast
  then show ?thesis using assms(6) by (auto simp: row_linking_def last_changes_fst split: if_splits)
qed

lemma link_row_lands:
  assumes "unlanded_links db changes waited = []" "last_change changes a = Some ch" "r \<in> set (link_rows ch)"
  shows "\<exists>l t. l \<in> set (ch_links ch) \<and> lands db l t (waited a) \<and> r_target r = iri_of (l_target l) \<and> r_part r = l_part l \<and>
    r_implicit r = l_implicit l"
proof -
  obtain i l where l: "ch_content ch \<noteq> None" "i < length (ch_links ch)" "l = ch_links ch ! i"
    "r_target r = iri_of (l_target l)" "r_part r = l_part l" "r_implicit r = l_implicit l"
    using assms(3) by (auto simp: link_rows_def set_enum_from split: if_splits)
  let ?t = "told (map link_key (ch_links ch)) ! i"
  have "(l, ?t) \<in> set (zip (ch_links ch) (told (map link_key (ch_links ch))))"
    using l(2,3) by (auto simp: set_zip)
  moreover have "\<forall>x \<in> set (zip (ch_links ch) (told (map link_key (ch_links ch)))). lands db (fst x) (snd x) (waited a)"
  proof -
    have "(a, ch) \<in> set (last_changes changes)" using assms(2) by (simp add: last_changes_set)
    with assms(1) have "map (\<lambda>(l, t). \<lparr>ln_source = a, ln_field = l_field l, ln_place = l_place l, ln_target = l_target l,
                 ln_part = l_part l, ln_holder = Some []\<rparr>)
       (filter (\<lambda>(l, t). \<not> lands db l t (waited a)) (zip (ch_links ch) (told (map link_key (ch_links ch))))) = []"
      using l(1) by (fastforce simp: unlanded_links_def)
    then show ?thesis by (auto simp: filter_empty_conv)
  qed
  ultimately have "lands db l ?t (waited a)" by fastforce
  with l show ?thesis by (metis nth_mem)
qed

lemma lands_implicit: "lands db l t w \<Longrightarrow> l_implicit l \<Longrightarrow> sq_holds db (l_target l)"
  by (auto simp: lands_def vouched_def sq_holds_def split: list.splits)



lemma source_rows_in: "r \<in> set (t_links db) \<longleftrightarrow> r \<in> set (source_rows db (ArtifactId (r_source r)))"
  by (simp add: source_rows_def)

lemma landed_link_kept:
  assumes "changes_written landed step changes [] db1 = (Inr before, db2)" "broken_links db2 changes before = []"
    and revisions: "\<forall>r \<in> set (t_artifacts db1). a_revision r \<noteq> 0"
    and r: "r \<in> set (t_links db1)" "ArtifactId (r_source r) \<notin> ch_artifact ` set changes" "sq_holds db1 (ArtifactId (r_target r))"
  shows "r \<in> set (t_links db2) \<and> sq_holds db2 (ArtifactId (r_target r)) \<and> (row_lands db1 r \<longrightarrow> row_lands db2 r)"
proof -
  note rows = changes_written_rows [OF assms(1)]
  have "r \<in> set (source_rows db1 (ArtifactId (r_source r)))" using r(1) by (simp add: source_rows_def)
  moreover have "source_rows db2 (ArtifactId (r_source r)) = source_rows db1 (ArtifactId (r_source r))"
    using rows(3) [of "ArtifactId (r_source r)"] r(2) by (simp add: last_change_None [symmetric])
  ultimately have r2: "r \<in> set (t_links db2)" by (metis filter_is_subset source_rows_def subsetD)
  let ?a = "ArtifactId (r_target r)"
  have parts: "(r_target r, r_part r) \<in> set (t_parts db) \<longleftrightarrow> r_part r \<in> set (sq_parts db ?a)" for db
    by (force simp: sq_parts_def)
  show ?thesis
  proof (cases "?a \<in> ch_artifact ` set changes")
    case False
    then have "sq_rows db2 ?a = sq_rows db1 ?a" "sq_parts db2 ?a = sq_parts db1 ?a"
      using rows(1,2) [of ?a] by (simp_all add: last_change_None [symmetric])
    with r2 r(3) parts show ?thesis by (auto simp: row_lands_def sq_holds_def)
  next
    case True
    then have "(?a, (held_revision db1 ?a, sq_parts db1 ?a)) \<in> set before"
      using changes_written_before [OF assms(1)] by simp
    from broken_links_in [OF assms(2) this _ r2 _ r(2)] have "sq_holds db2 ?a \<and>
        (r_part r \<in> set (sq_parts db1 ?a) \<longrightarrow> r_part r \<in> set (sq_parts db2 ?a))"
      using held_revision_holds [OF revisions] r(3) by simp
    with r2 parts show ?thesis by (auto simp: row_lands_def)
  qed
qed


lemma set_written_ids:
  assumes "set_written ch landed step db = (Inr u, db')" "distinct (map a_id (t_artifacts db))"
    and "\<forall>r \<in> set (t_artifacts db). a_revision r \<noteq> 0" "ch_content ch \<noteq> None \<longrightarrow> ch_revision ch \<noteq> 0"
  shows "distinct (map a_id (t_artifacts db')) \<and> (\<forall>r \<in> set (t_artifacts db'). a_revision r \<noteq> 0)"
proof -
  have "distinct (map a_id (filter P (t_artifacts db)))" for P using assms(2) by (simp add: distinct_map_filter)
  with assms(3,4) show ?thesis
    by (auto simp: set_written_Inr(1) [OF assms(1)] artifact_rows_def split: option.splits)
qed

lemma changes_written_ids:
  assumes "changes_written landed step changes before db = (Inr before', db')" "distinct (map a_id (t_artifacts db))"
    and "\<forall>r \<in> set (t_artifacts db). a_revision r \<noteq> 0" "revised changes"
  shows "distinct (map a_id (t_artifacts db')) \<and> (\<forall>r \<in> set (t_artifacts db'). a_revision r \<noteq> 0)"
  using assms
proof (induction changes arbitrary: step before db)
  case (Cons ch changes)
  from Cons.prems(1) obtain db1 bef where "set_written ch landed step db = (Inr (), db1)"
    "changes_written landed (Suc step) changes bef db1 = (Inr before', db')"
    by (auto simp: changes_written_Cons simp del: changes_written.simps(2))
  note w = this
  have "distinct (map a_id (t_artifacts db1)) \<and> (\<forall>r \<in> set (t_artifacts db1). a_revision r \<noteq> 0)"
    by (rule set_written_ids [OF w(1) Cons.prems(2,3)]) (use Cons.prems(4) in \<open>simp add: revised_def\<close>)
  with Cons.IH [OF w(2)] Cons.prems(4) show ?case by (simp add: revised_def)
qed (simp add: act_return_def)

lemma changes_written_kinds:
  "changes_written landed step changes before db = (Inr before', db') \<Longrightarrow>
     \<forall>ch \<in> set changes. ch_content ch \<noteq> None \<longrightarrow> ch_kind ch \<noteq> None"
  by (induction changes arbitrary: step before db)
     (auto simp: changes_written_Cons dest!: set_written_Inr(6) simp del: changes_written.simps(2))

lemma landing_keeps_ok:
  assumes "land_set changes entries db = (Inr u, db')" "db_ok db" "revised changes"
  shows "db_ok db'"
proof -
  from assms(1) obtain db1 db2 landed before where w: "tables db1 = tables db"
    "changes_written landed 0 changes [] db1 = (Inr before, db2)" "broken_links db2 changes before = []"
    "tables db' = tables db2" "unlanded_links db2 changes (waited_before db1) = []" by (rule land_set_Inr)
  have ok1: "db_ok db1" using assms(2) w(1) of_tables [OF w(1)] by (simp add: db_ok_def tables_def)
  then have revisions: "\<forall>r \<in> set (t_artifacts db1). a_revision r \<noteq> 0" by (simp add: db_ok_def)
  have link: "sq_holds db2 (ArtifactId (r_source r)) \<and> (r_implicit r \<longrightarrow> sq_holds db2 (ArtifactId (r_target r)))"
    if "r \<in> set (t_links db2)" for r
  proof (cases "last_change changes (ArtifactId (r_source r))")
    case None
    have r1: "r \<in> set (t_links db1)"
      using changes_written_rows(3) [OF w(2), of "ArtifactId (r_source r)"] that None
      by (simp add: source_rows_in [of r])
    with ok1 have "sq_holds db1 (ArtifactId (r_source r))" by (simp add: db_ok_def)
    then have "sq_holds db2 (ArtifactId (r_source r))"
      using changes_written_rows(1) [OF w(2), of "ArtifactId (r_source r)"] None by (simp add: sq_holds_def)
    moreover have "sq_holds db2 (ArtifactId (r_target r))" if "r_implicit r"
      using landed_link_kept [OF w(2,3) revisions r1] None ok1 r1 that by (auto simp: db_ok_def last_change_None)
    ultimately show ?thesis by simp
  next
    case (Some ch)
    have "r \<in> set (source_rows db2 (ArtifactId (r_source r)))" using that by (simp add: source_rows_def)
    then have r: "r \<in> set (link_rows ch)"
      using changes_written_rows(3) [OF w(2), of "ArtifactId (r_source r)"] Some by simp
    then have "ch_content ch \<noteq> None" by (auto simp: link_rows_def split: if_splits)
    moreover have "ch_content ch \<noteq> None \<longrightarrow> ch_kind ch \<noteq> None"
      using changes_written_kinds [OF w(2)] last_change_in [OF Some] by blast
    ultimately have "artifact_rows ch \<noteq> []" by (auto simp: artifact_rows_def)
    then have "sq_holds db2 (ArtifactId (r_source r))"
      using changes_written_rows(1) [OF w(2), of "ArtifactId (r_source r)"] Some by (simp add: sq_holds_def)
    moreover have "sq_holds db2 (ArtifactId (r_target r))" if "r_implicit r"
      using link_row_lands [OF w(5) Some r] that lands_implicit by (metis artifact_id.collapse)
    ultimately show ?thesis by simp
  qed
  with changes_written_ids [OF w(2)] ok1 assms(3) have "db_ok db2" by (simp add: db_ok_def)
  then show ?thesis using w(4) of_tables [OF w(4)] by (simp add: db_ok_def tables_def)
qed


end
