(* ===== verification/KB_Sqlite_Store.thy ===== *)
theory KB_Sqlite_Store
  imports KB_Sqlite_Land
begin

text \<open>
  What a client of the store relies on: a refused set leaves the connection as it was, the artifacts held are
  the map a set's changes make of those before it (a refinement), a set drafted from a reading that has moved is
  refused (the interface \<open>optimistic_store\<close>, provided by the landing), the history and the kept versions of types
  only grow.
\<close>

section \<open>A refused set leaves nothing\<close>

definition conn_ok :: "conn \<Rightarrow> bool" where
  "conn_ok c \<longleftrightarrow> (k_locked c \<longrightarrow> k_open c \<noteq> None) \<and> (k_open c = None \<longrightarrow> k_saved c = [])"

text \<open>A set in a savepoint of an open transaction: kept in it whole, or the transaction left as it was.\<close>

lemma saved_on_db:
  assumes "k_open c = Some db"
  shows "saved (on_db m) c = (case m db of (Inr x, db') \<Rightarrow> (Inr x, c \<lparr>k_open := Some db'\<rparr>) | (Inl r, db') \<Rightarrow> (Inl r, c))"
  using assms
  by (auto simp: saved_def on_db_def sql_savepoint_def sql_release_def sql_rollback_to_def view_def Let_def
      split: prod.splits sum.splits)

lemma land_locked:
  assumes "k_locked c" "k_open c = Some db"
  shows "land other changes entries c = (case land_set changes entries db of
     (Inr x, db') \<Rightarrow> (Inr x, c \<lparr>k_open := Some db'\<rparr>) | (Inl r, db') \<Rightarrow> (Inl r, c))"
  using assms by (simp add: land_def exclusive_def saved_on_db)

lemma land_free:
  assumes "\<not> k_locked c" "k_open c = None" "k_saved c = []"
  shows "land False changes entries c = (case land_set changes entries (k_committed c) of
     (Inr x, db') \<Rightarrow> (Inr x, c \<lparr>k_committed := db'\<rparr>) | (Inl r, db') \<Rightarrow> (Inl r, c))"
  using assms
  by (cases "land_set changes entries (k_committed c)")
     (auto simp: land_def exclusive_def saved_on_db sql_begin_def sql_commit_def sql_rollback_def view_def
      split: sum.splits)

text \<open>
  C3: a set is landed whole or not at all: when it is refused, for whatever reason and whatever of it had been
  written by then, the connection is left exactly as it was, its lock and an outer block's open work among it; when
  it lands, the connection sees what the set leaves, committed at once unless an outer block holds the lock.
\<close>

theorem land_whole_or_not_at_all:
  assumes "conn_ok c" "land other changes entries c = (r, c')"
  shows "case r of
     Inl refused \<Rightarrow> c' = c
   | Inr u \<Rightarrow> land_set changes entries (view c) = (Inr (), view c') \<and> k_locked c' = k_locked c \<and> k_saved c' = k_saved c \<and>
       (if k_locked c then k_committed c' = k_committed c else k_open c' = None \<and> k_committed c' = view c')"
proof (cases "k_locked c")
  case True
  with assms(1) obtain db where db: "k_open c = Some db" by (auto simp: conn_ok_def)
  show ?thesis
    using assms(2) True db by (auto simp: land_locked [OF True db] view_def split: prod.splits sum.splits)
next
  case False
  consider "k_open c \<noteq> None \<or> other" | "k_open c = None" "\<not> other" by blast
  then show ?thesis
  proof cases
    case 1
    with False assms(2) show ?thesis by (auto simp: land_def exclusive_def split: if_splits)
  next
    case 2
    with assms(1) have saved: "k_saved c = []" by (simp add: conn_ok_def)
    show ?thesis
      using assms(2) False 2 saved land_free [OF False 2(1) saved]
      by (auto simp: view_def split: prod.splits sum.splits)
  qed
qed

definition no_batch :: entry where
  "no_batch = \<lparr>e_id = ''1'', e_at = 0, e_seq = 0, e_record = [], e_artifact = [], e_role = [], e_execution = [], e_batch = ''b''\<rparr>"

lemma land_whole_or_not_at_all_witness:
  "snd (land False [] [no_batch, no_batch] (opened_db made_db)) = opened_db made_db \<and>
   fst (land False [] [no_batch, no_batch] (opened_db made_db)) = Inl (Conflict_ids [''1'', ''1''])"
proof -
  have r: "fst (land False [] [no_batch, no_batch] (opened_db made_db)) = Inl (Conflict_ids [''1'', ''1''])" by code_simp
  have "conn_ok (opened_db made_db)" by (simp add: conn_ok_def opened_db_def)
  from land_whole_or_not_at_all [OF this surjective_pairing, of False "[]" "[no_batch, no_batch]"] r show ?thesis by simp
qed

section \<open>The map a set makes\<close>

type_synonym shelf = "string \<rightharpoonup> string \<times> int \<times> json"

text \<open>The artifacts held, as a map from their names to their kind, revision and content.\<close>

definition shelf :: "db \<Rightarrow> shelf" where
  "shelf db name = (case sq_rows db (ArtifactId name) of [] \<Rightarrow> None | r # _ \<Rightarrow> Some (a_kind r, a_revision r, a_content r))"

definition shelf_revision :: "shelf \<Rightarrow> string \<Rightarrow> int" where
  "shelf_revision m name = (case m name of None \<Rightarrow> 0 | Some (_, revision, _) \<Rightarrow> revision)"

text \<open>A change compared with what stands there and put in its place; none when it was read at another revision.\<close>

definition shelf_change :: "change \<Rightarrow> shelf \<Rightarrow> shelf option" where
  "shelf_change ch m = (let name = iri_of (ch_artifact ch) in
     if shelf_revision m name \<noteq> ch_read ch then None
     else case ch_content ch of
       None \<Rightarrow> Some (m(name := None))
     | Some content \<Rightarrow> map_option (\<lambda>k. m(name \<mapsto> (kind_name k, ch_revision ch, encoded content))) (ch_kind ch))"

fun shelf_set :: "change list \<Rightarrow> shelf \<Rightarrow> shelf option" where
  "shelf_set [] m = Some m"
| "shelf_set (ch # changes) m = Option.bind (shelf_change ch m) (shelf_set changes)"

lemma shelf_revision: "shelf_revision (shelf db) (iri_of a) = held_revision db a"
  by (cases a) (simp add: shelf_revision_def shelf_def held_revision_def split: list.splits)

lemma shelf_tables: "tables db' = tables db \<Longrightarrow> shelf db' = shelf db"
  by (rule ext) (simp add: shelf_def sq_rows_def tables_def)

lemma shelf_written:
  assumes "set_written ch landed step db = (Inr u, db')" "held_revision db (ch_artifact ch) = ch_read ch"
  shows "shelf_change ch (shelf db) = Some (shelf db')"
proof -
  have rows: "shelf db' name = (if name = iri_of (ch_artifact ch)
      then (case artifact_rows ch of [] \<Rightarrow> None | r # _ \<Rightarrow> Some (a_kind r, a_revision r, a_content r)) else shelf db name)" for name
    using set_written_rows(1) [OF assms(1), of "ArtifactId name"] by (cases "ch_artifact ch") (auto simp: shelf_def)
  have after: "shelf db' = (shelf db)(iri_of (ch_artifact ch) :=
      (case artifact_rows ch of [] \<Rightarrow> None | r # _ \<Rightarrow> Some (a_kind r, a_revision r, a_content r)))"
    by (rule ext) (simp add: rows)
  have "ch_content ch \<noteq> None \<longrightarrow> ch_kind ch \<noteq> None" by (rule set_written_Inr(6) [OF assms(1)])
  then show ?thesis
    unfolding shelf_change_def shelf_revision after Let_def
    by (cases "ch_content ch"; cases "ch_kind ch") (simp_all add: artifact_rows_def assms(2))
qed

lemma shelf_changes_written:
  "changes_written landed step changes before db = (Inr before', db') \<Longrightarrow> shelf_set changes (shelf db) = Some (shelf db')"
proof (induction changes arbitrary: step before db)
  case (Cons ch changes)
  then obtain db1 bef where "set_written ch landed step db = (Inr (), db1)" "held_revision db (ch_artifact ch) = ch_read ch"
    "changes_written landed (Suc step) changes bef db1 = (Inr before', db')"
    by (auto simp: changes_written_Cons simp del: changes_written.simps(2))
  with Cons.IH shelf_written show ?case by simp
qed (simp add: act_return_def)

text \<open>
  C15: the landing refines the map: a set that lands leaves the artifacts held exactly as its changes, compared
  and put one after another, leave the map of them, and no set lands which that map would refuse.
\<close>

theorem landing_refines_map:
  assumes "land_set changes entries db = (Inr u, db')"
  shows "shelf_set changes (shelf db) = Some (shelf db')"
proof -
  from assms obtain db1 db2 landed before where w: "tables db1 = tables db"
    "changes_written landed 0 changes [] db1 = (Inr before, db2)" "tables db' = tables db2" by (rule land_set_Inr)
  show ?thesis using shelf_changes_written [OF w(2)] shelf_tables [OF w(1)] shelf_tables [OF w(3)] by simp
qed


text \<open>What a set that lands leaves of one artifact is read back as its last change left it.\<close>

lemma landed_read_back:
  assumes "land_set changes entries db = (Inr u, db')" "last_change changes a = Some ch"
    and "ch_content ch = Some content" "well_keyed (VMap content)"
  shows "sq_artifact db' a = Inr content"
proof -
  from assms(1) obtain db1 db2 landed before where w: "tables db1 = tables db"
    "changes_written landed 0 changes [] db1 = (Inr before, db2)" "tables db' = tables db2" by (rule land_set_Inr)
  have rows: "sq_rows db' a = artifact_rows ch"
    using changes_written_rows(1) [OF w(2), of a] assms(2) of_tables(1) [OF w(3), of a] by simp
  from changes_written_kinds [OF w(2)] last_change_in [OF assms(2)] assms(3) obtain k where "ch_kind ch = Some k" by fastforce
  then show ?thesis
    using rows assms(3) stored_reads_back [OF assms(4)] by (simp add: sq_artifact_def artifact_rows_def)
qed

section \<open>Readings that have moved\<close>

text \<open>
  The interface a drafting client relies on: a set says the revision it read some things at, and the revision
  it leaves some at; a landing checks the first and keeps the second. From these two laws alone a set drafted from
  a reading that another set has since moved on never lands.
\<close>

locale optimistic_store =
  fixes lands :: "'set \<Rightarrow> 's \<Rightarrow> 's option" and revision :: "'s \<Rightarrow> 'id \<Rightarrow> int"
    and reads :: "'set \<Rightarrow> 'id \<Rightarrow> int option" and leaves :: "'set \<Rightarrow> 'id \<Rightarrow> int option"
  assumes read_checked: "lands x s = Some s' \<Longrightarrow> reads x a = Some n \<Longrightarrow> revision s a = n"
    and leaves_kept: "lands x s = Some s' \<Longrightarrow> revision s' a = (case leaves x a of None \<Rightarrow> revision s a | Some m \<Rightarrow> m)"
begin

inductive run :: "'s \<Rightarrow> 'set list \<Rightarrow> 's \<Rightarrow> bool" where
  none: "run s [] s"
| more: "lands x s = Some s1 \<Longrightarrow> run s1 xs s2 \<Longrightarrow> run s (x # xs) s2"

inductive_cases run_Cons: "run s (x # xs) s'"
inductive_cases run_Nil: "run s [] s'"

definition advances :: "'set \<Rightarrow> 'id \<Rightarrow> bool" where
  "advances x a \<longleftrightarrow> (\<forall>m. leaves x a = Some m \<longrightarrow> (\<exists>n. reads x a = Some n \<and> n < m))"

lemma advances_step: "lands x s = Some s' \<Longrightarrow> advances x a \<Longrightarrow>
    revision s a \<le> revision s' a \<and> (leaves x a \<noteq> None \<longrightarrow> revision s a < revision s' a)"
  using read_checked leaves_kept by (fastforce simp: advances_def split: option.splits)

lemma run_advances: "run s xs s' \<Longrightarrow> \<forall>x \<in> set xs. advances x a \<Longrightarrow>
    revision s a \<le> revision s' a \<and> ((\<exists>x \<in> set xs. leaves x a \<noteq> None) \<longrightarrow> revision s a < revision s' a)"
proof (induction rule: run.induct)
  case (more x s s1 xs s2)
  have "revision s a \<le> revision s1 a \<and> (leaves x a \<noteq> None \<longrightarrow> revision s a < revision s1 a)"
    by (rule advances_step [OF more.hyps(1)]) (use more.prems in simp)
  moreover have "revision s1 a \<le> revision s2 a \<and> ((\<exists>x \<in> set xs. leaves x a \<noteq> None) \<longrightarrow> revision s1 a < revision s2 a)"
    using more.IH more.prems by simp
  ultimately show ?case by auto
qed simp

lemma stale_refused:
  assumes "run s xs s'" "\<forall>x \<in> set xs. advances x a" "\<exists>x \<in> set xs. leaves x a \<noteq> None" "reads y a = Some (revision s a)"
  shows "lands y s' = None"
proof (rule ccontr)
  assume "lands y s' \<noteq> None"
  then obtain s'' where "lands y s' = Some s''" by blast
  with assms(4) have "revision s' a = revision s a" by (auto dest: read_checked)
  with run_advances [OF assms(1,2)] assms(3) show False by simp
qed

end

type_synonym handed_set = "change list \<times> entry list"

definition set_lands :: "handed_set \<Rightarrow> db \<Rightarrow> db option" where
  "set_lands x db = (case land_set (fst x) (snd x) db of (Inr _, db') \<Rightarrow> Some db' | (Inl _, _) \<Rightarrow> None)"

text \<open>What a set read: the revision its first change of an artifact read it at, or else one it was read through at.\<close>

definition set_reads :: "handed_set \<Rightarrow> artifact_id \<Rightarrow> int option" where
  "set_reads x a = (case map_of (map (\<lambda>ch. (ch_artifact ch, ch_read ch)) (fst x)) a of
     Some n \<Rightarrow> Some n | None \<Rightarrow> map_of (concat (map ch_through (fst x))) a)"

definition set_leaves :: "handed_set \<Rightarrow> artifact_id \<Rightarrow> int option" where
  "set_leaves x a = map_option (\<lambda>ch. if ch_content ch = None then 0 else ch_revision ch) (last_change (fst x) a)"

lemma changes_read:
  "changes_written landed step changes before db = (Inr before', db') \<Longrightarrow>
     map_of (map (\<lambda>ch. (ch_artifact ch, ch_read ch)) changes) a = Some n \<Longrightarrow> held_revision db a = n"
proof (induction changes arbitrary: step before db)
  case (Cons ch changes)
  from Cons.prems(1) obtain db1 bef where w: "set_written ch landed step db = (Inr (), db1)"
    "held_revision db (ch_artifact ch) = ch_read ch" "changes_written landed (Suc step) changes bef db1 = (Inr before', db')"
    by (auto simp: changes_written_Cons simp del: changes_written.simps(2))
  show ?case
  proof (cases "a = ch_artifact ch")
    case False
    then have "held_revision db1 a = held_revision db a" using set_written_rows(1) [OF w(1), of a] by (simp add: held_revision_def)
    with False Cons.IH [OF w(3)] Cons.prems(2) show ?thesis by simp
  qed (use Cons.prems(2) w(2) in simp)
qed simp

lemma unmoved_checked:
  assumes "unmoved changes db = (Inr u, db')" "(a, n) \<in> set (concat (map ch_through changes))"
  shows "held_revision db a = n"
proof -
  have "\<forall>(a, n) \<in> set xs. held_revision s a = n"
    if "act_each (\<lambda>(a, read). act_bind (compared a read) (\<lambda>_. act_return ())) xs s = (Inr v, s')" for xs s v s'
    using that
  proof (induction xs arbitrary: s)
    case (Cons x xs)
    obtain a n where x: "x = (a, n)" by (cases x)
    with Cons.prems have "held_revision s a = n"
      "act_each (\<lambda>(a, read). act_bind (compared a read) (\<lambda>_. act_return ())) xs s = (Inr v, s')"
      by (auto simp: results)
    with Cons.IH x show ?case by simp
  qed simp
  from this [OF assms(1) [unfolded unmoved_def]] assms(2) show ?thesis by auto
qed

lemma set_lands_Some: "set_lands x db = Some db' \<longleftrightarrow> land_set (fst x) (snd x) db = (Inr (), db')"
  by (auto simp: set_lands_def split: prod.splits sum.splits)

interpretation sq: optimistic_store set_lands held_revision set_reads set_leaves
proof
  fix x s s' a n
  assume lands: "set_lands x s = Some s'"
  then obtain db1 db2 landed before where w: "tables db1 = tables s" "unmoved (fst x) db1 = (Inr (), db1)"
    "changes_written landed 0 (fst x) [] db1 = (Inr before, db2)" "tables s' = tables db2"
    unfolding set_lands_Some by (rule land_set_Inr)
  {
    assume "set_reads x a = Some n"
    then have "held_revision db1 a = n"
      using changes_read [OF w(3)] unmoved_checked [OF w(2)]
      by (auto simp: set_reads_def split: option.splits dest: map_of_SomeD)
    then show "held_revision s a = n" using of_tables(4) [OF w(1)] by simp
  }
  have "held_revision db2 a = (case set_leaves x a of None \<Rightarrow> held_revision db1 a | Some m \<Rightarrow> m)"
    using changes_written_rows(1) [OF w(3), of a] changes_written_kinds [OF w(3)] last_change_in [of "fst x" a]
    by (fastforce simp: set_leaves_def held_revision_def artifact_rows_def split: option.splits)
  then show "held_revision s' a = (case set_leaves x a of None \<Rightarrow> held_revision s a | Some m \<Rightarrow> m)"
    using of_tables(4) [OF w(1), of a] of_tables(4) [OF w(4), of a] by (simp split: option.splits)
qed

text \<open>The sets landed one after another, from one database to another.\<close>

fun all_land :: "handed_set list \<Rightarrow> db \<Rightarrow> db option" where
  "all_land [] db = Some db"
| "all_land (x # xs) db = Option.bind (set_lands x db) (all_land xs)"

lemma all_land_run: "all_land xs db = Some db' \<Longrightarrow> sq.run db xs db'"
  by (induction xs arbitrary: db) (auto simp: bind_eq_Some_conv intro: sq.run.intros)


text \<open>A set that moves an artifact on leaves it at a later revision than it read, as every set kb hands does but a removal.\<close>

definition moves_on :: "artifact_id \<Rightarrow> handed_set \<Rightarrow> bool" where
  "moves_on a x = (case set_leaves x a of None \<Rightarrow> False
     | Some m \<Rightarrow> (case set_reads x a of None \<Rightarrow> False | Some n \<Rightarrow> n < m))"


definition note_at :: "int \<Rightarrow> int \<Rightarrow> handed_set" where
  "note_at read revision = ([\<lparr>ch_artifact = ArtifactId ''https://a.io/n'', ch_content = Some [(KText ''b'', VInt revision)], ch_links = [],
     ch_parts = [], ch_read = read, ch_revision = revision, ch_through = [], ch_searched = [], ch_kind = Some (Kind ''https://a.io''),
     ch_version = None\<rparr>], [])"


lemma landing_refines_map_witness:
  "\<exists>db. shelf_set (fst (note_at 0 1)) (shelf made_db) = Some (shelf db) \<and> land_set (fst (note_at 0 1)) [] made_db = (Inr (), db)"
proof -
  have "\<not> isl (fst (land_set (fst (note_at 0 1)) [] made_db))" by code_simp
  then obtain db where "land_set (fst (note_at 0 1)) [] made_db = (Inr (), db)"
    by (cases "land_set (fst (note_at 0 1)) [] made_db"; cases "fst (land_set (fst (note_at 0 1)) [] made_db)") auto
  with landing_refines_map [OF this] show ?thesis by blast
qed

section \<open>The history and the versions kept\<close>

definition entry_row_of :: "nat \<Rightarrow> entry \<Rightarrow> entry_row" where
  "entry_row_of landing e = \<lparr>n_landing = landing, n_id = e_id e, n_moment = e_at e, n_seq = e_seq e, n_artifact = e_artifact e,
     n_role = e_role e, n_execution = e_execution e, n_batch = e_batch e, n_record = encoded (e_record e)\<rparr>"

definition in_landing_order :: "db \<Rightarrow> bool" where
  "in_landing_order db \<longleftrightarrow> sorted_wrt (<) (map n_landing (t_entries db))"

lemma recorded_rows:
  assumes "recorded entries db = (Inr u, db')" "in_landing_order db"
  shows "in_landing_order db' \<and> (\<exists>ns. length ns = length entries \<and> t_entries db' = t_entries db @ map2 entry_row_of ns entries)"
  using assms unfolding recorded_def
proof (induction entries arbitrary: db)
  case (Cons e entries)
  from Cons.prems(1) obtain db1 where e: "entry_added e db = (Inr (), db1)" "act_each entry_added entries db1 = (Inr u, db')"
    by (auto simp: results)
  from e(1) have rows: "t_entries db1 = t_entries db @ [entry_row_of (next_landing db) e]"
    by (auto simp: entry_added_def entry_row_of_def split: if_splits)
  have "n < next_landing db" if "n \<in> set (map n_landing (t_entries db))" for n
    using that by (auto simp: next_landing_def less_Suc_eq_le)
  then have "in_landing_order db1" using Cons.prems(2) rows
    by (auto simp: in_landing_order_def sorted_wrt_append entry_row_of_def)
  from Cons.IH [OF e(2) this] obtain ns where ns: "in_landing_order db'" "length ns = length entries"
    "t_entries db' = t_entries db1 @ map2 entry_row_of ns entries" by blast
  then have "length (next_landing db # ns) = length (e # entries) \<and>
      t_entries db' = t_entries db @ map2 entry_row_of (next_landing db # ns) (e # entries)" by (simp add: rows)
  with ns(1) show ?case by blast
qed (simp add: act_return_def)

lemma written_entries:
  "changes_written landed step changes before db = (Inr before', db') \<Longrightarrow> t_entries db' = t_entries db"
  by (induction changes arbitrary: step before db)
     (auto simp: act_return_def changes_written_Cons set_written_Inr(4) simp del: changes_written.simps(2))

lemma land_set_entries:
  assumes "land_set changes entries db = (Inr u, db')" "in_landing_order db"
  shows "in_landing_order db' \<and> (\<exists>ns. length ns = length entries \<and> t_entries db' = t_entries db @ map2 entry_row_of ns entries)"
proof -
  from assms(1) obtain db1 db2 landed before where w: "set_added entries db = (Inr landed, db1)"
    "changes_written landed 0 changes [] db1 = (Inr before, db2)" "recorded entries db2 = (Inr (), db')" by (rule land_set_Inr)
  have "t_entries db2 = t_entries db" using written_entries [OF w(2)] set_added_Inr [OF w(1)] by simp
  with recorded_rows [OF w(3)] assms(2) show ?thesis by (simp add: in_landing_order_def)
qed

lemma entry_row_asked: "asked_of h (entry_row_of n e) = asked_of h (entry_row_of 0 e)"
  by (simp add: asked_of_def entry_row_of_def split: option.splits)

lemma entry_rows_read:
  assumes "length ns = length entries" "\<forall>e \<in> set entries. well_keyed (VMap (e_record e))"
  shows "rall (map (decoded \<circ> n_record) (filter (asked_of h) (map2 entry_row_of ns entries))) =
    Inr (map e_record (filter (\<lambda>e. asked_of h (entry_row_of 0 e)) entries))"
  using assms
proof (induction ns entries rule: list_induct2)
  case (Cons n ns e entries)
  have "decoded (n_record (entry_row_of n e)) = Inr (e_record e)"
    using Cons.prems stored_reads_back by (simp add: entry_row_of_def del: well_keyed.simps)
  with Cons show ?case by (simp add: entry_row_asked [of h n e] del: well_keyed.simps)
qed simp

lemma rall_append: "rall (xs @ ys) = rbind (rall xs) (\<lambda>a. rbind (rall ys) (\<lambda>b. Inr (a @ b)))"
proof (induction xs)
  case Nil
  show ?case by (cases "rall ys") simp_all
next
  case (Cons x xs)
  then show ?case by (cases x; cases "rall xs"; cases "rall ys") simp_all
qed

lemma landing_order_sorted: "in_landing_order db \<Longrightarrow> sort_key n_landing (filter P (t_entries db)) = filter P (t_entries db)"
proof -
  assume "in_landing_order db"
  then have "sorted (map n_landing (t_entries db))"
    unfolding in_landing_order_def by (rule sorted_wrt_mono_rel [rotated]) simp
  then have "sorted (map n_landing (filter P (t_entries db)))" by (rule sorted_filter)
  then show ?thesis by (rule sort_key_id_if_sorted)
qed

lemma history_grown:
  assumes "land_set changes entries db = (Inr u, db')" "in_landing_order db" "h_artifact h \<noteq> None"
    and "sq_history db h = Inr old" "\<forall>e \<in> set entries. well_keyed (VMap (e_record e))"
  shows "in_landing_order db' \<and>
    sq_history db' h = Inr (old @ map e_record (filter (\<lambda>e. asked_of h (entry_row_of 0 e)) entries))"
proof -
  from land_set_entries [OF assms(1,2)] obtain ns where ns: "in_landing_order db'" "length ns = length entries"
    "t_entries db' = t_entries db @ map2 entry_row_of ns entries" by blast
  have "rall (map (decoded \<circ> n_record) (filter (asked_of h) (t_entries db))) = Inr old"
    using assms(2-4) by (simp add: sq_history_def Let_def landing_order_sorted)
  with entry_rows_read [OF ns(2) assms(5), of h] have
    "rall (map (decoded \<circ> n_record) (filter (asked_of h) (t_entries db'))) =
      Inr (old @ map e_record (filter (\<lambda>e. asked_of h (entry_row_of 0 e)) entries))"
    by (simp add: ns(3) rall_append del: map_map)
  with ns(1) assms(3) show ?thesis by (simp add: sq_history_def Let_def landing_order_sorted)
qed

text \<open>
  C18: the history only grows: what was read of an artifact's history before a set lands is read after it, in the
  same order, and after it the entries the set brought that were asked for, in the order it brought them.
\<close>

theorem history_only_grows:
  assumes "land_set changes entries db = (Inr u, db')" "in_landing_order db" "h_artifact h \<noteq> None"
    and "sq_history db h = Inr old" "\<forall>e \<in> set entries. well_keyed (VMap (e_record e))"
  shows "in_landing_order db' \<and>
    sq_history db' h = Inr (old @ map e_record (filter (\<lambda>e. asked_of h (entry_row_of 0 e)) entries))"
  using assms by (rule history_grown)

definition noted :: entry where
  "noted = \<lparr>e_id = ''1'', e_at = 7, e_seq = 0, e_record = [(KText ''op'', VStr ''create'')], e_artifact = ''https://a.io/n'',
     e_role = ''r'', e_execution = ''x'', e_batch = ''b''\<rparr>"

definition about_note :: history_asked where
  "about_note = \<lparr>h_artifact = Some (ArtifactId ''https://a.io/n''), h_role = [], h_execution = [], h_since = None, h_batch = []\<rparr>"

lemma history_only_grows_witness:
  "\<exists>db. land_set (fst (note_at 0 1)) [noted] made_db = (Inr (), db) \<and>
     sq_history db about_note = Inr [[(KText ''op'', VStr ''create'')]]"
proof -
  have "\<not> isl (fst (land_set (fst (note_at 0 1)) [noted] made_db))" by code_simp
  then obtain db where db: "land_set (fst (note_at 0 1)) [noted] made_db = (Inr (), db)"
    by (cases "land_set (fst (note_at 0 1)) [noted] made_db"; cases "fst (land_set (fst (note_at 0 1)) [noted] made_db)") auto
  have "sq_history db about_note = Inr ([] @ map e_record (filter (\<lambda>e. asked_of about_note (entry_row_of 0 e)) [noted]))"
    using history_only_grows [OF db, of about_note "[]"]
    by (simp add: in_landing_order_def made_db_def about_note_def sq_history_def noted_def)
  also have "\<dots> = Inr [[(KText ''op'', VStr ''create'')]]"
    by (simp add: asked_of_def about_note_def entry_row_of_def noted_def)
  finally show ?thesis using db by blast
qed

text \<open>The kept versions of types: those a set does not remove stay as they were made.\<close>

lemma set_written_types:
  assumes "set_written ch landed step db = (Inr u, db')" "distinct (map y_id (t_types db))"
    and "r \<in> set (t_types db)" "ch_content ch \<noteq> None \<or> iri_of (ch_artifact ch) \<noteq> y_type r"
  shows "distinct (map y_id (t_types db')) \<and> r \<in> set (t_types db')"
proof (cases "ch_content ch")
  case None
  have "distinct (map y_id (filter P (t_types db)))" for P using assms(2) by (simp add: distinct_map_filter)
  with assms None show ?thesis
    by (auto simp: set_written_def acts taken_out_def types_removed_def unsearched_def relinked_def Let_def)
next
  case (Some content)
  with assms show ?thesis
    by (auto simp: set_written_def acts taken_out_def put_in_def types_made_def unsearched_def searchable_def relinked_def
        Let_def split: option.splits if_splits)
qed

lemma changes_written_types:
  assumes "changes_written landed step changes before db = (Inr before', db')" "distinct (map y_id (t_types db))"
    and "r \<in> set (t_types db)" "\<forall>ch \<in> set changes. ch_content ch \<noteq> None \<or> iri_of (ch_artifact ch) \<noteq> y_type r"
  shows "distinct (map y_id (t_types db')) \<and> r \<in> set (t_types db')"
  using assms
proof (induction changes arbitrary: step before db)
  case (Cons ch changes)
  from Cons.prems(1) obtain db1 bef where w: "set_written ch landed step db = (Inr (), db1)"
    "changes_written landed (Suc step) changes bef db1 = (Inr before', db')"
    by (auto simp: changes_written_Cons simp del: changes_written.simps(2))
  have "distinct (map y_id (t_types db1)) \<and> r \<in> set (t_types db1)"
    by (rule set_written_types [OF w(1) Cons.prems(2,3)]) (use Cons.prems(4) in simp)
  with Cons.IH [OF w(2)] Cons.prems(4) show ?case by simp
qed (simp add: act_return_def)

lemma types_read_row: "distinct (map y_id (t_types db)) \<Longrightarrow> r \<in> set (t_types db) \<Longrightarrow>
    types_read db (y_id r) = Some (y_content r, y_revision r, y_title r)"
proof -
  assume a: "distinct (map y_id (t_types db))" "r \<in> set (t_types db)"
  have "filter (\<lambda>x. y_id x = y_id r) xs = [r]" if "distinct (map y_id xs)" "r \<in> set xs" for xs
    using that
  proof (induction xs)
    case (Cons x xs)
    show ?case
    proof (cases "x = r")
      case True
      with Cons.prems(1) have "filter (\<lambda>x. y_id x = y_id r) xs = []" by (auto simp: filter_empty_conv image_iff)
      with True show ?thesis by simp
    next
      case False
      with Cons have "y_id x \<noteq> y_id r" by force
      with Cons False show ?thesis by simp
    qed
  qed simp
  from this [OF a] show ?thesis by (simp add: types_read_def)
qed

text \<open>
  C19: a version of a type stays as it was made: every version kept of a type is read after a set lands exactly as
  it was before, whatever version the set makes, unless the set removes what is held at the type's own IRI.
\<close>

theorem versions_stay_as_made:
  assumes "land_set changes entries db = (Inr u, db')" "distinct (map y_id (t_types db))" "r \<in> set (t_types db)"
    and "\<forall>ch \<in> set changes. ch_content ch \<noteq> None \<or> iri_of (ch_artifact ch) \<noteq> y_type r"
  shows "types_read db (y_id r) = Some (y_content r, y_revision r, y_title r) \<and> types_read db' (y_id r) = types_read db (y_id r)"
proof -
  from assms(1) obtain db1 db2 landed before where w: "set_added entries db = (Inr landed, db1)"
    "changes_written landed 0 changes [] db1 = (Inr before, db2)" "recorded entries db2 = (Inr (), db')" by (rule land_set_Inr)
  have "t_types db1 = t_types db" "t_types db' = t_types db2"
    using set_added_Inr [OF w(1)] entry_added_tables [OF w(3)] by simp_all
  with changes_written_types [OF w(2), of r] assms(2-4) types_read_row [OF assms(2,3)] types_read_row [of db' r]
  show ?thesis by simp
qed

text \<open>A store holding one type, of its own kind, and the set that lands it.\<close>

definition typed_set :: handed_set where
  "typed_set = ([\<lparr>ch_artifact = ArtifactId TYPES, ch_content = Some [(KText ''version'', VInt 1)],
     ch_links = [(port_link [] [] (ArtifactId TYPES) [] [TYPES] (Some [])) \<lparr>l_implicit := True\<rparr>],
     ch_parts = [], ch_read = 0, ch_revision = 1, ch_through = [], ch_searched = [], ch_kind = Some (Kind TYPES),
     ch_version = Some \<lparr>vd_version = Version (Kind TYPES) 1, vd_title = ''Schema''\<rparr>\<rparr>], [noted])"

definition typed_db :: db where
  "typed_db = made_db \<lparr>
     t_artifacts := [\<lparr>a_id = TYPES, a_kind = TYPES, a_revision = 1, a_content = JMap [(''version'', JInt 1)]\<rparr>],
     t_links := [\<lparr>r_source = TYPES, r_ordinal = 0, r_field = [], r_place = [], r_target = TYPES, r_part = [], r_implicit = True,
       r_holder = Some []\<rparr>],
     t_types := [\<lparr>y_id = versioned TYPES 1, y_type = TYPES, y_number = 1, y_revision = 1, y_title = ''Schema'',
       y_content = JMap [(''version'', JInt 1)]\<rparr>]\<rparr>"

lemma land_set_cases: "\<not> isl (fst (land_set changes entries db)) \<Longrightarrow> \<exists>db'. land_set changes entries db = (Inr (), db')"
  by (cases "land_set changes entries db"; cases "fst (land_set changes entries db)") auto


lemma typed_db_ok: "db_ok typed_db"
  by (simp add: db_ok_def typed_db_def made_db_def sq_holds_def sq_rows_def)


lemma versions_stay_as_made_witness:
  "\<exists>db. land_set (fst (note_at 0 1)) [] typed_db = (Inr (), db) \<and>
     types_read db (versioned TYPES 1) = Some (JMap [(''version'', JInt 1)], 1, ''Schema'')"
proof -
  have "\<not> isl (fst (land_set (fst (note_at 0 1)) [] typed_db))" by code_simp
  then obtain db where db: "land_set (fst (note_at 0 1)) [] typed_db = (Inr (), db)" using land_set_cases by blast
  have "types_read typed_db (y_id (hd (t_types typed_db))) = Some (JMap [(''version'', JInt 1)], 1, ''Schema'') \<and>
      types_read db (y_id (hd (t_types typed_db))) = types_read typed_db (y_id (hd (t_types typed_db)))"
    using versions_stay_as_made [OF db, of "hd (t_types typed_db)"] by (simp add: typed_db_def note_at_def)
  with db show ?thesis by (auto simp: typed_db_def)
qed
end
