(* ===== verification/KB_Draft.thy ===== *)
theory KB_Draft
  imports KB_Links KB_Sqlite_Store
begin

text \<open>
  \<open>draft.py\<close>: the store as a set's changes would leave it, read like the store. A draft is a record of what the
  class keeps, its dictionaries in order; a store is the record of the port's reads it makes, which a database gives
  (\<open>sq_port\<close>). A read that keeps what it read returns the draft it leaves; \<open>draft_corpus\<close> is the draft as the
  functions of \<open>composition.py\<close> read it, none of whose answers what a draft has kept changes while the
  store stands still.
\<close>

section \<open>The draft\<close>

record port_reads =
  p_corpus :: corpus
  p_links_in :: "artifact_id \<Rightarrow> linking list"
  p_waiting :: "artifact_id option \<Rightarrow> linking list"

record draft =
  dr_pending :: "(artifact_id \<times> obj) list"
  dr_removed :: "artifact_id set"
  dr_types :: "(artifact_id \<times> obj) list"
  dr_numbers :: "(artifact_id \<times> int) list"
  dr_made :: "(artifact_id \<times> (int \<times> obj) list) list"
  dr_gone :: "artifact_id set"
  dr_waited :: "(artifact_id \<times> (telling \<times> nat) set) list"

definition new_draft :: draft where
  "new_draft = \<lparr>dr_pending = [], dr_removed = {}, dr_types = [], dr_numbers = [], dr_made = [], dr_gone = {}, dr_waited = []\<rparr>"

definition made_of :: "draft \<Rightarrow> artifact_id \<Rightarrow> (int \<times> obj) list" where
  "made_of d a = (case map_of (dr_made d) a of None \<Rightarrow> [] | Some m \<Rightarrow> m)"

definition int_version :: "obj \<Rightarrow> int option" where
  "int_version m = (case dget m ''version'' of Some (VInt n) \<Rightarrow> Some n | _ \<Rightarrow> None)"

definition draft_put :: "artifact_id \<Rightarrow> obj \<Rightarrow> draft \<Rightarrow> exn + draft" where
  "draft_put a artifact d =
     (let d = d \<lparr>dr_removed := dr_removed d - {a}, dr_pending := AList.update a artifact (dr_pending d)\<rparr>
      in rbind (settled_typed artifact) (\<lambda>typed. Inr (case int_version artifact of
           Some n \<Rightarrow> if typed then d \<lparr>dr_made := AList.update a (AList.update n artifact (made_of d a)) (dr_made d)\<rparr> else d
         | None \<Rightarrow> d)))"

definition draft_remove :: "artifact_id \<Rightarrow> draft \<Rightarrow> draft" where
  "draft_remove a d = d \<lparr>dr_removed := insert a (dr_removed d), dr_gone := insert a (dr_gone d),
     dr_made := AList.delete a (dr_made d)\<rparr>"

definition draft_ids :: "port_reads \<Rightarrow> draft \<Rightarrow> kind \<Rightarrow> exn + artifact_id list" where
  "draft_ids p d k = rbind (rall (map (\<lambda>e. settled_kind (snd e)) (dr_pending d))) (\<lambda>kinds.
     let put = map (fst \<circ> fst) (filter (\<lambda>e. snd e = kind_name k) (zip (dr_pending d) kinds))
     in Inr (sort_key (\<lambda>a. names_order (iri_of a))
          (filter (\<lambda>a. a \<notin> dr_removed d) (once_each (put @ c_ids (p_corpus p) (Some k))))))"

definition draft_versions :: "port_reads \<Rightarrow> draft \<Rightarrow> artifact_id \<Rightarrow> int list" where
  "draft_versions p d a =
     (if a \<in> dr_removed d then []
      else sort (once_each ((if a \<in> dr_gone d then [] else c_versions (p_corpus p) a) @ dkeys (made_of d a))))"

definition draft_holds :: "port_reads \<Rightarrow> draft \<Rightarrow> artifact_id \<Rightarrow> bool" where
  "draft_holds p d a =
     (if a \<in> dr_removed d then False else map_of (dr_pending d) a \<noteq> None \<or> c_holds (p_corpus p) a)"

definition draft_changed :: "draft \<Rightarrow> artifact_id \<Rightarrow> bool" where
  "draft_changed d a = (map_of (dr_pending d) a \<noteq> None \<or> a \<in> dr_removed d)"

definition draft_artifact :: "port_reads \<Rightarrow> draft \<Rightarrow> artifact_id \<Rightarrow> exn + obj \<times> draft" where
  "draft_artifact p d a = (case map_of (dr_pending d) a of
     Some m \<Rightarrow> Inr (m, d)
   | None \<Rightarrow> (case map_of (dr_types d) a of
       Some m \<Rightarrow> Inr (m, d)
     | None \<Rightarrow> rbind (corpus_artifact (p_corpus p) a) (\<lambda>found. rbind (settled_typed found) (\<lambda>typed.
         Inr (found, if typed then d \<lparr>dr_types := AList.update a found (dr_types d)\<rparr> else d)))))"

definition int_field :: "obj \<Rightarrow> string \<Rightarrow> exn + int" where
  "int_field m k = (case dget m k of None \<Rightarrow> Inl (KeyError k) | Some (VInt n) \<Rightarrow> Inr n | Some _ \<Rightarrow> Inl TypeError)"

definition str_field :: "obj \<Rightarrow> string \<Rightarrow> exn + string" where
  "str_field m k = (case dget m k of None \<Rightarrow> Inl (KeyError k) | Some (VStr s) \<Rightarrow> Inr s | Some _ \<Rightarrow> Inl TypeError)"

text \<open>A version read off an artifact that is a type: its revision and its title are the artifact's.\<close>

definition version_of :: "version \<Rightarrow> obj \<Rightarrow> exn + type_version" where
  "version_of v m = rbind (int_field m ''revision'') (\<lambda>revision. rbind (str_field m ''title'') (\<lambda>title.
     Inr \<lparr>tv_version = v, tv_content = m, tv_revision = revision, tv_title = title\<rparr>))"

definition draft_type_version :: "port_reads \<Rightarrow> draft \<Rightarrow> version \<Rightarrow> exn + type_version \<times> draft" where
  "draft_type_version p d v =
     (let a = ArtifactId (kind_name (version_kind v));
          stored = (case c_type_version (p_corpus p) v of None \<Rightarrow> Inl (KeyError (version_str v)) | Some found \<Rightarrow> Inr found)
      in if a \<in> dr_removed d then Inl (KeyError (version_str v))
         else case map_of (dr_pending d) a of
           None \<Rightarrow> rbind stored (\<lambda>found. Inr (found,
             if map_of (dr_types d) a = None then d \<lparr>dr_types := dr_types d @ [(a, tv_content found)]\<rparr> else d))
         | Some put \<Rightarrow>
             if (case dget put ''version'' of None \<Rightarrow> False | Some x \<Rightarrow> py_eq x (VInt (version_number v)))
               then rbind (version_of v put) (\<lambda>found. Inr (found, d))
             else (case map_of (made_of d a) (version_number v) of
               Some made \<Rightarrow> rbind (version_of v made) (\<lambda>found. Inr (found, d))
             | None \<Rightarrow> if a \<in> dr_gone d then Inl (KeyError (version_str v)) else rbind stored (\<lambda>found. Inr (found, d))))"

definition answered :: "exn + 'a \<times> 'b \<Rightarrow> 'a option" where
  "answered r = (case r of Inl _ \<Rightarrow> None | Inr (x, _) \<Rightarrow> Some x)"

definition draft_corpus :: "port_reads \<Rightarrow> draft \<Rightarrow> corpus" where
  "draft_corpus p d = \<lparr>c_holds = draft_holds p d, c_artifact = (\<lambda>a. answered (draft_artifact p d a)),
     c_type_version = (\<lambda>v. answered (draft_type_version p d v)), c_versions = draft_versions p d,
     c_ids = (\<lambda>k. case k of None \<Rightarrow> [] | Some k \<Rightarrow> (case draft_ids p d k of Inl _ \<Rightarrow> [] | Inr found \<Rightarrow> found))\<rparr>"

text \<open>\<open>numbered\<close>: \<open>self._numbers.get\<close> gives 0 as well as None to the \<open>or\<close>.\<close>

definition draft_numbered :: "port_reads \<Rightarrow> draft \<Rightarrow> artifact_id \<Rightarrow> exn + int \<times> draft" where
  "draft_numbered p d a =
     rbind (if draft_holds p d a
              then (case map_of (dr_numbers d) a of
                 Some n \<Rightarrow> if n \<noteq> 0 then Inr (n, d)
                   else rbind (draft_artifact p d a) (\<lambda>(m, d). rbind (int_field m ''version'') (\<lambda>n. Inr (n, d)))
               | None \<Rightarrow> rbind (draft_artifact p d a) (\<lambda>(m, d). rbind (int_field m ''version'') (\<lambda>n. Inr (n, d))))
            else Inr (0, d))
       (\<lambda>(last, d). Inr (last + 1, d \<lparr>dr_numbers := AList.update a (last + 1) (dr_numbers d)\<rparr>))"

definition draft_as_read :: "draft \<Rightarrow> artifact_id list \<Rightarrow> exn + (artifact_id \<times> int) list" where
  "draft_as_read d ids = rall (map (\<lambda>a. rbind (int_field (case map_of (dr_types d) a of None \<Rightarrow> [] | Some m \<Rightarrow> m) ''revision'')
       (\<lambda>n. Inr (a, n)))
     (filter (\<lambda>a. map_of (dr_types d) a \<noteq> None \<and> map_of (dr_pending d) a = None \<and> a \<notin> dr_removed d) (once_each ids)))"

definition by_source :: "linking list \<Rightarrow> linking list" where
  "by_source found = sort_key (\<lambda>l. names_order (iri_of (ln_source l))) found"

definition draft_own :: "port_reads \<Rightarrow> draft \<Rightarrow> obj \<Rightarrow> exn + obj option" where
  "draft_own p d artifact = rbind (conforming artifact) (\<lambda>v.
     rbind (kept (type_of (version_kind v)) (version_number v) (draft_corpus p d)) (\<lambda>found.
     Inr (map_option tv_content found)))"

definition linking_of :: "artifact_id \<Rightarrow> port_link \<Rightarrow> linking" where
  "linking_of source l = \<lparr>ln_source = source, ln_field = l_field l, ln_place = l_place l, ln_target = l_target l,
     ln_part = l_part l, ln_holder = l_holder l\<rparr>"

definition draft_links_put :: "nat \<Rightarrow> port_reads \<Rightarrow> draft \<Rightarrow> exn + linking list" where
  "draft_links_put n p d =
     (let held = filter (\<lambda>e. fst e \<notin> dr_removed d) (dr_pending d)
      in rbind (rall (map (\<lambda>e. draft_own p d (snd e)) held)) (\<lambda>owns.
         rbind (rall (map (\<lambda>((source, artifact), own). case own of
                  None \<Rightarrow> Inr []
                | Some typed \<Rightarrow> rbind (handed n artifact (draft_corpus p d) typed {}) (\<lambda>links.
                    Inr (map (linking_of source) (filter (\<lambda>l. \<not> l_implicit l) links)))) (zip held owns)))
           (\<lambda>found. Inr (concat found))))"

definition draft_links_in :: "nat \<Rightarrow> port_reads \<Rightarrow> draft \<Rightarrow> artifact_id \<Rightarrow> exn + linking list" where
  "draft_links_in n p d landing =
     (let held = filter (\<lambda>l. \<not> draft_changed d (ln_source l)) (p_links_in p landing)
      in rbind (draft_links_put n p d) (\<lambda>put.
           Inr (by_source (held @ filter (\<lambda>l. ln_target l = landing) put))))"

definition draft_waiting :: "nat \<Rightarrow> port_reads \<Rightarrow> draft \<Rightarrow> exn + linking list" where
  "draft_waiting n p d =
     (let held = filter (\<lambda>l. \<not> draft_changed d (ln_source l)) (p_waiting p None)
      in rbind (draft_links_put n p d) (\<lambda>put.
           Inr (by_source (filter (\<lambda>l. \<not> draft_holds p d (ln_target l)) (held @ put)))))"

definition draft_waited :: "port_reads \<Rightarrow> draft \<Rightarrow> artifact_id \<Rightarrow> (telling \<times> nat) set \<times> draft" where
  "draft_waited p d a = (case map_of (dr_waited d) a of
     Some found \<Rightarrow> (found, d)
   | None \<Rightarrow> (let found = held_waiting (p_waiting p (Some a)) in (found, d \<lparr>dr_waited := AList.update a found (dr_waited d)\<rparr>)))"

definition draft_dropped :: "port_reads \<Rightarrow> draft \<Rightarrow> artifact_id \<Rightarrow> exn + string set" where
  "draft_dropped p d a = (case map_of (dr_pending d) a of
     None \<Rightarrow> Inr {}
   | Some m \<Rightarrow> if a \<in> dr_removed d \<or> \<not> c_holds (p_corpus p) a then Inr {}
       else rbind (corpus_artifact (p_corpus p) a) (\<lambda>held. Inr (set (places_parts held) - set (places_parts m))))"

section \<open>A database as a port\<close>

definition sq_port :: "(val \<Rightarrow> string) \<Rightarrow> db \<Rightarrow> port_reads" where
  "sq_port written db = \<lparr>p_corpus = sq_corpus written db, p_links_in = (\<lambda>a. sq_links_in db a [] None), p_waiting = sq_waiting db\<rparr>"

section \<open>Reads that always answer\<close>

text \<open>
  The interface composition relies on: whatever a corpus says it holds it reads, and what it reads names its
  type. From this law alone the types an IRI sits under are found, and kept versions looked up, without raising.
\<close>

locale readable =
  fixes inv :: "'s \<Rightarrow> bool" and corp :: "'s \<Rightarrow> corpus"
  assumes held_read: "inv s \<Longrightarrow> c_holds (corp s) a \<Longrightarrow> \<exists>m k. c_artifact (corp s) a = Some m \<and> settled_kind m = Inr k"
begin

lemma typed_at_answers: "inv s \<Longrightarrow> \<exists>b. typed_at a (corp s) = Inr b"
  using held_read [of s a] by (auto simp: typed_at_def corpus_artifact_def settled_typed_def)

lemma kept_answers: "inv s \<Longrightarrow> \<exists>v. kept a n (corp s) = Inr v"
  using typed_at_answers [of s a] by (auto simp: kept_def)

lemma first_typed_answers: "inv s \<Longrightarrow> \<exists>t. first_typed as (corp s) = Inr t"
proof (induction "as")
  case (Cons a as)
  then show ?case using typed_at_answers [of s a] by auto
qed simp

lemma nearest_type_answers: "inv s \<Longrightarrow> \<exists>t. nearest_type a (corp s) = Inr t"
  by (simp add: nearest_type_def first_typed_answers)

end

definition names_kind :: "obj \<Rightarrow> bool" where
  "names_kind m \<longleftrightarrow> \<not> isl (settled_kind m)"

definition db_readable :: "db \<Rightarrow> bool" where
  "db_readable db \<longleftrightarrow> (\<forall>r \<in> set (t_artifacts db). \<exists>m. decoded (a_content r) = Inr m \<and> names_kind m)"

lemma db_readable_artifact: "db_readable db \<Longrightarrow> sq_holds db a \<Longrightarrow> \<exists>m. sq_artifact db a = Inr m \<and> names_kind m"
proof -
  assume "db_readable db" "sq_holds db a"
  then obtain r rs where r: "sq_rows db a = r # rs" by (cases "sq_rows db a") (auto simp: sq_holds_def)
  then have "r \<in> set (t_artifacts db)" by (metis filter_is_subset list.set_intros(1) sq_rows_def subsetD)
  with \<open>db_readable db\<close> r show ?thesis by (auto simp: db_readable_def sq_artifact_def)
qed

lemma names_kindE: "names_kind m \<Longrightarrow> \<exists>k. settled_kind m = Inr k"
  by (cases "settled_kind m") (auto simp: names_kind_def)

interpretation stored: readable db_readable "sq_corpus written"
proof
  fix s a
  assume "db_readable s" "c_holds (sq_corpus written s) a"
  then show "\<exists>m k. c_artifact (sq_corpus written s) a = Some m \<and> settled_kind m = Inr k"
    using db_readable_artifact [of s a] names_kindE by (fastforce simp: sq_corpus_def)
qed

definition draft_readable :: "port_reads \<times> draft \<Rightarrow> bool" where
  "draft_readable pd \<longleftrightarrow>
     (\<forall>a. c_holds (p_corpus (fst pd)) a \<longrightarrow> (\<exists>m. c_artifact (p_corpus (fst pd)) a = Some m \<and> names_kind m)) \<and>
     (\<forall>a m. map_of (dr_pending (snd pd)) a = Some m \<longrightarrow> names_kind m) \<and>
     (\<forall>a m. map_of (dr_types (snd pd)) a = Some m \<longrightarrow> names_kind m)"

lemma answered_simps [simp]: "answered (Inl e) = None" "answered (Inr (x, y)) = Some x"
  by (simp_all add: answered_def)

interpretation drafted: readable draft_readable "\<lambda>pd. draft_corpus (fst pd) (snd pd)"
proof
  fix pd a
  assume ok: "draft_readable pd" and "c_holds (draft_corpus (fst pd) (snd pd)) a"
  then have held: "map_of (dr_pending (snd pd)) a \<noteq> None \<or> c_holds (p_corpus (fst pd)) a"
    by (auto simp: draft_corpus_def draft_holds_def split: if_splits)
  consider m where "map_of (dr_pending (snd pd)) a = Some m"
    | m where "map_of (dr_pending (snd pd)) a = None" "map_of (dr_types (snd pd)) a = Some m"
    | m where "map_of (dr_pending (snd pd)) a = None" "map_of (dr_types (snd pd)) a = None"
        "c_artifact (p_corpus (fst pd)) a = Some m" "names_kind m"
    using held ok by (cases "map_of (dr_pending (snd pd)) a"; cases "map_of (dr_types (snd pd)) a")
      (auto simp: draft_readable_def)
  then show "\<exists>m k. c_artifact (draft_corpus (fst pd) (snd pd)) a = Some m \<and> settled_kind m = Inr k"
  proof cases
    case 3
    from names_kindE [OF 3(4)] obtain k where k: "settled_kind m = Inr k" by blast
    with 3 show ?thesis by (simp add: draft_corpus_def draft_artifact_def corpus_artifact_def settled_typed_def)
  qed (use ok names_kindE in \<open>fastforce simp: draft_corpus_def draft_artifact_def draft_readable_def\<close>)+
qed

lemma sq_port_readable: "db_readable db \<Longrightarrow> draft_readable (sq_port written db, new_draft)"
proof -
  assume ok: "db_readable db"
  have "\<exists>m. c_artifact (sq_corpus written db) a = Some m \<and> names_kind m" if "sq_holds db a" for a
    using db_readable_artifact [OF ok that] by (auto simp: sq_corpus_def)
  then show ?thesis by (simp add: draft_readable_def sq_port_def new_draft_def) (simp add: sq_corpus_def)
qed

lemma draft_put_Inr:
  assumes "draft_put a m d = Inr d'"
  shows "names_kind m" "dr_pending d' = AList.update a m (dr_pending d)" "dr_removed d' = dr_removed d - {a}"
    "dr_types d' = dr_types d" "dr_gone d' = dr_gone d"
proof -
  from assms obtain typed where t: "settled_typed m = Inr typed" by (auto simp: draft_put_def Let_def results)
  then show "names_kind m" by (auto simp: settled_typed_def results names_kind_def)
  show "dr_pending d' = AList.update a m (dr_pending d)" "dr_removed d' = dr_removed d - {a}"
    "dr_types d' = dr_types d" "dr_gone d' = dr_gone d"
    using assms t by (auto simp: draft_put_def Let_def split: option.splits if_splits)
qed

lemma draft_put_readable:
  assumes "draft_readable (p, d)" "draft_put a m d = Inr d'"
  shows "draft_readable (p, d')"
  using assms(1) draft_put_Inr [OF assms(2)] by (auto simp: draft_readable_def update_conv' split: if_splits)

text \<open>The puts and removals a set makes, one after another.\<close>

fun draft_acts :: "(artifact_id \<times> obj option) list \<Rightarrow> draft \<Rightarrow> exn + draft" where
  "draft_acts [] d = Inr d"
| "draft_acts ((a, None) # acts) d = draft_acts acts (draft_remove a d)"
| "draft_acts ((a, Some m) # acts) d = rbind (draft_put a m d) (draft_acts acts)"

lemma draft_acts_readable: "draft_readable (p, d) \<Longrightarrow> draft_acts acts d = Inr d' \<Longrightarrow> draft_readable (p, d')"
proof (induction acts d rule: draft_acts.induct)
  case (2 a acts d)
  have "draft_readable (p, draft_remove a d)" using "2.prems"(1) by (simp add: draft_readable_def draft_remove_def)
  moreover have "draft_acts acts (draft_remove a d) = Inr d'" using "2.prems"(2) by simp
  ultimately show ?case by (rule "2.IH")
next
  case (3 a m acts d)
  from "3.prems"(2) obtain d1 where d1: "draft_put a m d = Inr d1" "draft_acts acts d1 = Inr d'" by (auto simp: rbind_Inr_iff)
  show ?case by (rule "3.IH" [OF d1(1) draft_put_readable [OF "3.prems"(1) d1(1)] d1(2)])
qed simp


section \<open>A draft reads as the store it lands\<close>

text \<open>The changes handed leave each artifact as the draft does, and nothing the draft did not change.\<close>

definition handed_as_drafted :: "change list \<Rightarrow> draft \<Rightarrow> bool" where
  "handed_as_drafted changes d \<longleftrightarrow> (\<forall>a \<in> ch_artifact ` set changes \<union> fst ` set (dr_pending d) \<union> dr_removed d.
     case last_change changes a of
       None \<Rightarrow> False
     | Some ch \<Rightarrow> (case ch_content ch of
         None \<Rightarrow> a \<in> dr_removed d
       | Some m \<Rightarrow> a \<notin> dr_removed d \<and> map_of (dr_pending d) a = Some m \<and> well_keyed (VMap m)))"

lemma landed_unchanged:
  assumes "land_set changes entries db = (Inr u, db')" "last_change changes a = None"
  shows "sq_rows db' a = sq_rows db a"
proof -
  from assms(1) obtain db1 db2 landed before where w: "tables db1 = tables db"
    "changes_written landed 0 changes [] db1 = (Inr before, db2)" "tables db' = tables db2" by (rule land_set_Inr)
  show ?thesis
    using changes_written_rows(1) [OF w(2), of a] assms(2) of_tables(1) [OF w(1), of a] of_tables(1) [OF w(3), of a] by simp
qed

lemma landed_removed:
  assumes "land_set changes entries db = (Inr u, db')" "last_change changes a = Some ch" "ch_content ch = None"
  shows "\<not> sq_holds db' a"
proof -
  from assms(1) obtain db1 db2 landed before where w: "tables db1 = tables db"
    "changes_written landed 0 changes [] db1 = (Inr before, db2)" "tables db' = tables db2" by (rule land_set_Inr)
  show ?thesis
    using changes_written_rows(1) [OF w(2), of a] assms(2,3) of_tables(1) [OF w(3), of a]
    by (simp add: artifact_rows_def sq_holds_def)
qed

lemma draft_unchanged:
  assumes "map_of (dr_pending d) a = None" "a \<notin> dr_removed d" "map_of (dr_types d) a = None" "db_readable db"
  shows "draft_holds (sq_port written db) d a = sq_holds db a"
    and "sq_holds db a \<Longrightarrow> \<exists>m. sq_artifact db a = Inr m \<and> answered (draft_artifact (sq_port written db) d a) = Some m"
proof -
  show "draft_holds (sq_port written db) d a = sq_holds db a"
    using assms(1,2) by (simp add: draft_holds_def sq_port_def sq_corpus_def)
  assume held: "sq_holds db a"
  obtain m where m: "sq_artifact db a = Inr m" "names_kind m" using db_readable_artifact [OF assms(4) held] by blast
  from names_kindE [OF m(2)] obtain k where k: "settled_kind m = Inr k" by blast
  show "\<exists>m. sq_artifact db a = Inr m \<and> answered (draft_artifact (sq_port written db) d a) = Some m"
    using m k assms(1,3) by (simp add: draft_artifact_def sq_port_def sq_corpus_def corpus_artifact_def settled_typed_def)
qed


definition note_content :: obj where
  "note_content = [(KText ''type'', VStr ''https://a.io/t@1''), (KText ''b'', VInt 1)]"

definition note_draft :: draft where
  "note_draft = new_draft \<lparr>dr_pending := [(ArtifactId ''https://a.io/n'', note_content)]\<rparr>"

definition note_change :: change where
  "note_change = (hd (fst (note_at 0 1))) \<lparr>ch_content := Some note_content\<rparr>"



end
