(* ===== verification/KB_Validation.thy ===== *)
theory KB_Validation
  imports KB_Draft
begin

text \<open>
  \<open>validation.py\<close>: an artifact's content checked against its type. The JSON Schema package is a parameter: \<open>misshapen\<close>
  is given the composed schema and the content, and answers the errors, each with its path's steps as text, the
  keyword that found it and its message. What kb checks itself is modelled whole: the required sections in
  their order, and the links, which land or wait. \<open>m\<close> bounds how deep the collections an item's type declares
  may nest in one another, as \<open>n\<close> bounds \<open>composition\<close>.
\<close>

section \<open>The composed schema\<close>

definition SECTION_SCHEMA :: val where
  "SECTION_SCHEMA = VMap [(KText ''type'', VStr ''object''),
     (KText ''properties'', VMap [(KText ''title'', VMap [(KText ''type'', VStr ''string'')]),
       (KText ''body'', VMap [(KText ''type'', VStr ''string'')]),
       (KText ''sections'', VMap [(KText ''type'', VStr ''array''),
          (KText ''items'', VMap [(KText ''$ref'', VStr ''#/$defs/kb-section'')])])]),
     (KText ''required'', VList [VStr ''title'', VStr ''body'']), (KText ''additionalProperties'', VBool False)]"

definition STRUCTURE :: val where
  "STRUCTURE = VMap [(KText ''properties'', VMap [(KText ''sections'', VMap [(KText ''type'', VStr ''array''),
     (KText ''items'', VMap [(KText ''$ref'', VStr ''#/$defs/kb-section'')])])])]"

definition all_of :: "obj \<Rightarrow> exn + val list" where
  "all_of m = (case dget m ''allOf'' of None \<Rightarrow> Inr [] | Some v \<Rightarrow> py_iter v)"

fun collection_shapes :: "nat \<Rightarrow> nat \<Rightarrow> val \<Rightarrow> corpus \<Rightarrow> exn + val list" where
  "collection_shapes 0 n schema c = Inl RecursionError"
| "collection_shapes (Suc m) n schema c = rbind (declared n schema c) (\<lambda>d.
     if d_parts d = [] then Inr []
     else rbind (rall (map (\<lambda>e. rbind (item_schema (snd e)) (\<lambda>item.
            rbind (collection_shapes m n item c) (\<lambda>inner.
            rbind (if inner = [] then Inr item
                   else case item of
                     VMap i \<Rightarrow> rbind (all_of i) (\<lambda>members. Inr (VMap (dput ''allOf'' (VList (members @ inner)) i)))
                   | _ \<Rightarrow> Inl TypeError) (\<lambda>shape.
            Inr (fst e, VMap [(KText ''type'', VStr ''array''), (KText ''items'', shape)])))) ) (d_parts d))) (\<lambda>shapes.
          Inr [VMap [(KText ''properties'', VMap shapes)]]))"

definition compose :: "nat \<Rightarrow> nat \<Rightarrow> val \<Rightarrow> corpus \<Rightarrow> exn + obj" where
  "compose m n schema c = (case schema of
     VMap s \<Rightarrow> rbind (all_of s) (\<lambda>members. rbind (collection_shapes m n schema c) (\<lambda>shapes.
       rbind (case dget s ''$defs'' of None \<Rightarrow> Inr [] | Some (VMap defs) \<Rightarrow> Inr defs | Some _ \<Rightarrow> Inl TypeError) (\<lambda>defs.
       Inr (dput ''$defs'' (VMap (dput ''kb-section'' SECTION_SCHEMA defs))
              (dput ''allOf'' (VList (members @ STRUCTURE # shapes)) s)))))
   | _ \<Rightarrow> Inl TypeError)"

section \<open>What JSON Schema found\<close>

record schema_error =
  se_path :: "string list"
  se_validator :: string
  se_message :: string

definition error_place :: "schema_error \<Rightarrow> string" where
  "error_place e = join_with ''/'' (se_path e)"

definition misread :: "string \<Rightarrow> schema_error list \<Rightarrow> bool" where
  "misread place errors = (let steps = split_on (CHR ''/'') place in
     list_ex (\<lambda>e. let at = (if se_path e = [] then [] else split_on (CHR ''/'') (error_place e))
       in take (length steps) at = steps \<or> (se_validator e = ''type'' \<and> take (length at) steps = at)) errors)"

section \<open>Links that land or wait\<close>

text \<open>Python's truth of a value, and \<open>in\<close> of a text.\<close>

definition truthy :: "val option \<Rightarrow> bool" where
  "truthy v = (case v of
     None \<Rightarrow> False | Some VNull \<Rightarrow> False | Some (VBool b) \<Rightarrow> b | Some (VInt i) \<Rightarrow> i \<noteq> 0
   | Some (VFloat s) \<Rightarrow> s \<notin> {''0.0'', ''-0.0''} | Some (VStr s) \<Rightarrow> s \<noteq> [] | Some (VList xs) \<Rightarrow> xs \<noteq> [] | Some (VMap m) \<Rightarrow> m \<noteq> [])"

definition text_in :: "string \<Rightarrow> val \<Rightarrow> exn + bool" where
  "text_in t v = (case v of
     VList xs \<Rightarrow> Inr (VStr t \<in> set xs)
   | VMap m \<Rightarrow> Inr (dget m t \<noteq> None)
   | VStr s \<Rightarrow> Inr (holds_text t s)
   | _ \<Rightarrow> Inl TypeError)"

definition ref_targets :: "val \<Rightarrow> exn + val" where
  "ref_targets ref = (case ref of
     VMap m \<Rightarrow> (case dget m ''targets'' of None \<Rightarrow> Inl (KeyError ''targets'') | Some v \<Rightarrow> Inr v) | _ \<Rightarrow> Inl TypeError)"

definition ref_parts :: "val \<Rightarrow> exn + bool" where
  "ref_parts ref = (case ref of VMap m \<Rightarrow> Inr (truthy (dget m ''parts'')) | _ \<Rightarrow> Inl AttributeError)"

definition val_waits :: "artifact_id \<Rightarrow> val \<Rightarrow> corpus \<Rightarrow> exn + bool" where
  "val_waits a ref c = rbind (nearest_type a c) (\<lambda>found. case found of
     None \<Rightarrow> Inr False
   | Some nearest \<Rightarrow> rbind (ref_targets ref) (\<lambda>targets. text_in (iri_of nearest) targets))"

text \<open>Whether the kind of the artifact held is one the field allows.\<close>

definition kind_allowed :: "artifact_id \<Rightarrow> val \<Rightarrow> corpus \<Rightarrow> exn + bool" where
  "kind_allowed a ref c = rbind (corpus_artifact c a) (\<lambda>m. rbind (settled_kind m) (\<lambda>k.
     rbind (ref_targets ref) (\<lambda>targets. text_in k targets)))"

definition val_lands :: "val \<Rightarrow> val \<Rightarrow> corpus \<Rightarrow> exn + bool" where
  "val_lands landing ref c = (case landing of
     VStr t \<Rightarrow> (case target t of
        Inl (Refused _) \<Rightarrow> Inr False
      | Inl e \<Rightarrow> Inl e
      | Inr l \<Rightarrow> rbind (if loc_place l = [] then Inr True else ref_parts ref) (\<lambda>parts.
          if \<not> parts then Inr False
          else if \<not> c_holds c (loc_id l) then val_waits (loc_id l) ref c
          else rbind (kind_allowed (loc_id l) ref c) (\<lambda>allowed.
            if \<not> allowed then Inr False
            else if loc_place l = [] then Inr True
            else rbind (corpus_artifact c (loc_id l)) (\<lambda>m. holds_part m (loc_place l)))))
   | _ \<Rightarrow> Inl AttributeError)"

definition keeps_waiting :: "link \<Rightarrow> artifact_id \<Rightarrow> corpus \<Rightarrow> exn + bool" where
  "keeps_waiting l a c = rbind (ref_parts (lk_ref l)) (\<lambda>parts.
     if parts \<and> c_holds c a then kind_allowed a (lk_ref l) c else Inr False)"

text \<open>Whether one link carried is refused: neither left unread, nor landing, nor waiting.\<close>

definition link_refused :: "(telling \<times> nat) set \<Rightarrow> bool \<Rightarrow> schema_error list \<Rightarrow> corpus \<Rightarrow> link \<times> (telling \<times> nat) option \<Rightarrow> exn + bool" where
  "link_refused waited imported errors c lt = (case lt of (l, as_told) \<Rightarrow>
     rbind (if misread (lk_place l) errors then Inr True else val_lands (lk_target l) (lk_ref l) c) (\<lambda>fine.
     if fine then Inr False
     else case as_told of
       None \<Rightarrow> Inr True
     | Some t \<Rightarrow> if imported \<or> t \<in> waited
         then rbind (keeps_waiting l (fst (snd (snd (fst t)))) c) (\<lambda>waits. Inr (\<not> waits)) else Inr True))"

definition val_unlanded :: "nat \<Rightarrow> obj \<Rightarrow> val \<Rightarrow> corpus \<Rightarrow> (telling \<times> nat) set \<Rightarrow> bool \<Rightarrow> schema_error list \<Rightarrow> exn + link list" where
  "val_unlanded n content schema c waited imported errors =
     rbind (carried n content schema c) (\<lambda>found. rbind (links_told found) (\<lambda>as_told.
     rbind (rall (map (link_refused waited imported errors c) (zip found as_told))) (\<lambda>refused.
     Inr (map fst (filter snd (zip found refused))))))"

section \<open>Required sections\<close>

definition title_at :: "val \<Rightarrow> exn + val" where
  "title_at v = (case v of
     VMap m \<Rightarrow> (case dget m ''title'' of None \<Rightarrow> Inl (KeyError ''title'') | Some t \<Rightarrow> Inr t) | _ \<Rightarrow> Inl TypeError)"

definition sections_in :: "val \<Rightarrow> exn + val list" where
  "sections_in v = (case v of
     VMap m \<Rightarrow> (case dget m ''sections'' of None \<Rightarrow> Inr [] | Some s \<Rightarrow> py_iter s) | _ \<Rightarrow> Inl AttributeError)"

text \<open>
  The sections a type requires inside one it requires; what is not a list and not empty raises when its first
  entry's title is read.
\<close>

definition required_in :: "val \<Rightarrow> exn + val list" where
  "required_in v = (case v of
     VMap m \<Rightarrow> (case dget m ''sections'' of
        None \<Rightarrow> Inr [] | Some (VList xs) \<Rightarrow> Inr xs | Some (VStr []) \<Rightarrow> Inr [] | Some (VMap []) \<Rightarrow> Inr [] | Some _ \<Rightarrow> Inl TypeError)
   | _ \<Rightarrow> Inl AttributeError)"

lemma required_in_size [termination_simp]:
  "required_in v = Inr xs \<Longrightarrow> size_list size xs < Suc (size v)"
  by (auto simp: required_in_def less_Suc_eq_le split: val.splits option.splits list.splits dest!: size_entry)

definition section_fault :: "string \<Rightarrow> string \<Rightarrow> val \<Rightarrow> bool \<Rightarrow> fault" where
  "section_fault a place wanted elsewhere = Fault a place SECTIONS_RULE
     (''the sections the type requires must all be present, in order; '' @ py_repr wanted @ '' ''
      @ (if elsewhere then ''is out of its place'' else ''is missing''))"

function (sequential) sections_from :: "string \<Rightarrow> val list \<Rightarrow> val list \<Rightarrow> val list \<Rightarrow> nat \<Rightarrow> string \<Rightarrow> exn + fault list" where
  "sections_from a sections titles [] at place = Inr []"
| "sections_from a sections titles (wanted # required) at place =
     rbind (title_at wanted) (\<lambda>t.
     if (case drop at titles of [] \<Rightarrow> False | found # _ \<Rightarrow> py_eq found t)
       then rbind (sections_in (sections ! at)) (\<lambda>inner. rbind (rall (map title_at inner)) (\<lambda>inner_titles.
            rbind (required_in wanted) (\<lambda>inner_required.
            rbind (sections_from a inner inner_titles inner_required 0 (place @ ''/'' @ nat_str at @ ''/sections'')) (\<lambda>faults.
            rbind (sections_from a sections titles required (Suc at) place) (\<lambda>more. Inr (faults @ more))))))
     else rbind (sections_from a sections titles required at place) (\<lambda>more.
            Inr (section_fault a place t (list_ex (\<lambda>x. py_eq x t) titles) # more)))"
  by pat_completeness auto
termination
  by (relation "measure (\<lambda>(a, s, ts, required, _). size_list size required)") (auto dest: required_in_size)

definition val_sections :: "string \<Rightarrow> val list \<Rightarrow> val list \<Rightarrow> string \<Rightarrow> exn + fault list" where
  "val_sections a sections required place = rbind (rall (map title_at sections)) (\<lambda>titles.
     sections_from a sections titles required 0 place)"

section \<open>Validation\<close>

text \<open>\<open>[section for part in composition(...) for section in part.get("sections", [])]\<close>.\<close>

definition required_sections :: "nat \<Rightarrow> val \<Rightarrow> corpus \<Rightarrow> exn + val list" where
  "required_sections n schema c = rbind (composition n schema c) (\<lambda>built.
     rbind (rall (map (\<lambda>part. case dget part ''sections'' of None \<Rightarrow> Inr [] | Some v \<Rightarrow> py_iter v) built)) (\<lambda>found.
     Inr (concat found)))"

definition val_misshapen :: "(obj \<Rightarrow> obj \<Rightarrow> schema_error list) \<Rightarrow> nat \<Rightarrow> nat \<Rightarrow> obj \<Rightarrow> val \<Rightarrow> corpus \<Rightarrow> exn + schema_error list" where
  "val_misshapen misshapen m n content schema c = rbind (compose m n schema c) (\<lambda>composed. Inr (misshapen composed content))"

definition validate :: "(obj \<Rightarrow> obj \<Rightarrow> schema_error list) \<Rightarrow> nat \<Rightarrow> nat \<Rightarrow> string \<Rightarrow> obj \<Rightarrow> val \<Rightarrow> corpus \<Rightarrow>
    (telling \<times> nat) set \<Rightarrow> bool \<Rightarrow> exn + fault list" where
  "validate misshapen m n a content schema c waited imported =
     rbind (val_misshapen misshapen m n content schema c) (\<lambda>errors.
     rbind (if misread ''sections'' errors then Inr []
            else rbind (required_sections n schema c) (\<lambda>required.
                 rbind (sections_in (VMap content)) (\<lambda>sections. val_sections a sections required ''sections''))) (\<lambda>sections.
     rbind (val_unlanded n content schema c waited imported errors) (\<lambda>found.
     Inr (map (\<lambda>e. Fault a (error_place e) (se_validator e) (se_message e)) errors @ sections @
          map (\<lambda>l. unlanded a (lk_place l) (py_str (lk_target l))) found))))"

section \<open>The required sections are there, in order\<close>

fun section_shaped :: "val \<Rightarrow> bool" where
  "section_shaped (VMap m) \<longleftrightarrow> is_str (dget m ''title'') \<and>
     (case dget m ''sections'' of None \<Rightarrow> True | Some (VList xs) \<Rightarrow> (\<forall>x \<in> set xs. section_shaped x) | Some _ \<Rightarrow> False)"
| "section_shaped v = False"

definition inner_sections :: "val \<Rightarrow> val list" where
  "inner_sections v = (case v of VMap m \<Rightarrow> (case dget m ''sections'' of Some (VList xs) \<Rightarrow> xs | _ \<Rightarrow> []) | _ \<Rightarrow> [])"

definition section_title :: "val \<Rightarrow> string" where
  "section_title v = (case v of VMap m \<Rightarrow> text_at m ''title'' | _ \<Rightarrow> [])"

text \<open>The sections required come first, under their titles, each holding those it requires.\<close>

function sections_fit :: "val list \<Rightarrow> val list \<Rightarrow> bool" where
  "sections_fit sections [] = True"
| "sections_fit [] (w # ws) = False"
| "sections_fit (s # ss) (w # ws) =
     (section_title s = section_title w \<and> sections_fit (inner_sections s) (inner_sections w) \<and> sections_fit ss ws)"
  by pat_completeness auto
termination
proof (relation "measure (\<lambda>(ss, ws). size_list size ws)")
  fix s ss w ws
  show "((inner_sections s, inner_sections w), s # ss, w # ws) \<in> measure (\<lambda>(ss, ws). size_list size ws)"
    by (auto simp: inner_sections_def less_Suc_eq_le split: val.splits option.splits dest!: size_entry)
qed auto

lemma shaped_title: "section_shaped v \<Longrightarrow> title_at v = Inr (VStr (section_title v))"
  by (cases v) (auto simp: title_at_def section_title_def text_at_def is_str_def split: option.splits val.splits)

lemma shaped_inner:
  "section_shaped v \<Longrightarrow> sections_in v = Inr (inner_sections v) \<and> required_in v = Inr (inner_sections v) \<and>
     (\<forall>x \<in> set (inner_sections v). section_shaped x)"
  by (cases v) (auto simp: sections_in_def required_in_def inner_sections_def py_iter_def split: option.splits val.splits)

lemma shaped_titles: "\<forall>x \<in> set xs. section_shaped x \<Longrightarrow> rall (map title_at xs) = Inr (map (\<lambda>x. VStr (section_title x)) xs)"
  by (rule rall_map) (simp add: shaped_title)

lemma rall_titles: "rall (map title_at xs) = Inr ts \<Longrightarrow> length ts = length xs"
  by (metis length_map rall_Inr_iff)

lemma sections_from_fit:
  assumes "\<forall>x \<in> set sections. section_shaped x" "\<forall>x \<in> set required. section_shaped x"
    and "titles = map (\<lambda>x. VStr (section_title x)) sections"
  shows "\<exists>faults. sections_from a sections titles required at place = Inr faults \<and>
    (faults = [] \<longleftrightarrow> sections_fit (drop at sections) required)"
  using assms
proof (induction a sections titles required at place rule: sections_from.induct)
  case (2 a sections titles wanted required at place)
  have w: "section_shaped wanted" and r: "\<forall>x \<in> set required. section_shaped x" using "2.prems"(2) by simp_all
  let ?t = "VStr (section_title wanted)"
  have t: "title_at wanted = Inr ?t" by (rule shaped_title [OF w])
  show ?case
  proof (cases "case drop at titles of [] \<Rightarrow> False | found # _ \<Rightarrow> py_eq found ?t")
    case True
    then have at: "at < length sections" "section_title (sections ! at) = section_title wanted"
      using "2.prems"(3) by (auto simp: drop_map Cons_nth_drop_Suc [symmetric] split: list.splits)
        (metis drop_all list.simps(8) not_less list.distinct(1), metis drop_eq_Nil2 hd_drop_conv_nth list.sel(1) list.discI not_less)
    then have s: "section_shaped (sections ! at)" using "2.prems"(1) by simp
    note inner = shaped_inner [OF s] and req = shaped_inner [OF w]
    have titles: "rall (map title_at (inner_sections (sections ! at))) =
        Inr (map (\<lambda>x. VStr (section_title x)) (inner_sections (sections ! at)))"
      using shaped_titles inner by blast
    obtain f1 where f1: "sections_from a (inner_sections (sections ! at))
        (map (\<lambda>x. VStr (section_title x)) (inner_sections (sections ! at))) (inner_sections wanted) 0
        (place @ ''/'' @ nat_str at @ ''/sections'') = Inr f1"
      "f1 = [] \<longleftrightarrow> sections_fit (inner_sections (sections ! at)) (inner_sections wanted)"
      using "2.IH"(1) [OF t True _ titles] inner req by auto
    obtain f2 where f2: "sections_from a sections titles required (Suc at) place = Inr f2"
      "f2 = [] \<longleftrightarrow> sections_fit (drop (Suc at) sections) required"
      using "2.IH"(2) [OF t True _ titles _ f1(1)] inner req "2.prems" r by auto
    show ?thesis
      using True t titles inner req f1 f2 at
      by (simp add: Cons_nth_drop_Suc [symmetric])
  next
    case False
    obtain f where "sections_from a sections titles required at place = Inr f"
      using "2.IH"(3) [OF t False] "2.prems" r by auto
    moreover have "\<not> sections_fit (drop at sections) (wanted # required)"
      using False "2.prems"(3) by (cases "drop at sections") (auto simp: drop_map)
    ultimately show ?thesis using False t by simp
  qed
qed simp


definition titled_section :: "string \<Rightarrow> val list \<Rightarrow> val" where
  "titled_section t inner = VMap [(KText ''title'', VStr t), (KText ''body'', VStr []), (KText ''sections'', VList inner)]"


section \<open>What validation lets through, the store lets land\<close>

lemma holds_part_steps: "place \<noteq> [] \<Longrightarrow> holds_part content place = Inr True \<Longrightarrow> place \<in> set (part_steps content)"
proof (induction "length place" arbitrary: content place rule: less_induct)
  case less
  show ?case
  proof (cases place)
    case (Cons c steps)
    show ?thesis
    proof (cases steps)
      case Nil
      with Cons less.prems show ?thesis by (simp add: holds_part_odd)
    next
      case steps: (Cons x rest)
      from less.prems(2) obtain i where i: "c \<noteq> ''sections''" "place_index c (dget content c) x = Some i"
        "rest = [] \<or> holds_part (item_at content c i) rest = Inr True"
        unfolding Cons steps holds_part_Cons by blast
      then obtain xs where xs: "dget content c = Some (VList xs)" "index_from 0 c xs x = Some i"
        by (auto simp: place_index_def split: option.splits val.splits)
      from index_from_sound [OF xs(2)] i(1) obtain m where m: "i < length xs" "xs ! i = VMap m" "named_text (VMap m) = Some x"
        by (auto simp: place_name_part)
      then have "item_at content c i = m" using xs(1) by (simp add: item_at_def as_map_def)
      with i(3) less.hyps [of rest m] Cons steps have "rest = [] \<or> rest \<in> set (part_steps m)" by auto
      moreover have "dget m ''id'' = Some (VStr x)" using m(3) by (auto simp: named_text_def split: option.splits val.splits)
      ultimately show ?thesis using xs(1) m(1,2) i(1) unfolding Cons steps part_steps_Cons by (auto dest: map_of_SomeD)
    qed
  qed (use less.prems in simp)
qed

lemma holds_part_listed: "place \<noteq> [] \<Longrightarrow> holds_part content place = Inr True \<Longrightarrow> names_placed place \<in> set (places_parts content)"
  using holds_part_steps by (simp add: places_parts_steps)

text \<open>Each artifact's rows say its kind and list its parts, as a set kb hands writes them.\<close>

definition rows_tell :: "db \<Rightarrow> bool" where
  "rows_tell db \<longleftrightarrow> (\<forall>r \<in> set (t_artifacts db). \<exists>m. decoded (a_content r) = Inr m \<and> settled_kind m = Inr (a_kind r) \<and>
     (\<forall>p \<in> set (places_parts m). (a_id r, p) \<in> set (t_parts db)))"

text \<open>A corpus that says and reads what a database does.\<close>

definition reads_like :: "corpus \<Rightarrow> db \<Rightarrow> bool" where
  "reads_like c db \<longleftrightarrow> (\<forall>a. c_holds c a = sq_holds db a \<and>
     (sq_holds db a \<longrightarrow> (\<exists>m. sq_artifact db a = Inr m \<and> c_artifact c a = Some m)))"

lemma rows_tell_held:
  assumes "rows_tell db" "reads_like c db" "corpus_artifact c a = Inr m" "sq_holds db a"
  obtains r rs where "sq_rows db a = r # rs" "settled_kind m = Inr (a_kind r)" "set (places_parts m) \<subseteq> set (sq_parts db a)"
proof -
  from assms(4) obtain r rs where r: "sq_rows db a = r # rs" by (cases "sq_rows db a") (auto simp: sq_holds_def)
  have "r \<in> set (sq_rows db a)" using r by simp
  then have in_rows: "r \<in> set (t_artifacts db)" "a_id r = iri_of a" by (auto simp: sq_rows_def)
  from assms(2-4) have "sq_artifact db a = Inr m"
    by (auto simp: reads_like_def corpus_artifact_def split: option.splits)
  with r have m: "decoded (a_content r) = Inr m" by (simp add: sq_artifact_def)
  from bspec [OF assms(1) [unfolded rows_tell_def] in_rows(1)] m have "settled_kind m = Inr (a_kind r)"
    "\<forall>p \<in> set (places_parts m). (iri_of a, p) \<in> set (t_parts db)" by (auto simp: in_rows(2))
  then show ?thesis using that [OF r] by (force simp: sq_parts_def)
qed

lemma text_in_kinds: "ref_targets ref = Inr (VList ks) \<Longrightarrow> link_kinds ref = Inr kinds \<Longrightarrow> text_in k (VList ks) = Inr True \<Longrightarrow> k \<in> set kinds"
  by (force simp: ref_targets_def link_kinds_def text_in_def py_iter_def texts_of_def List.map_filter_def
      split: val.splits option.splits)

lemma nearest_type_held: "nearest_type a c = Inr (Some t) \<Longrightarrow> c_holds c t"
proof -
  have "first_typed xs c = Inr (Some t) \<Longrightarrow> c_holds c t" for xs
    by (induction xs) (auto simp: results typed_at_def split: if_splits)
  then show "nearest_type a c = Inr (Some t) \<Longrightarrow> c_holds c t" by (simp add: nearest_type_def)
qed

lemma kind_allowed_row:
  assumes "rows_tell db" "reads_like c db" "sq_holds db a" "kind_allowed a ref c = Inr True"
    and "ref_targets ref = Inr (VList ks)" "link_kinds ref = Inr kinds"
  obtains m r rs where "corpus_artifact c a = Inr m" "sq_rows db a = r # rs" "a_kind r \<in> set kinds"
    "set (places_parts m) \<subseteq> set (sq_parts db a)"
proof -
  from assms(4,5) obtain m k where m: "corpus_artifact c a = Inr m" "settled_kind m = Inr k" "text_in k (VList ks) = Inr True"
    by (auto simp: kind_allowed_def results)
  from rows_tell_held [OF assms(1,2) m(1) assms(3)] obtain r rs where r: "sq_rows db a = r # rs"
    "settled_kind m = Inr (a_kind r)" "set (places_parts m) \<subseteq> set (sq_parts db a)" by blast
  with m text_in_kinds [OF assms(5,6)] have "a_kind r \<in> set kinds" by simp
  with that m(1) r show ?thesis by blast
qed

text \<open>One link that validation lets land, or wait, read as the port takes it.\<close>

lemma val_lands_lands:
  assumes ok: "rows_tell db" "reads_like c db" and v: "val_lands (VStr t) ref c = Inr True" and l: "target t = Inr l"
    and kinds: "ref_targets ref = Inr (VList ks)" "link_kinds ref = Inr kinds"
    and pl: "l_target pl = loc_id l" "l_part pl = names_placed (loc_place l)" "l_kinds pl = kinds" "\<not> l_implicit pl"
      "nearest_type (loc_id l) c = Inr (l_under pl)"
  shows "lands db pl as_told waited"
proof (cases "sq_holds db (loc_id l)")
  case False
  then have none: "\<not> c_holds c (loc_id l)" using ok(2) by (simp add: reads_like_def)
  have "val_waits (loc_id l) ref c = Inr True"
    using v l none by (auto simp: val_lands_def results split: if_splits)
  then obtain nearest where u: "nearest_type (loc_id l) c = Inr (Some nearest)" "text_in (iri_of nearest) (VList ks) = Inr True"
    using kinds(1) by (auto simp: val_waits_def results split: option.splits)
  have "sq_holds db nearest" using nearest_type_held [OF u(1)] ok(2) by (simp add: reads_like_def)
  moreover have "iri_of nearest \<in> set kinds" by (rule text_in_kinds [OF kinds u(2)])
  ultimately show ?thesis using False u(1) pl by (auto simp: lands_def sq_holds_def vouched_def)
next
  case True
  then have held: "c_holds c (loc_id l)" using ok(2) by (simp add: reads_like_def)
  have allowed: "kind_allowed (loc_id l) ref c = Inr True"
    using v l held by (auto simp: val_lands_def results split: if_splits)
  from kind_allowed_row [OF ok True allowed kinds] obtain m r rs where m: "corpus_artifact c (loc_id l) = Inr m"
    "sq_rows db (loc_id l) = r # rs" "a_kind r \<in> set kinds" "set (places_parts m) \<subseteq> set (sq_parts db (loc_id l))" by blast
  have "l_part pl = [] \<or> l_part pl \<in> set (sq_parts db (loc_id l))"
  proof (cases "loc_place l = []")
    case False
    with v l held m(1) allowed have "holds_part m (loc_place l) = Inr True"
      by (auto simp: val_lands_def results split: if_splits)
    with holds_part_listed [OF False] m(4) pl(2) show ?thesis by auto
  qed (simp add: pl(2) names_placed_def)
  with m pl show ?thesis by (simp add: lands_def)
qed

lemma keeps_waiting_lands:
  assumes ok: "rows_tell db" "reads_like c db" and k: "keeps_waiting lk (l_target pl) c = Inr True"
    and kinds: "ref_targets (lk_ref lk) = Inr (VList ks)" "link_kinds (lk_ref lk) = Inr (l_kinds pl)"
    and waits: "l_imported pl \<or> (l_waits pl \<and> as_told = Some tt \<and> tt \<in> waited)"
  shows "lands db pl as_told waited"
proof -
  from k have c: "c_holds c (l_target pl)" "kind_allowed (l_target pl) (lk_ref lk) c = Inr True"
    by (auto simp: keeps_waiting_def results split: if_splits)
  then have held: "sq_holds db (l_target pl)" using ok(2) by (simp add: reads_like_def)
  from kind_allowed_row [OF ok held c(2) kinds] obtain r rs where "sq_rows db (l_target pl) = r # rs" "a_kind r \<in> set (l_kinds pl)"
    by blast
  with waits show ?thesis by (auto simp: lands_def)
qed

lemma reads_zip:
  assumes "rall (map link_read found) = Inr read" "length ts = length (somes read)" "j < length (somes read)"
  shows "\<exists>lk. (lk, ts ! j) \<in> set (zip found (spread read ts)) \<and> link_read lk = Inr (Some (somes read ! j))"
  using assms
proof (induction found arbitrary: read ts j)
  case (Cons f found)
  from Cons.prems(1) obtain r rs where r: "link_read f = Inr r" "rall (map link_read found) = Inr rs" "read = r # rs"
    by (auto simp: results)
  show ?case
  proof (cases r)
    case None
    with Cons.IH [OF r(2), of ts j] Cons.prems r show ?thesis by auto
  next
    case (Some x)
    then obtain t ts' where ts: "ts = t # ts'" using Cons.prems(2) r by (cases ts) auto
    show ?thesis
    proof (cases j)
      case 0
      with Some r ts show ?thesis by (auto intro!: exI [of _ f])
    next
      case (Suc i)
      with Cons.IH [OF r(2), of ts' i] Cons.prems r Some ts show ?thesis by auto
    qed
  qed
qed simp

lemma link_read_Some:
  assumes "link_read lk = Inr (Some pl)"
  obtains t l kinds where "lk_target lk = VStr t" "target t = Inr l" "link_kinds (lk_ref lk) = Inr kinds" "l_target pl = loc_id l"
    "l_part pl = names_placed (loc_place l)" "l_kinds pl = kinds" "\<not> l_implicit pl"
proof (cases "lk_target lk")
  case (VStr t)
  show ?thesis
  proof (cases "target t")
    case (Inl e)
    with assms VStr show ?thesis by (cases e) (auto simp: link_read_def)
  next
    case (Inr l)
    with assms VStr obtain kinds where "link_kinds (lk_ref lk) = Inr kinds" "pl = port_link (lk_field lk) (lk_place lk) (loc_id l)
        (names_placed (loc_place l)) kinds (Some (lk_holder lk))" by (auto simp: link_read_def rbind_Inr_iff)
    with that [OF VStr Inr] show ?thesis by (simp add: port_link_def)
  qed
qed (use assms in \<open>simp_all add: link_read_def\<close>)

lemma none_refused:
  assumes "val_unlanded n artifact schema c waited imported [] = Inr []" "carried n artifact schema c = Inr found"
    and "links_told found = Inr ts" "x \<in> set (zip found ts)"
  shows "link_refused waited imported [] c x = Inr False"
proof -
  from assms(1-3) obtain rs where rs: "rall (map (link_refused waited imported [] c) (zip found ts)) = Inr rs"
    "filter snd (zip found rs) = []" by (auto simp: val_unlanded_def results)
  then have m: "map (link_refused waited imported [] c) (zip found ts) = map Inr rs" by (simp add: rall_Inr_iff)
  obtain i where i: "i < length (zip found ts)" "x = zip found ts ! i" using assms(4) by (metis in_set_conv_nth)
  have len: "length rs = length (zip found ts)" using arg_cong [OF m, of length] by simp
  have "link_refused waited imported [] c x = Inr (rs ! i)"
    using arg_cong [OF m, of "\<lambda>xs. xs ! i"] i len by simp
  moreover have "(found ! i, rs ! i) \<in> set (zip found rs)" using i len by (auto simp: set_zip)
  with rs(2) have "\<not> rs ! i" by (auto simp: filter_empty_conv)
  ultimately show ?thesis by simp
qed

text \<open>
  C4: what validation lets through the store lets land: when no link of an artifact is refused against a corpus that
  reads as the database does, as a draft reads as the store its set leaves, then each link handed for it passes the
  check the landing makes of it there, those that wait among them; so a drafted set is never refused for a link
  of its own unless the store moved meanwhile.
\<close>

theorem validated_links_land:
  assumes ok: "rows_tell db" "reads_like c db"
    and v: "val_unlanded n artifact schema c waited imported [] = Inr []"
    and h: "dget typed ''schema'' = Some schema" "handed n artifact c typed waited = Inr (first # own)"
    and lists: "\<And>found l. carried n artifact schema c = Inr found \<Longrightarrow> l \<in> set found \<Longrightarrow> \<exists>ks. ref_targets (lk_ref l) = Inr (VList ks)"
    and j: "j < length own"
  shows "lands db ((own ! j) \<lparr>l_imported := imported\<rparr>) (told (map link_key own) ! j) waited"
proof -
  from h obtain k found read own' where r: "carried n artifact schema c = Inr found" "rall (map link_read found) = Inr read"
    "map (\<lambda>lt. says_waits waited lt c) (zip (somes read) (told (map link_key (somes read)))) = map Inr own'"
    "first # own = implicit_link k # own'"
    by (auto simp: handed_def results Let_def rall_Inr_iff)
  let ?t = "told (map link_key (somes read))"
  have len: "length own = length (somes read)" using arg_cong [OF r(3), of length] r(4) by simp
  have each: "says_waits waited (somes read ! i, ?t ! i) c = Inr (own ! i)" if "i < length own" for i
    using arg_cong [OF r(3), of "\<lambda>xs. xs ! i"] that len r(4) by simp
  have keys: "map link_key own = map link_key (somes read)"
    using len each by (fastforce simp: list_eq_iff_nth_eq says_waits_Inr link_key_def)
  obtain lk where lk: "(lk, ?t ! j) \<in> set (zip found (spread read ?t))" "link_read lk = Inr (Some (somes read ! j))"
    using reads_zip [OF r(2), of ?t j] j len by auto
  have told: "links_told found = Inr (spread read ?t)" using r(2) by (simp add: links_told_def)
  have fine: "link_refused waited imported [] c (lk, ?t ! j) = Inr False" by (rule none_refused [OF v r(1) told lk(1)])
  obtain ks where ks: "ref_targets (lk_ref lk) = Inr (VList ks)" using lists [OF r(1)] lk(1) by (meson set_zip_leftD)
  from link_read_Some [OF lk(2)] obtain t l kinds where t: "lk_target lk = VStr t" "target t = Inr l"
    "link_kinds (lk_ref lk) = Inr kinds" "l_target (somes read ! j) = loc_id l" "l_part (somes read ! j) = names_placed (loc_place l)"
    "l_kinds (somes read ! j) = kinds" "\<not> l_implicit (somes read ! j)" .
  let ?pl = "(own ! j) \<lparr>l_imported := imported\<rparr>"
  from each [OF j] have pl: "l_target ?pl = loc_id l" "l_part ?pl = names_placed (loc_place l)" "l_kinds ?pl = kinds" "\<not> l_implicit ?pl"
    "nearest_type (loc_id l) c = Inr (l_under ?pl)" "l_waits ?pl \<longleftrightarrow> ?t ! j \<in> Some ` waited"
    using t by (auto simp: says_waits_Inr link_under_def split: option.splits)
  show ?thesis
  proof (cases "val_lands (VStr t) (lk_ref lk) c = Inr True")
    case True
    from val_lands_lands [OF ok True t(2) ks t(3) pl(1-5)] show ?thesis by simp
  next
    case False
    with fine t(1) obtain tt where tt: "?t ! j = Some tt" "imported \<or> tt \<in> waited"
      "keeps_waiting lk (fst (snd (snd (fst tt)))) c = Inr True"
      by (auto simp: link_refused_def misread_def results split: option.splits if_splits)
    have "fst tt = link_key (somes read ! j)"
      using tt(1) j len by (auto simp: told_nth split: if_splits)
    then have "fst (snd (snd (fst tt))) = l_target ?pl" using t(4) pl(1) by (simp add: link_key_def)
    with tt have "keeps_waiting lk (l_target ?pl) c = Inr True" by simp
    moreover have "l_imported ?pl \<or> (l_waits ?pl \<and> ?t ! j = Some tt \<and> tt \<in> waited)" using tt pl(6) by auto
    ultimately show ?thesis using keeps_waiting_lands [OF ok _ ks, of ?pl] t(3) pl(3) keys by simp
  qed
qed

definition type_held :: db where
  "type_held = made_db \<lparr>t_artifacts := [\<lparr>a_id = ''https://a.io/t'', a_kind = TYPES, a_revision = 1,
     a_content = JMap [(''type'', JStr ''https://missingmass.io/kb/type@1'')]\<rparr>]\<rparr>"

lemma type_held_reads:
  "sq_holds type_held a \<longleftrightarrow> a = ArtifactId ''https://a.io/t''"
  "sq_artifact type_held (ArtifactId ''https://a.io/t'') = Inr [(KText ''type'', VStr ''https://missingmass.io/kb/type@1'')]"
  by (cases a, auto simp: sq_holds_def sq_rows_def type_held_def sq_artifact_def decoded_def json_mapping_def PAIRS_def)

lemma validated_links_land_witness:
  "\<exists>own. handed 3 plan_held (sq_corpus py_str type_held) [(KText ''schema'', step_schema)] {} = Inr own \<and>
     lands type_held ((own ! 1) \<lparr>l_imported := False\<rparr>) (told (map link_key (tl own)) ! 0) {}"
proof -
  let ?c = "sq_corpus py_str type_held"
  have "(case handed 3 plan_held ?c [(KText ''schema'', step_schema)] {} of Inr (_ # _ # _) \<Rightarrow> True | _ \<Rightarrow> False)" by code_simp
  then obtain first l own where h: "handed 3 plan_held ?c [(KText ''schema'', step_schema)] {} = Inr (first # l # own)"
    by (auto split: sum.splits list.splits)
  have v: "val_unlanded 3 plan_held step_schema ?c {} False [] = Inr []" by code_simp
  have rows: "rows_tell type_held"
  proof -
    have "settled_kind [(KText ''type'', VStr ''https://missingmass.io/kb/type@1'')] = Inr TYPES" by code_simp
    then show ?thesis
      by (simp add: rows_tell_def type_held_def decoded_def json_mapping_def PAIRS_def places_parts.simps)
  qed
  have reads: "reads_like ?c type_held"
    by (simp add: reads_like_def type_held_reads sq_corpus_def)
  have lists: "\<exists>ks. ref_targets (lk_ref x) = Inr (VList ks)"
    if "carried 3 plan_held step_schema ?c = Inr found" "x \<in> set found" for found x
  proof -
    have "(case carried 3 plan_held step_schema ?c of Inr ls \<Rightarrow>
        list_all (\<lambda>x. ref_targets (lk_ref x) = Inr (VList [VStr ''https://a.io/t''])) ls | Inl _ \<Rightarrow> False)" by code_simp
    with that show ?thesis by (auto simp: list_all_iff)
  qed
  have "lands type_held (((l # own) ! 0) \<lparr>l_imported := False\<rparr>) (told (map link_key (l # own)) ! 0) {}"
    by (rule validated_links_land [OF rows reads v _ h lists]) simp_all
  with h show ?thesis by auto
qed

section \<open>Types accepted that validation cannot read\<close>

definition untyped_link :: obj where
  "untyped_link = [(KText ''properties'', VMap [(KText ''on'', VMap [(KText ''ref'', VMap [(KText ''cardinality'', VStr ''one''),
     (KText ''parts'', VBool False), (KText ''on_delete'', VStr ''refuse''), (KText ''targets'', VList [VStr ''https://a.io/t''])])])])]"

text \<open>
  A link field whose schema does not say its value is text is accepted in a type; an artifact holding a number there
  has nothing against JSON Schema, and its validation raises \<open>AttributeError\<close>.
\<close>

lemma untyped_link_raises:
  "definition_faults (ArtifactId ''https://a.io/n'') [(KText ''schema'', VMap untyped_link)] empty_corpus = Inr [] \<and>
   val_unlanded 2 [(KText ''on'', VInt 5)] (VMap untyped_link) empty_corpus {} False [] = Inl AttributeError"
proof
  show "definition_faults (ArtifactId ''https://a.io/n'') [(KText ''schema'', VMap untyped_link)] empty_corpus = Inr []"
    by code_simp
  have "(case val_unlanded 2 [(KText ''on'', VInt 5)] (VMap untyped_link) empty_corpus {} False [] of
      Inl AttributeError \<Rightarrow> True | _ \<Rightarrow> False)" by code_simp
  then show "val_unlanded 2 [(KText ''on'', VInt 5)] (VMap untyped_link) empty_corpus {} False [] = Inl AttributeError"
    by (auto split: sum.splits exn.splits)
qed

text \<open>
  A type that requires sections by their titles alone, as texts, is accepted, and then every artifact of it without
  an error of JSON Schema's raises \<open>TypeError\<close> as its sections are checked.
\<close>

lemma section_texts_raise:
  "definition_faults (ArtifactId ''https://a.io/n'') [(KText ''schema'', VMap [(KText ''sections'', VList [VStr ''Why''])])] empty_corpus
     = Inr [] \<and>
   validate (\<lambda>_ _. []) 2 2 ''https://a.io/n/x'' content (VMap [(KText ''sections'', VList [VStr ''Why''])]) empty_corpus {} False
     \<in> range Inl"
proof
  show "definition_faults (ArtifactId ''https://a.io/n'') [(KText ''schema'', VMap [(KText ''sections'', VList [VStr ''Why''])])]
     empty_corpus = Inr []" by code_simp
  have c: "\<exists>composed. compose 2 2 (VMap [(KText ''sections'', VList [VStr ''Why''])]) empty_corpus = Inr composed"
  proof -
    have "\<not> isl (compose 2 2 (VMap [(KText ''sections'', VList [VStr ''Why''])]) empty_corpus)" by code_simp
    then show ?thesis by (cases "compose 2 2 (VMap [(KText ''sections'', VList [VStr ''Why''])]) empty_corpus") auto
  qed
  have r: "required_sections 2 (VMap [(KText ''sections'', VList [VStr ''Why''])]) empty_corpus = Inr [VStr ''Why'']"
    by code_simp
  have s: "val_sections a xs [VStr ''Why''] p \<in> range Inl" for a xs p
    by (cases "rall (map title_at xs)") (simp_all add: val_sections_def title_at_def)
  show "validate (\<lambda>_ _. []) 2 2 ''https://a.io/n/x'' content (VMap [(KText ''sections'', VList [VStr ''Why''])]) empty_corpus {} False
     \<in> range Inl"
  proof (cases "sections_in (VMap content)")
    case (Inl e)
    with c r show ?thesis by (auto simp: validate_def val_misshapen_def misread_def)
  next
    case (Inr xs)
    obtain e where "val_sections ''https://a.io/n/x'' xs [VStr ''Why''] ''sections'' = Inl e"
      using s [of "''https://a.io/n/x''" xs "''sections''"] by blast
    with c r Inr show ?thesis by (auto simp: validate_def val_misshapen_def misread_def)
  qed
qed

end
