(* ===== verification/KB_Standing.thy ===== *)
theory KB_Standing
  imports KB_Validation
begin

text \<open>
  \<open>standing.py\<close> and \<open>naming.py\<close>: what a type's place is settled by, read from the draft as it stands, the IRI a create
  gives, and the items of what an operation puts in the draft named through \<open>item_names.py\<close>, whose \<open>inner\<close> here
  reads what an item's type declares; a read that raises is raised where it is first reached.
\<close>

section \<open>What a type's place is settled by\<close>

definition TYPE_OF_TYPES :: artifact_id where "TYPE_OF_TYPES = type_of TYPE_KIND"

definition by_name :: "artifact_id list \<Rightarrow> artifact_id list" where
  "by_name found = sort_key (\<lambda>a. names_order (iri_of a)) (once_each found)"

fun filter_results :: "('a \<Rightarrow> exn + bool) \<Rightarrow> 'a list \<Rightarrow> exn + 'a list" where
  "filter_results f [] = Inr []"
| "filter_results f (x # xs) = rbind (f x) (\<lambda>b. rbind (filter_results f xs) (\<lambda>ys. Inr (if b then x # ys else ys)))"

definition standing_under :: "nat \<Rightarrow> port_reads \<Rightarrow> draft \<Rightarrow> artifact_id \<Rightarrow> exn + artifact_id option \<times> artifact_id list" where
  "standing_under n p d type_id = rbind (nearest_type type_id (draft_corpus p d)) (\<lambda>found. case found of
     None \<Rightarrow> Inr (None, [])
   | Some other \<Rightarrow>
       rbind (if other = TYPE_OF_TYPES then Inr [] else draft_ids p d (Kind (iri_of other))) (\<lambda>kinds.
       let held = filter (\<lambda>a. iri_of type_id \<in> set (above (iri_of a))) kinds;
           own = (if other = TYPE_OF_TYPES then [] else [type_id])
       in rbind (draft_waiting n p d) (\<lambda>waiting.
          rbind (filter_results (\<lambda>l. if ln_target l \<in> set own then Inr True
                   else nearest_was (ln_target l) type_id (draft_corpus p d)) waiting) (\<lambda>waited.
          Inr (Some other, by_name (held @ map ln_target waited))))))"

text \<open>\<open>_between\<close>: the IRIs an IRI sits under that sit under a type's.\<close>

definition iris_between :: "artifact_id \<Rightarrow> artifact_id \<Rightarrow> artifact_id list" where
  "iris_between a type_id =
     (if iri_of type_id \<in> set (above (iri_of a))
        then map ArtifactId (takeWhile (\<lambda>x. x \<noteq> iri_of type_id) (above (iri_of a))) else [])"

definition open_iris :: "change \<Rightarrow> exn + artifact_id list" where
  "open_iris ch = (if ch_content ch = None then Inr []
     else rbind (if ch_read ch = 0 \<and> ch_kind ch \<noteq> Some TYPE_KIND
                   then (case ch_kind ch of None \<Rightarrow> Inl AttributeError | Some k \<Rightarrow> Inr (iris_between (ch_artifact ch) (type_of k)))
                 else Inr []) (\<lambda>own.
       Inr (once_each (own @ concat (map (\<lambda>l. case l_under l of
              Some nearest \<Rightarrow> if l_implicit l then [] else iris_between (l_target l) nearest | None \<Rightarrow> []) (ch_links ch))))))"

definition guarded :: "port_reads \<Rightarrow> draft \<Rightarrow> change list \<Rightarrow> exn + change list \<times> bool" where
  "guarded p d chs = rbind (rall (map open_iris chs)) (\<lambda>opens.
     let found = map (filter (\<lambda>a. \<not> draft_changed d a)) opens
     in Inr (map2 (\<lambda>ch gap. ch \<lparr>ch_through := ch_through ch @ map (\<lambda>a. (a, 0)) (filter (\<lambda>a. \<not> draft_holds p d a) gap)\<rparr>) chs found,
             list_ex (draft_holds p d) (concat found)))"

section \<open>The IRI a create gives\<close>

definition naming_under :: "port_reads \<Rightarrow> draft \<Rightarrow> artifact_id \<Rightarrow> artifact_id \<Rightarrow> exn + fault list" where
  "naming_under p d name type_id =
     (if type_id = TYPE_OF_TYPES then Inr []
      else rbind (nearest_type name (draft_corpus p d)) (\<lambda>found.
        Inr (if found = Some type_id then [] else [not_under name type_id])))"

definition naming_standing :: "nat \<Rightarrow> port_reads \<Rightarrow> draft \<Rightarrow> artifact_id \<Rightarrow> artifact_id \<Rightarrow> exn + fault list" where
  "naming_standing n p d name type_id =
     (if type_id \<noteq> TYPE_OF_TYPES then Inr []
      else rbind (standing_under n p d name) (\<lambda>(other, sitting).
        Inr (case other of None \<Rightarrow> [] | Some o' \<Rightarrow> map (\<lambda>each. belongs name each o') sitting)))"

definition naming_identity :: "nat \<Rightarrow> port_reads \<Rightarrow> draft \<Rightarrow> artifact_id \<Rightarrow> fault list \<Rightarrow> artifact_id \<Rightarrow> exn + fault list" where
  "naming_identity n p d name twice type_id = rbind (naming_under p d name type_id) (\<lambda>faults.
     if twice \<noteq> [] then Inr (faults @ twice)
     else if draft_holds p d name then Inr (faults @ [already_held name])
     else rbind (naming_standing n p d name type_id) (\<lambda>more. Inr (faults @ more)))"

definition naming_placed :: "nat \<Rightarrow> port_reads \<Rightarrow> draft \<Rightarrow> artifact_id \<Rightarrow> artifact_id \<Rightarrow> exn + fault list" where
  "naming_placed n p d name type_id = rbind (naming_under p d name type_id) (\<lambda>faults.
     rbind (naming_standing n p d name type_id) (\<lambda>more. Inr (faults @ more)))"

section \<open>Items named\<close>

text \<open>\<open>_parts\<close>: the collections an item's type declares; and those the walk over an artifact's items reads.\<close>

definition inner_parts :: "nat \<Rightarrow> corpus \<Rightarrow> val \<Rightarrow> exn + obj" where
  "inner_parts n c part = rbind (item_schema part) (\<lambda>schema. rbind (declared n schema c) (\<lambda>d. Inr (d_parts d)))"

definition inner_of :: "nat \<Rightarrow> corpus \<Rightarrow> val \<Rightarrow> obj" where
  "inner_of n c part = (case inner_parts n c part of Inl _ \<Rightarrow> [] | Inr parts \<Rightarrow> parts)"

function (sequential) parts_reached :: "obj \<Rightarrow> obj \<Rightarrow> (val \<Rightarrow> obj) \<Rightarrow> val list"
  and items_reached :: "val \<Rightarrow> val list \<Rightarrow> (val \<Rightarrow> obj) \<Rightarrow> val list" where
  "parts_reached [] node inner = []"
| "parts_reached ((collection, part) # parts) node inner =
     items_reached part (listed node collection) inner @ parts_reached parts node inner"
| "items_reached part [] inner = []"
| "items_reached part (VMap item # rest) inner = part # parts_reached (inner part) item inner @ items_reached part rest inner"
| "items_reached part (other # rest) inner = items_reached part rest inner"
  by pat_completeness auto
termination
  by (relation "inv_image (less_than <*lex*> less_than)
        (\<lambda>x. case x of Inl (parts, node, inner) \<Rightarrow> (Suc (size_list (size_prod (\<lambda>_. 0) size) node), length parts)
             | Inr (part, found, inner) \<Rightarrow> (size_list size found, 0))")
     (auto simp: size_listed_items le_imp_less_Suc)

text \<open>What a walk over the items gives, once every read it makes has answered.\<close>

definition reading_parts :: "nat \<Rightarrow> corpus \<Rightarrow> obj \<Rightarrow> obj \<Rightarrow> 'a \<Rightarrow> exn + 'a" where
  "reading_parts n c parts node found =
     rbind (rall (map (inner_parts n c) (parts_reached parts node (inner_of n c)))) (\<lambda>_. Inr found)"

definition naming_items :: "nat \<Rightarrow> corpus \<Rightarrow> artifact_id \<Rightarrow> declares \<Rightarrow> obj \<Rightarrow> exn + obj \<times> fault list" where
  "naming_items n c a d content =
     rbind (reading_parts n c (d_parts d) content (given (d_parts d) content (inner_of n c) [])) (\<lambda>found.
     rbind (rall (map (misnamed_part a) found)) (\<lambda>misnamed.
     Inr (if misnamed = [] then items (d_parts d) content (inner_of n c) else content, misnamed)))"

definition naming_revised :: "nat \<Rightarrow> corpus \<Rightarrow> artifact_id \<Rightarrow> declares \<Rightarrow> obj \<Rightarrow> obj \<Rightarrow> exn + obj \<times> fault list" where
  "naming_revised n c a d content before =
     rbind (reading_parts n c (d_parts d) content (handed_back (d_parts d) content before (inner_of n c) [])) (\<lambda>found.
     let misnamed = map (misnamed_fault a) found
     in Inr (if misnamed = [] then items (d_parts d) content (inner_of n c) else content, misnamed))"

definition schema_of :: "obj \<Rightarrow> exn + val" where
  "schema_of content = (case dget content ''schema'' of None \<Rightarrow> Inl (KeyError ''schema'') | Some s \<Rightarrow> Inr s)"

definition naming_imported :: "nat \<Rightarrow> corpus \<Rightarrow> artifact_id \<Rightarrow> obj \<Rightarrow> exn + obj \<times> fault list" where
  "naming_imported n c a artifact = rbind (conformed artifact c) (\<lambda>typed. rbind (schema_of typed) (\<lambda>schema.
     rbind (declared n schema c) (\<lambda>d. rbind (naming_items n c a d artifact) (\<lambda>(named, misnamed).
     rbind (settled_order named (declares_map d)) (\<lambda>ordered. Inr (ordered, misnamed))))))"

definition naming_numbered :: "port_reads \<Rightarrow> draft \<Rightarrow> artifact_id \<Rightarrow> obj \<Rightarrow> exn + obj \<times> draft" where
  "naming_numbered p d type_id content = rbind (draft_numbered p d type_id) (\<lambda>(number, d).
     Inr (case dget content ''version'' of
            None \<Rightarrow> dput ''version'' (VInt number) content
          | Some (VInt _) \<Rightarrow> dput ''version'' (VInt number) content
          | Some (VFloat _) \<Rightarrow> dput ''version'' (VInt number) content
          | Some _ \<Rightarrow> content, d))"

end
