(* ===== verification/KB_Edits.thy ===== *)
theory KB_Edits
  imports KB_Standing
begin

text \<open>
  \<open>edits.py\<close>: what each operation of a set does to the draft, and the operations as \<open>changes.py\<close> and
  \<open>content_values.py\<close> give them. An operation is a function from the draft to what it did, or the exception it raised, and
  the draft it leaves, so that what was put before an exception is still there. A copy of what an operation was asked
  to put is a value here; \<open>item\<close> and \<open>spot.holder\<close>, which the code writes through, are read again from the content
  they stand in.
\<close>

section \<open>Operations\<close>

record content_read =
  ct_tree :: val
  ct_problems :: "(string \<times> string \<times> string) list"

definition content_refusal :: "content_read \<Rightarrow> string \<Rightarrow> fault list" where
  "content_refusal ct artifact = map (\<lambda>(path, rule, message). Fault artifact path rule message) (ct_problems ct)"

record create_op =
  cr_name :: artifact_id
  cr_version :: version
  cr_title :: string
  cr_title_faults :: "fault list"
  cr_content :: content_read
  cr_carried :: "fault list"

record replace_op =
  rp_locator :: locator
  rp_content :: content_read
  rp_expected :: "int option"
  rp_version :: "version option"

record add_op =
  ad_locator :: locator
  ad_item :: content_read
  ad_expected :: "int option"

record remove_op =
  rm_locator :: locator
  rm_expected :: "int option"

datatype operation =
    Create create_op
  | Replace replace_op
  | Add add_op
  | Remove remove_op
  | Import artifact_id obj
  | Refusal_op "fault list"

record edit =
  ed_op :: string
  ed_artifact :: artifact_id
  ed_path :: string
  ed_item :: string
  ed_revision :: int
  ed_type :: string
  ed_left :: "obj option"
  ed_acted :: "obj option"
  ed_faults :: "fault list"

definition new_edit :: "string \<Rightarrow> artifact_id \<Rightarrow> fault list \<Rightarrow> edit" where
  "new_edit op a faults = \<lparr>ed_op = op, ed_artifact = a, ed_path = [], ed_item = [], ed_revision = 0, ed_type = [],
     ed_left = None, ed_acted = None, ed_faults = faults\<rparr>"

section \<open>Steps over the draft\<close>

type_synonym 'a step = "draft \<Rightarrow> (exn + 'a) \<times> draft"

definition step_bind :: "'a step \<Rightarrow> ('a \<Rightarrow> 'b step) \<Rightarrow> 'b step" where
  "step_bind m f d = (case m d of (Inl e, d') \<Rightarrow> (Inl e, d') | (Inr x, d') \<Rightarrow> f x d')"

definition step_read :: "(draft \<Rightarrow> exn + 'a) \<Rightarrow> 'a step" where "step_read g d = (g d, d)"
definition step_return :: "'a \<Rightarrow> 'a step" where "step_return x d = (Inr x, d)"
definition step_raise :: "exn \<Rightarrow> 'a step" where "step_raise e d = (Inl e, d)"

text \<open>A step of the draft's own, which leaves it as it was when it raises.\<close>

definition step_of :: "(draft \<Rightarrow> exn + 'a \<times> draft) \<Rightarrow> 'a step" where
  "step_of g d = (case g d of Inl e \<Rightarrow> (Inl e, d) | Inr (x, d') \<Rightarrow> (Inr x, d'))"

definition step_put :: "artifact_id \<Rightarrow> obj \<Rightarrow> unit step" where
  "step_put a m = step_of (\<lambda>d. rbind (draft_put a m d) (\<lambda>d'. Inr ((), d')))"

definition on_corpus :: "port_reads \<Rightarrow> (corpus \<Rightarrow> exn + 'a) \<Rightarrow> 'a step" where
  "on_corpus p g = step_read (\<lambda>d. g (draft_corpus p d))"

section \<open>Writing into content\<close>

fun put_at :: "obj \<Rightarrow> way \<Rightarrow> (obj \<Rightarrow> obj) \<Rightarrow> obj" where
  "put_at content [] f = f content"
| "put_at content ((c, i) # way) f = (case dget content c of
     Some (VList xs) \<Rightarrow> (if i < length xs
       then dput c (VList (xs[i := VMap (put_at (as_map (Some (xs ! i))) way f)])) content else content)
   | _ \<Rightarrow> content)"

definition spot_put :: "obj \<Rightarrow> spot \<Rightarrow> val \<Rightarrow> obj" where
  "spot_put content spot v = (case spot of
     Field way fld \<Rightarrow> put_at content way (dput fld v)
   | Item way c i \<Rightarrow> put_at content way (\<lambda>m. case dget m c of Some (VList xs) \<Rightarrow> dput c (VList (xs[i := v])) m | _ \<Rightarrow> m))"

section \<open>Each operation\<close>

definition as_read_at :: "port_reads \<Rightarrow> artifact_id \<Rightarrow> int option \<Rightarrow> unit step" where
  "as_read_at p a expected = step_bind (step_read (\<lambda>d. if draft_holds p d a then Inr () else Inl (Refused [not_found a]))) (\<lambda>_.
     step_bind (on_corpus p (\<lambda>c. rbind (corpus_artifact c a) (\<lambda>m. int_field m ''revision''))) (\<lambda>revision.
     case expected of
       None \<Rightarrow> step_return ()
     | Some e \<Rightarrow> if revision \<noteq> e then step_raise (Refused [moved a revision]) else step_return ()))"

definition tree_map :: "content_read \<Rightarrow> exn + obj" where
  "tree_map ct = (case ct_tree ct of VMap m \<Rightarrow> Inr m | _ \<Rightarrow> Inl TypeError)"

text \<open>\<open>_revise\<close>.\<close>

definition edit_revise :: "nat \<Rightarrow> port_reads \<Rightarrow> artifact_id \<Rightarrow> obj \<Rightarrow> obj \<Rightarrow> version \<Rightarrow> (fault list \<times> obj) step" where
  "edit_revise n p a before content v =
     step_bind (step_read (\<lambda>_. artifact_kind before)) (\<lambda>k.
     step_bind (on_corpus p (\<lambda>c. rbind (version_schema v c) schema_of)) (\<lambda>schema.
     step_bind (on_corpus p (declared n schema)) (\<lambda>d.
     step_bind (on_corpus p (\<lambda>c. naming_revised n c a d content before)) (\<lambda>(content, misnamed).
     step_bind (if k = TYPE_KIND then step_of (\<lambda>dr. naming_numbered p dr a content) else step_return content) (\<lambda>content.
     step_bind (step_read (\<lambda>_. str_field before ''id'')) (\<lambda>name.
     step_bind (step_read (\<lambda>_. int_field before ''revision'')) (\<lambda>revision.
     step_bind (step_read (\<lambda>_. str_field before ''title'')) (\<lambda>title.
     step_bind (step_read (\<lambda>_. settled_order (settled_given content name (version_str v) (revision + 1) title) (declares_map d))) (\<lambda>artifact.
     step_bind (step_put a artifact) (\<lambda>_. step_return (misnamed, content)))))))))))"

definition edit_create :: "nat \<Rightarrow> port_reads \<Rightarrow> create_op \<Rightarrow> edit step" where
  "edit_create n p cr =
     (let type_id = type_of (version_kind (cr_version cr)); name = cr_name cr in
     step_bind (on_corpus p (\<lambda>c. case version_schema (cr_version cr) c of
        Inl (Refused faults) \<Rightarrow> Inl (Refused (cr_carried cr @ faults)) | r \<Rightarrow> r)) (\<lambda>typed.
     step_bind (step_read (\<lambda>d. naming_identity n p d name (cr_carried cr) type_id)) (\<lambda>identity.
     let faults = identity @ cr_title_faults cr @ content_refusal (cr_content cr) (iri_of name) in
     if faults \<noteq> [] then step_raise (Refused faults)
     else step_bind (step_read (\<lambda>_. tree_map (cr_content cr))) (\<lambda>content.
     step_bind (if type_id = TYPE_OF_TYPES then step_of (\<lambda>d. naming_numbered p d name content) else step_return content) (\<lambda>content.
     step_bind (step_read (\<lambda>_. schema_of typed)) (\<lambda>schema.
     step_bind (on_corpus p (declared n schema)) (\<lambda>d.
     step_bind (on_corpus p (\<lambda>c. naming_items n c name d content)) (\<lambda>(content, misnamed).
     step_bind (step_read (\<lambda>_. settled_order (settled_given content (iri_of name) (version_str (cr_version cr)) 1 (cr_title cr))
       (declares_map d))) (\<lambda>artifact.
     step_bind (step_put name artifact) (\<lambda>_. step_return (new_edit ''create'' name misnamed)))))))))) )"

definition ends_at :: "artifact_id \<Rightarrow> obj \<Rightarrow> version option \<Rightarrow> corpus \<Rightarrow> exn + version" where
  "ends_at a before named c = (case named of
     None \<Rightarrow> conforming before
   | Some v \<Rightarrow> rbind (moves_to before v c) (\<lambda>moves.
       if moves then Inr v
       else rbind (conforming before) (\<lambda>stands. Inl (Refused [not_later a (version_str v) (version_str stands)]))))"

text \<open>\<open>_placed\<close>: the content with the node at a place replaced; an item keeps its name.\<close>

definition edit_placed :: "obj \<Rightarrow> locator \<Rightarrow> val \<Rightarrow> exn + obj" where
  "edit_placed artifact l node = (let content = settled_content artifact in
     rbind (resolve content l) (\<lambda>spot.
     rbind (case spot of
              Item _ c _ \<Rightarrow> if c = ''sections'' then Inr node
                else (case node of
                   VMap m \<Rightarrow> Inr (VMap (dict_over [(KText ''id'', VStr (last (loc_place l)))] m)) | _ \<Rightarrow> Inl TypeError)
            | Field _ _ \<Rightarrow> Inr node) (\<lambda>node.
     Inr (spot_put content spot node))))"

definition edit_replace :: "nat \<Rightarrow> port_reads \<Rightarrow> replace_op \<Rightarrow> edit step" where
  "edit_replace n p rp = (let l = rp_locator rp; a = loc_id l in
     step_bind (as_read_at p a (rp_expected rp)) (\<lambda>_.
     if ct_problems (rp_content rp) \<noteq> [] then step_raise (Refused (content_refusal (rp_content rp) (iri_of a)))
     else step_bind (on_corpus p (\<lambda>c. corpus_artifact c a)) (\<lambda>before.
     step_bind (step_read (\<lambda>_. if loc_place l \<noteq> [] then edit_placed before l (ct_tree (rp_content rp)) else tree_map (rp_content rp))) (\<lambda>content.
     step_bind (on_corpus p (ends_at a before (rp_version rp))) (\<lambda>v.
     step_bind (edit_revise n p a before content v) (\<lambda>(faults, _).
     step_return ((new_edit ''write'' a faults) \<lparr>ed_path := names_placed (loc_place l)\<rparr>)))))))"

definition collections_at :: "nat \<Rightarrow> locator \<Rightarrow> corpus \<Rightarrow> exn + obj" where
  "collections_at n l c = rbind (corpus_artifact c (loc_id l)) (\<lambda>m. rbind (conformed m c) (\<lambda>typed. rbind (schema_of typed) (\<lambda>schema.
     rbind (declared n schema c) (\<lambda>d. rbind (declared_at n d (butlast (loc_place l)) c) (\<lambda>at. Inr (d_parts at))))))"

text \<open>The collection a field's spot names, none held there standing for an empty one.\<close>

definition spot_list :: "obj \<Rightarrow> spot \<Rightarrow> val list option" where
  "spot_list content spot = (case spot of
     Field way fld \<Rightarrow> (case dget (holder_at content way) fld of None \<Rightarrow> Some [] | Some (VList xs) \<Rightarrow> Some xs | Some _ \<Rightarrow> None)
   | Item _ _ _ \<Rightarrow> None)"

text \<open>\<open>(item["id"],) if "id" in item else ()\<close>, of the item as naming left it.\<close>

definition item_named :: "val \<Rightarrow> exn + string list" where
  "item_named item = (case item of
     VMap m \<Rightarrow> (case dget m ''id'' of None \<Rightarrow> Inr [] | Some (VStr s) \<Rightarrow> Inr [s] | Some _ \<Rightarrow> Inl TypeError)
   | VList xs \<Rightarrow> if VStr ''id'' \<in> set xs then Inl TypeError else Inr []
   | VStr s \<Rightarrow> if holds_text ''id'' s then Inl TypeError else Inr []
   | _ \<Rightarrow> Inl TypeError)"

text \<open>The last part of \<open>_append\<close>: the spot judged, the item put after those held there, and the edit.\<close>

definition append_at :: "nat \<Rightarrow> port_reads \<Rightarrow> add_op \<Rightarrow> obj \<Rightarrow> spot \<Rightarrow> obj \<Rightarrow> edit step" where
  "append_at n p ad before spot declared_there = (let l = ad_locator ad; a = loc_id l; content = settled_content before in
     case (spot, spot_list content spot) of
       (Field way fld, Some xs) \<Rightarrow>
         if dget declared_there fld = None then step_raise (Refused [not_a_collection l])
         else step_bind (step_read (\<lambda>_. conforming before)) (\<lambda>v.
           step_bind (edit_revise n p a before (spot_put content spot (VList (xs @ [ct_tree (ad_item ad)]))) v) (\<lambda>(faults, named).
           step_bind (step_read (\<lambda>_. item_named (case spot_list named spot of
               Some ys \<Rightarrow> if length xs < length ys then ys ! length xs else VNull | None \<Rightarrow> VNull))) (\<lambda>item.
           step_return ((new_edit ''append'' a faults)
             \<lparr>ed_path := names_placed (loc_place l @ item), ed_item := concat item\<rparr>))))
     | _ \<Rightarrow> step_raise (Refused [not_a_collection l]))"

definition edit_append :: "nat \<Rightarrow> port_reads \<Rightarrow> add_op \<Rightarrow> edit step" where
  "edit_append n p ad = (let l = ad_locator ad; a = loc_id l in
     step_bind (as_read_at p a (ad_expected ad)) (\<lambda>_.
     if ct_problems (ad_item ad) \<noteq> [] then step_raise (Refused (content_refusal (ad_item ad) (iri_of a)))
     else if loc_place l = [] then step_raise (Refused [not_a_collection l])
     else step_bind (on_corpus p (\<lambda>c. corpus_artifact c a)) (\<lambda>before.
     step_bind (step_read (\<lambda>_. resolve (settled_content before) l)) (\<lambda>spot.
     step_bind (on_corpus p (collections_at n l)) (append_at n p ad before spot)))))"

definition edit_delete :: "port_reads \<Rightarrow> remove_op \<Rightarrow> edit step" where
  "edit_delete p rm = (let l = rm_locator rm; a = loc_id l in
     step_bind (as_read_at p a (rm_expected rm)) (\<lambda>_.
     if loc_place l \<noteq> [] then step_raise (Refused [whole_only l])
     else step_bind (on_corpus p (\<lambda>c. corpus_artifact c a)) (\<lambda>removed.
     step_bind (\<lambda>d. (Inr (), draft_remove a d)) (\<lambda>_.
     step_bind (step_read (\<lambda>_. int_field removed ''revision'')) (\<lambda>revision.
     step_bind (step_read (\<lambda>_. str_field removed ''type'')) (\<lambda>type_version.
     step_return ((new_edit ''delete'' a []) \<lparr>ed_revision := revision + 1, ed_type := type_version\<rparr>)))))))"

definition edit_import :: "nat \<Rightarrow> port_reads \<Rightarrow> artifact_id \<Rightarrow> obj \<Rightarrow> edit step" where
  "edit_import n p a artifact =
     step_bind (on_corpus p (\<lambda>c. naming_imported n c a artifact)) (\<lambda>(named, misnamed).
     step_bind (step_put a named) (\<lambda>_. step_return (new_edit ''import'' a misnamed)))"

text \<open>\<open>apply\<close>: the operation done, and for all but a removal what it left and the type of its kind as it acted.\<close>

definition edit_settled :: "port_reads \<Rightarrow> edit \<Rightarrow> edit step" where
  "edit_settled p e =
     step_bind (on_corpus p (\<lambda>c. corpus_artifact c (ed_artifact e))) (\<lambda>left.
     step_bind (on_corpus p (conformed left)) (\<lambda>acted.
     step_bind (step_read (\<lambda>_. int_field left ''revision'')) (\<lambda>revision.
     step_bind (step_read (\<lambda>_. str_field left ''type'')) (\<lambda>type_version.
     step_return (e \<lparr>ed_revision := revision, ed_type := type_version, ed_left := Some left, ed_acted := Some acted\<rparr>)))))"

definition edit_apply :: "nat \<Rightarrow> port_reads \<Rightarrow> operation \<Rightarrow> edit step" where
  "edit_apply n p op = (case op of
     Remove rm \<Rightarrow> edit_delete p rm
   | Import a artifact \<Rightarrow> step_bind (edit_import n p a artifact) (edit_settled p)
   | Create cr \<Rightarrow> step_bind (edit_create n p cr) (edit_settled p)
   | Add ad \<Rightarrow> step_bind (edit_append n p ad) (edit_settled p)
   | Replace rp \<Rightarrow> step_bind (edit_replace n p rp) (edit_settled p)
   | Refusal_op faults \<Rightarrow> step_raise (Refused faults))"

end
