(* ===== verification/KB_Fault_Order.thy ===== *)
theory KB_Fault_Order
  imports KB_Validation
begin

text \<open>
  \<open>fault_order.py\<close>: the order an artifact's faults are given in. A fault's place is ranked step by step against the
  artifact as it reads back, the pair of a rank and the step itself for each; the list of those pairs, then the rule
  and the message, is the key the faults are sorted by, as Python compares tuples. A step counts as a number when
  it is ASCII digits.
\<close>

section \<open>Where a place stands\<close>

definition digits :: "string \<Rightarrow> bool" where
  "digits s \<longleftrightarrow> s \<noteq> [] \<and> list_all is_digit s"

text \<open>\<open>_entry\<close>: the entry of a list at an index; \<open>VNull\<close> is None.\<close>

definition order_entry :: "string \<Rightarrow> val \<Rightarrow> val" where
  "order_entry step node = (case node of
     VList xs \<Rightarrow> if digits step \<and> str_nat step < length xs then xs ! str_nat step else VNull | _ \<Rightarrow> VNull)"

text \<open>\<open>len(node or [])\<close>.\<close>

definition length_or_none :: "val \<Rightarrow> exn + nat" where
  "length_or_none node = (case node of
     VList xs \<Rightarrow> Inr (length xs)
   | VMap m \<Rightarrow> Inr (length m)
   | VStr s \<Rightarrow> Inr (length s)
   | _ \<Rightarrow> if truthy (Some node) then Inl TypeError else Inr 0)"

definition order_sequence :: "val \<Rightarrow> level \<Rightarrow> val \<Rightarrow> exn + key list" where
  "order_sequence node level schema =
     (let held = (case node of VMap m \<Rightarrow> dkeys m | _ \<Rightarrow> [])
      in if level \<in> {TOP, ITEM, SECTION}
           then (case schema of VMap s \<Rightarrow> Inr (sequence level held s)
             | _ \<Rightarrow> if level = SECTION then Inr (sequence level held []) else Inl AttributeError)
         else Inr held)"

fun index_of :: "'a list \<Rightarrow> 'a \<Rightarrow> nat" where
  "index_of [] x = 0"
| "index_of (y # ys) x = (if y = x then 0 else Suc (index_of ys x))"

definition order_rank :: "string \<Rightarrow> val \<Rightarrow> level \<Rightarrow> val \<Rightarrow> exn + nat \<times> string" where
  "order_rank step node level schema =
     (if level \<in> {SECTION_LIST, ITEM_LIST} \<or> is_list node
        then rbind (if digits step then Inr (str_nat step) else length_or_none node) (\<lambda>n. Inr (n, []))
      else rbind (order_sequence node level schema) (\<lambda>names. Inr (index_of names (KText step), step)))"

text \<open>\<open>step in schema.get("parts", {})\<close>.\<close>

definition part_named :: "string \<Rightarrow> val \<Rightarrow> exn + bool" where
  "part_named step schema = (case schema of
     VMap s \<Rightarrow> (case dget s ''parts'' of None \<Rightarrow> Inr False | Some parts \<Rightarrow> text_in step parts)
   | _ \<Rightarrow> Inl AttributeError)"

text \<open>\<open>schema["parts"][step].get("items", {})\<close>.\<close>

definition named_items_schema :: "string \<Rightarrow> val \<Rightarrow> exn + val" where
  "named_items_schema step schema = (case as_map (dget (as_map (Some schema)) ''parts'') of parts \<Rightarrow>
     (case dget parts step of None \<Rightarrow> Inl TypeError | Some part \<Rightarrow> item_schema part))"

definition order_inside :: "string \<Rightarrow> val \<Rightarrow> level \<Rightarrow> val \<Rightarrow> exn + val \<times> level \<times> val" where
  "order_inside step node level schema =
     (if level = SECTION_LIST then Inr (order_entry step node, SECTION, VMap [])
      else if level = ITEM_LIST then Inr (order_entry step node, ITEM, schema)
      else
        let child = (case node of VMap m \<Rightarrow> (case dget m step of None \<Rightarrow> VNull | Some v \<Rightarrow> v) | _ \<Rightarrow> order_entry step node)
        in rbind (if level \<in> {TOP, ITEM} then part_named step schema else Inr False) (\<lambda>collection.
           if collection then rbind (named_items_schema step schema) (\<lambda>items_schema. Inr (child, ITEM_LIST, items_schema))
           else if level \<in> {TOP, SECTION} \<and> step = ''sections'' then Inr (child, SECTION_LIST, VMap [])
           else Inr (child, PLAIN_LEVEL, VMap [])))"

fun ranked_steps :: "string list \<Rightarrow> val \<Rightarrow> level \<Rightarrow> val \<Rightarrow> exn + (nat \<times> string) list" where
  "ranked_steps [] node level schema = Inr []"
| "ranked_steps (step # rest) node level schema =
     rbind (order_rank step node level schema) (\<lambda>rank.
     rbind (order_inside step node level schema) (\<lambda>(node, level, schema).
     rbind (ranked_steps rest node level schema) (\<lambda>ranks. Inr (rank # ranks))))"

text \<open>\<open>place.split("/") if place else []\<close>.\<close>

definition place_steps :: "string \<Rightarrow> string list" where
  "place_steps place = (if place = [] then [] else split_on (CHR ''/'') place)"

definition position :: "string \<Rightarrow> obj \<Rightarrow> obj \<Rightarrow> exn + (nat \<times> string) list" where
  "position place shown decl = ranked_steps (place_steps place) (VMap shown) TOP (VMap decl)"

section \<open>The faults in order\<close>

type_synonym order_key = "(nat \<times> string) list \<times> string \<times> string \<times> string"

definition order_key :: "obj \<Rightarrow> obj \<Rightarrow> fault \<Rightarrow> exn + order_key" where
  "order_key shown decl f = rbind (position (fault_place f) shown decl) (\<lambda>at.
     Inr (at, map lower_char (fault_rule f), fault_rule f, fault_message f))"

definition faults_ordered :: "fault list \<Rightarrow> obj \<Rightarrow> obj \<Rightarrow> exn + fault list" where
  "faults_ordered faults artifact decl = rbind (settled_order artifact decl) (\<lambda>shown.
     rbind (rall (map (order_key shown decl) faults)) (\<lambda>keys.
     Inr (map snd (sort_key fst (zip keys faults)))))"

section \<open>Lemmas\<close>

lemma ranked_steps_append:
  "ranked_steps (xs @ ys) node level schema = Inr ranks \<Longrightarrow>
     \<exists>here. ranked_steps xs node level schema = Inr here \<and> length here = length xs \<and> (\<exists>deeper. ranks = here @ deeper \<and> length deeper = length ys)"
proof (induction xs arbitrary: node level schema ranks)
  case Nil
  have "ranked_steps ys node level schema = Inr ranks \<Longrightarrow> length ranks = length ys" for node level schema ranks
    by (induction ys arbitrary: node level schema ranks) (auto simp: results)
  with Nil show ?case by simp
next
  case (Cons x xs)
  then obtain rank node' level' schema' rest where r: "order_rank x node level schema = Inr rank"
    "order_inside x node level schema = Inr (node', level', schema')" "ranked_steps (xs @ ys) node' level' schema' = Inr rest"
    "ranks = rank # rest" by (auto simp: results)
  from Cons.IH [OF r(3)] obtain here deeper where "ranked_steps xs node' level' schema' = Inr here" "length here = length xs"
    "rest = here @ deeper" "length deeper = length ys" by blast
  with r show ?case by auto
qed

lemma prefix_less: "ys \<noteq> [] \<Longrightarrow> (xs :: 'a :: order list) < xs @ ys"
  by (induction xs) (auto simp: neq_Nil_conv)

lemma inside_after:
  assumes "position out shown decl = Inr p" "position within shown decl = Inr q"
    and "place_steps within = place_steps out @ deeper" "deeper \<noteq> []"
  shows "p < q"
proof -
  from ranked_steps_append [of "place_steps out" deeper] assms obtain rest where "q = p @ rest" "rest \<noteq> []"
    by (fastforce simp: position_def)
  then show ?thesis by (simp add: prefix_less)
qed

lemma ordered_parts:
  assumes "faults_ordered faults artifact decl = Inr ordered"
  obtains shown keys where "settled_order artifact decl = Inr shown" "rall (map (order_key shown decl) faults) = Inr keys"
    "length keys = length faults" "ordered = map snd (sort_key fst (zip keys faults))"
    "\<And>k f. (k, f) \<in> set (zip keys faults) \<Longrightarrow> order_key shown decl f = Inr k"
proof -
  from assms obtain shown keys where r: "settled_order artifact decl = Inr shown"
    "rall (map (order_key shown decl) faults) = Inr keys" "ordered = map snd (sort_key fst (zip keys faults))"
    by (auto simp: faults_ordered_def results)
  then have m: "map (order_key shown decl) faults = map Inr keys" by (simp add: rall_Inr_iff)
  have len: "length keys = length faults" using arg_cong [OF m, of length] by simp
  moreover have "order_key shown decl f = Inr k" if "(k, f) \<in> set (zip keys faults)" for k f
  proof -
    from that obtain i where "i < length faults" "k = keys ! i" "f = faults ! i" using len by (auto simp: set_zip)
    with arg_cong [OF m, of "\<lambda>xs. xs ! i"] len show ?thesis by simp
  qed
  ultimately show ?thesis using r that by blast
qed

text \<open>
  C38: the faults given back are the faults found, each once as often as it was found, and in them no fault at a place
  follows one at a place inside it: the whole artifact's first, then a collection's before its items', an item's
  before its fields'.
\<close>

theorem outer_faults_first:
  assumes o: "faults_ordered faults artifact decl = Inr ordered"
  shows "mset ordered = mset faults \<and>
    (\<forall>i j deeper. i < j \<longrightarrow> j < length ordered \<longrightarrow>
       place_steps (fault_place (ordered ! i)) = place_steps (fault_place (ordered ! j)) @ deeper \<longrightarrow> deeper = [])"
proof -
  from ordered_parts [OF o] obtain shown keys where r: "length keys = length faults" "ordered = map snd (sort_key fst (zip keys faults))"
    "\<And>k f. (k, f) \<in> set (zip keys faults) \<Longrightarrow> order_key shown decl f = Inr k" by blast
  let ?s = "sort_key fst (zip keys faults)"
  have "mset ordered = image_mset snd (mset (zip keys faults))" using r(2) by simp
  then have m: "mset ordered = mset faults" using r(1) by (simp flip: mset_map)
  have "deeper = []" if ij: "i < j" "j < length ordered"
    and steps: "place_steps (fault_place (ordered ! i)) = place_steps (fault_place (ordered ! j)) @ deeper" for i j deeper
  proof (rule ccontr)
    assume deeper: "deeper \<noteq> []"
    have len: "length ?s = length ordered" using r(2) by simp
    obtain ki fi kj fj where e: "?s ! i = (ki, fi)" "?s ! j = (kj, fj)" by (meson prod.exhaust)
    then have f: "ordered ! i = fi" "ordered ! j = fj" using ij r(2) len by simp_all
    have "?s ! i \<in> set (zip keys faults)" "?s ! j \<in> set (zip keys faults)"
      using nth_mem [of i ?s] nth_mem [of j ?s] ij len by (simp_all del: length_sort length_zip)
    then have k: "order_key shown decl fi = Inr ki" "order_key shown decl fj = Inr kj" using r(3) unfolding e by simp_all
    then obtain pi pj where p: "position (fault_place fi) shown decl = Inr pi" "fst ki = pi"
      "position (fault_place fj) shown decl = Inr pj" "fst kj = pj" by (auto simp: order_key_def results)
    have "pj < pi" by (rule inside_after [OF p(3,1) _ deeper]) (use steps f in simp)
    then have "kj < ki" using p by (auto simp: less_prod_def)
    moreover have "ki \<le> kj"
    proof -
      have "sorted (map fst ?s)" by simp
      then have "map fst ?s ! i \<le> map fst ?s ! j" using ij len by (intro sorted_nth_mono) simp_all
      then show ?thesis using e ij len by simp
    qed
    ultimately show False by simp
  qed
  with m show ?thesis by blast
qed

lemma outer_faults_first_witness:
  "\<exists>ordered. faults_ordered [Fault ''a'' ''steps/0/on'' ''type'' ''x'', Fault ''a'' ''steps'' ''required'' ''y'']
       [(KText ''steps'', VList [VMap []])] [(KText ''parts'', VMap [(KText ''steps'', VMap [(KText ''items'', VMap [])])])] = Inr ordered
     \<and> mset ordered = {#Fault ''a'' ''steps/0/on'' ''type'' ''x'', Fault ''a'' ''steps'' ''required'' ''y''#}"
proof -
  let ?r = "faults_ordered [Fault ''a'' ''steps/0/on'' ''type'' ''x'', Fault ''a'' ''steps'' ''required'' ''y'']
       [(KText ''steps'', VList [VMap []])] [(KText ''parts'', VMap [(KText ''steps'', VMap [(KText ''items'', VMap [])])])]"
  have "\<not> isl ?r" by code_simp
  then obtain ordered where o: "?r = Inr ordered" by (cases ?r) auto
  from outer_faults_first [OF o] o show ?thesis by (auto simp: add_mset_commute)
qed

end
