(* ===== verification/KB_Search.thy ===== *)
theory KB_Search
  imports KB_Settled
begin

text \<open>
  \<open>search.py\<close>: the words of a text, folded as the rows a store keeps for it are, and \<open>rank\<close>, which reads the artifacts
  those rows give and counts the matches of a regular expression in each section and field. Text is of code points
  below 256, of which a word holds the letters, the digits and the underscore; the sign a snippet is cut
  with is past them, an argument here.
\<close>

section \<open>Words\<close>

text \<open>\<open>\\w\<close> on code points below 256.\<close>

definition word_char :: "char \<Rightarrow> bool" where
  "word_char c = (let n = of_char c :: nat in
     (48 \<le> n \<and> n \<le> 57) \<or> (65 \<le> n \<and> n \<le> 90) \<or> n = 95 \<or> (97 \<le> n \<and> n \<le> 122) \<or>
     n \<in> {170, 178, 179, 181, 185, 186, 188, 189, 190} \<or> (192 \<le> n \<and> n \<noteq> 215 \<and> n \<noteq> 247))"

text \<open>\<open>re.findall("\\w+", text)\<close>.\<close>

function runs :: "string \<Rightarrow> string list" where
  "runs [] = []"
| "runs (c # cs) = (if word_char c then (c # takeWhile word_char cs) # runs (dropWhile word_char cs) else runs cs)"
  by pat_completeness auto
termination by (relation "measure length") (auto simp: length_dropWhile_le le_imp_less_Suc)

text \<open>
  \<open>_folded\<close>: lowered, raised and lowered. Raising takes the sharp s to SS, so it folds to ss; the micro sign's
  folding is the Greek letter, past 255, and it stands for itself, no other code point below 256 folding there.
\<close>

definition folded :: "string \<Rightarrow> string" where
  "folded word = concat (map (\<lambda>c. if of_char (lower_char c) = (223 :: nat) then ''ss'' else [lower_char c]) word)"

definition search_words :: "string \<Rightarrow> string list" where "search_words t = runs (map lower_char t)"
definition search_terms :: "string \<Rightarrow> string list" where "search_terms t = map folded (search_words t)"
definition tokens :: "string \<Rightarrow> string list" where "tokens t = map folded (runs t)"

section \<open>The sections and fields of an artifact\<close>

text \<open>
  \<open>_sections\<close> as the sequence its caller draws, each section one that it subscripts at once, so an entry that is no
  mapping is the \<open>TypeError\<close> its subscription is.
\<close>

fun section_seq :: "val \<Rightarrow> (exn + obj) list" where
  "section_seq (VMap m) = Inr m # (case dget m ''sections'' of
     None \<Rightarrow> []
   | Some (VList xs) \<Rightarrow> concat (map section_seq xs)
   | Some v \<Rightarrow> (case v of VMap [] \<Rightarrow> [] | VStr [] \<Rightarrow> [] | _ \<Rightarrow> [Inl TypeError]))"
| "section_seq v = [Inl TypeError]"

definition artifact_sections :: "obj \<Rightarrow> (exn + obj) list" where
  "artifact_sections artifact = tl (section_seq (VMap artifact))"

definition UNSEARCHED :: "string list" where "UNSEARCHED = [''id'', ''type'', ''revision'', ''sections'']"

fun search_fields :: "obj \<Rightarrow> (string \<times> string) list" where
  "search_fields [] = []"
| "search_fields ((name, v) # rest) = (case v of
     VStr t \<Rightarrow> if name \<in> KText ` set UNSEARCHED then search_fields rest else (key_str name, t) # search_fields rest
   | _ \<Rightarrow> search_fields rest)"

definition search_text :: "obj \<Rightarrow> string \<Rightarrow> exn + string" where
  "search_text m k = (case dget m k of None \<Rightarrow> Inl (KeyError k) | Some (VStr s) \<Rightarrow> Inr s | Some _ \<Rightarrow> Inl TypeError)"

definition search_rows :: "obj \<Rightarrow> exn + (string \<times> string \<times> string) list" where
  "search_rows content =
     rbind (rall (map (\<lambda>s. rbind s (\<lambda>s. rbind (search_text s ''title'') (\<lambda>title. rbind (search_text s ''body'') (\<lambda>body.
       Inr (''section'', title, join_with '' '' (tokens body)))))) (artifact_sections content))) (\<lambda>found.
     Inr (found @ map (\<lambda>(name, v). (''field'', name, join_with '' '' (tokens v))) (search_fields content)))"

section \<open>Matches\<close>

text \<open>
  \<open>\\b(?:w1|w2|...)\\b\<close>, ignoring case, found left to right as \<open>finditer\<close> finds it: at each place the first
  alternative that fits between two boundaries, and on from its end.
\<close>

definition boundary :: "string \<Rightarrow> nat \<Rightarrow> bool" where
  "boundary t i = ((0 < i \<and> word_char (t ! (i - 1))) \<noteq> (i < length t \<and> word_char (t ! i)))"

definition fits_at :: "string \<Rightarrow> nat \<Rightarrow> string \<Rightarrow> bool" where
  "fits_at t i word \<longleftrightarrow> i + length word \<le> length t \<and> map lower_char (take (length word) (drop i t)) = map lower_char word \<and>
     boundary t i \<and> boundary t (i + length word)"

definition match_at :: "string list \<Rightarrow> string \<Rightarrow> nat \<Rightarrow> nat option" where
  "match_at ws t i = (case filter (fits_at t i) ws of [] \<Rightarrow> None | word # _ \<Rightarrow> Some (length word))"

function finditer :: "string list \<Rightarrow> string \<Rightarrow> nat \<Rightarrow> (nat \<times> nat) list" where
  "finditer ws t i =
     (if length t < i then []
      else case match_at ws t i of
        None \<Rightarrow> finditer ws t (Suc i)
      | Some n \<Rightarrow> (i, i + n) # finditer ws t (if n = 0 then Suc i else i + n))"
  by pat_completeness auto
termination by (relation "measure (\<lambda>(ws, t, i). Suc (length t) - i)") auto

declare finditer.simps [simp del]

record hit =
  hit_artifact :: string
  hit_section :: string
  hit_field :: string
  hit_snippet :: string
  hit_count :: nat

definition WIDTH :: nat where "WIDTH = 60"

text \<open>The characters \<open>split()\<close> and \<open>strip()\<close> take for white space, below 256.\<close>

definition white :: "char \<Rightarrow> bool" where
  "white c = (let n = of_char c :: nat in (9 \<le> n \<and> n \<le> 13) \<or> (28 \<le> n \<and> n \<le> 32) \<or> n = 133 \<or> n = 160)"

function split_white :: "string \<Rightarrow> string list" where
  "split_white [] = []"
| "split_white (c # cs) =
     (if white c then split_white cs
      else (c # takeWhile (\<lambda>x. \<not> white x) cs) # split_white (dropWhile (\<lambda>x. \<not> white x) cs))"
  by pat_completeness auto
termination by (relation "measure length") (auto simp: length_dropWhile_le le_imp_less_Suc)

definition snippet :: "string \<Rightarrow> string \<Rightarrow> nat \<times> nat \<Rightarrow> string" where
  "snippet dots body found =
     (let start = fst found - WIDTH; stop = min (snd found + WIDTH) (length body);
          t = join_with '' '' (split_white (take (stop - start) (drop start body)))
      in (if start \<noteq> 0 then dots else []) @ t @ (if list_ex (\<lambda>c. \<not> white c) (drop stop body) then dots else []))"

definition hit_of :: "string \<Rightarrow> string list \<Rightarrow> string \<Rightarrow> string \<Rightarrow> string \<Rightarrow> string \<Rightarrow> hit list" where
  "hit_of dots ws artifact title fld t = (case finditer ws t 0 of
     [] \<Rightarrow> []
   | found # rest \<Rightarrow> [\<lparr>hit_artifact = artifact, hit_section = title, hit_field = fld, hit_snippet = snippet dots t found,
       hit_count = Suc (length rest)\<rparr>])"

definition section_hits :: "string \<Rightarrow> string list \<Rightarrow> obj \<Rightarrow> exn + hit list" where
  "section_hits dots ws artifact =
     rbind (rall (map (\<lambda>s. rbind s (\<lambda>s. rbind (search_text s ''body'') (\<lambda>body.
       if finditer ws body 0 = [] then Inr []
       else rbind (search_text artifact ''id'') (\<lambda>name. rbind (search_text s ''title'') (\<lambda>title.
         Inr (hit_of dots ws name title [] body)))))) (artifact_sections artifact))) (\<lambda>found. Inr (concat found))"

definition field_hits :: "string \<Rightarrow> string list \<Rightarrow> obj \<Rightarrow> exn + hit list" where
  "field_hits dots ws artifact =
     rbind (rall (map (\<lambda>(fld, t). if finditer ws t 0 = [] then Inr []
       else rbind (search_text artifact ''id'') (\<lambda>name. Inr (hit_of dots ws name [] fld t))) (search_fields artifact)))
       (\<lambda>found. Inr (concat found))"

definition search_rank :: "string \<Rightarrow> obj list \<Rightarrow> string \<Rightarrow> bool \<Rightarrow> bool \<Rightarrow> exn + hit list" where
  "search_rank dots artifacts t sections in_fields =
     (let ws = search_words t
      in if ws = [] then Inr []
         else rbind (rall (map (\<lambda>artifact.
                rbind (if sections then section_hits dots ws artifact else Inr []) (\<lambda>hits.
                rbind (if in_fields then field_hits dots ws artifact else Inr []) (\<lambda>fields. Inr (hits @ fields)))) artifacts))
              (\<lambda>found. Inr (sort_key (\<lambda>h. - int (hit_count h)) (concat found))))"

section \<open>Lemmas\<close>

text \<open>Lowering keeps a letter a letter, and is done once.\<close>

lemma small_char [simp]: "m < 256 \<Longrightarrow> of_char (char_of m) = (m :: nat)"
  by (simp add: of_char_of)

lemma lowered:
  "of_char (lower_char c) = (let n = of_char c :: nat in
     if (65 \<le> n \<and> n \<le> 90) \<or> (192 \<le> n \<and> n \<le> 222 \<and> n \<noteq> 215) then n + 32 else n)"
  by (simp add: lower_char_def Let_def)

lemma lower_word_char [simp]: "word_char (lower_char c) = word_char c"
  unfolding word_char_def lowered Let_def by (cases "of_char c < (256 :: nat)") auto

lemma lower_lower [simp]: "lower_char (lower_char c) = lower_char c"
proof -
  have "(of_char (lower_char (lower_char c)) :: nat) = of_char (lower_char c)"
    unfolding lowered Let_def by auto
  then show ?thesis by simp
qed

lemma folded_lower: "map lower_char v = map lower_char w \<Longrightarrow> folded v = folded w"
proof -
  have "folded v = concat (map (\<lambda>c. if of_char c = (223 :: nat) then ''ss'' else [c]) (map lower_char v))" for v
    by (induction v) (simp_all add: folded_def)
  then show "map lower_char v = map lower_char w \<Longrightarrow> folded v = folded w" by metis
qed

subsection \<open>A run is a stretch between boundaries\<close>

lemma run_found:
  assumes "w \<noteq> []" "\<forall>c \<in> set w. word_char c" "pre = [] \<or> \<not> word_char (last pre)" "post = [] \<or> \<not> word_char (hd post)"
  shows "t = pre @ w @ post \<Longrightarrow> w \<in> set (runs t)"
  using assms(3)
proof (induction t arbitrary: pre rule: runs.induct)
  case (2 c cs)
  show ?case
  proof (cases pre)
    case Nil
    with 2(3) assms(1) obtain w' where w': "w = c # w'" "cs = w' @ post" by (auto simp: Cons_eq_append_conv)
    have "takeWhile word_char cs = w'"
      using w' assms(2,4) by (cases post) (auto simp: takeWhile_append)
    with w' assms(2) show ?thesis by simp
  next
    case (Cons p pre')
    with 2(3) have cs: "p = c" "cs = pre' @ w @ post" by simp_all
    show ?thesis
    proof (cases "word_char c")
      case True
      with Cons cs 2(4) have ne: "pre' \<noteq> []" "\<not> word_char (last pre')" by (cases "pre' = []", simp_all)+
      then have "dropWhile word_char cs = dropWhile word_char pre' @ w @ post"
        using cs by (simp add: dropWhile_append1 [of "last pre'"])
      moreover have "dropWhile word_char pre' = [] \<or> \<not> word_char (last (dropWhile word_char pre'))"
        using ne by (simp add: dropWhile_last [of "last pre'"])
      ultimately have "w \<in> set (runs (dropWhile word_char cs))" using 2(1) [OF True] by blast
      then show ?thesis using True by simp
    next
      case False
      with 2(2) [OF False cs(2)] Cons 2(4) cs show ?thesis by (cases pre') auto
    qed
  qed
qed (use assms(1) in simp)

lemma runs_word: "r \<in> set (runs t) \<Longrightarrow> r \<noteq> [] \<and> (\<forall>c \<in> set r. word_char c)"
proof (induction t rule: runs.induct)
  case (2 c cs)
  show ?case
  proof (cases "word_char c")
    case True
    with 2(3) consider "r = c # takeWhile word_char cs" | "r \<in> set (runs (dropWhile word_char cs))" by auto
    then show ?thesis
    proof cases
      case 1
      then show ?thesis using True set_takeWhileD [of _ word_char cs] by auto
    qed (use 2(1) [OF True] in blast)
  next
    case False
    with 2(3) have "r \<in> set (runs cs)" by simp
    with 2(2) [OF False] show ?thesis by blast
  qed
qed simp

lemma fits_run:
  assumes f: "fits_at t i w" and w: "w \<noteq> []" "\<forall>c \<in> set w. word_char c"
  shows "\<exists>r \<in> set (runs t). map lower_char r = map lower_char w"
proof -
  let ?r = "take (length w) (drop i t)"
  from f have len: "i + length w \<le> length t" and low: "map lower_char ?r = map lower_char w" by (simp_all add: fits_at_def)
  have lenr: "length ?r = length w" using len by simp
  have word: "word_char (?r ! k)" if "k < length w" for k
  proof -
    have "lower_char (?r ! k) = lower_char (w ! k)"
      using arg_cong [OF low, of "\<lambda>xs. xs ! k"] that lenr by (simp del: nth_take take_drop)
    moreover have "word_char (w ! k)" using w(2) that by simp
    ultimately show ?thesis by (metis lower_word_char)
  qed
  have first: "word_char (t ! i)" using word [of 0] w(1) len by simp
  have last: "word_char (t ! (i + length w - 1))" using word [of "length w - 1"] w(1) len by (cases w) simp_all
  have "?r \<in> set (runs t)"
  proof (rule run_found)
    show "?r \<noteq> []" using lenr w(1) by auto
    show "\<forall>c \<in> set ?r. word_char c" using word lenr by (metis in_set_conv_nth)
    show "t = take i t @ ?r @ drop (i + length w) t" by (metis add.commute append_take_drop_id drop_drop)
    show "take i t = [] \<or> \<not> word_char (last (take i t))"
    proof (cases "i = 0")
      case False
      with len w(1) have "take i t \<noteq> []" "length (take i t) = i" by (cases w, auto)+
      with False have "last (take i t) = t ! (i - 1)" by (simp add: last_conv_nth)
      moreover have "i < length t" using len w(1) by (cases w) simp_all
      then have "\<not> word_char (t ! (i - 1))" using f first False by (simp add: fits_at_def boundary_def)
      ultimately show ?thesis by simp
    qed simp
    show "drop (i + length w) t = [] \<or> \<not> word_char (hd (drop (i + length w) t))"
    proof (cases "i + length w < length t")
      case True
      then have "hd (drop (i + length w) t) = t ! (i + length w)" by (simp add: hd_drop_conv_nth)
      moreover have "\<not> word_char (t ! (i + length w))" using f last True w(1) by (cases w) (simp_all add: fits_at_def boundary_def)
      ultimately show ?thesis by simp
    qed simp
  qed
  with low show ?thesis by blast
qed

lemma finditer_fits:
  "finditer ws t i \<noteq> [] \<Longrightarrow> \<exists>j. \<exists>w \<in> set ws. fits_at t j w"
proof (induction ws t i rule: finditer.induct)
  case (1 ws t i)
  show ?case
  proof (cases "match_at ws t i")
    case None
    with 1 show ?thesis by (subst (asm) finditer.simps) (auto split: if_splits)
  next
    case (Some n)
    then obtain w rest where "filter (fits_at t i) ws = w # rest" by (auto simp: match_at_def split: list.splits)
    then have "w \<in> set ws" "fits_at t i w" by (metis filter_eq_ConsD in_set_conv_decomp, metis Cons_eq_filterD)
    then show ?thesis by blast
  qed
qed

text \<open>
  what a store keeps of a text is enough to search it: wherever the regular expression \<open>rank\<close> makes of the words
  searched for matches in a text, one of the terms asked of the store is among the tokens it keeps of that text, whatever
  the case either is written in.
\<close>

theorem matches_have_terms:
  assumes "finditer (search_words asked) body 0 \<noteq> []"
  shows "\<exists>term \<in> set (search_terms asked). term \<in> set (tokens body)"
proof -
  from finditer_fits [OF assms] obtain j w where w: "w \<in> set (search_words asked)" "fits_at body j w" by blast
  then have "w \<noteq> []" "\<forall>c \<in> set w. word_char c" using runs_word [of w] by (simp_all add: search_words_def)
  from fits_run [OF w(2) this] obtain r where r: "r \<in> set (runs body)" "map lower_char r = map lower_char w" by blast
  have "folded w \<in> set (search_terms asked)" using w(1) by (simp add: search_terms_def)
  moreover have "folded w \<in> set (tokens body)" using r(1) folded_lower [OF r(2)] by (simp add: tokens_def rev_image_eqI)
  ultimately show ?thesis by blast
qed

lemma matches_have_terms_witness:
  "finditer (search_words ''a STORE'') ''the Store,kept'' 0 = [(4, 9)] \<and>
   (\<exists>term \<in> set (search_terms ''a STORE''). term \<in> set (tokens ''the Store,kept''))"
proof
  show f: "finditer (search_words ''a STORE'') ''the Store,kept'' 0 = [(4, 9)]" by code_simp
  show "\<exists>term \<in> set (search_terms ''a STORE''). term \<in> set (tokens ''the Store,kept'')"
    by (rule matches_have_terms) (simp add: f)
qed

end
