(* ===== verification/KB_Canonical.thy ===== *)
theory KB_Canonical
  imports KB_Settled
begin

text \<open>
  \<open>canonical.py\<close>, and \<open>loads\<close> of \<open>content.py\<close>: what is read plainly, and prose that can be written back. What ruamel.yaml
  does is a record of functions: the tokens it scans (an error where one is raised), the events it parses, the graph it
  composes of them, the value it constructs and the text it emits. The code points of a text are below 256, so none is
  half of a character, and the check of halves finds nothing.
\<close>

section \<open>What ruamel.yaml gives\<close>

datatype yaml_error = YamlError (ye_problem: string) (ye_line: "nat option")

datatype yaml_token = StreamStart | Directive string "string list" nat | OtherToken

record yaml_event =
  ev_tag :: "string option"
  ev_anchor :: "string option"
  ev_document :: bool

text \<open>A node; a mapping's entries carry the line their key is at.\<close>

datatype node = ScalarNode string | SequenceNode "node list" | MappingNode "(node \<times> nat \<times> node) list"

datatype prosed_val = PScalar val | PProse string | PList "prosed_val list" | PMap "(key \<times> prosed_val) list"

record yaml =
  y_scan :: "string \<Rightarrow> (yaml_error + yaml_token) list"
  y_parse :: "string \<Rightarrow> yaml_error + yaml_event list"
  y_compose :: "string \<Rightarrow> node option"
  y_load :: "string \<Rightarrow> yaml_error + val"
  y_dump :: "prosed_val \<Rightarrow> string"

section \<open>Plain reading\<close>

datatype unplain = NotCanonical string string | Escaped exn

definition unreadable_yaml :: "yaml_error \<Rightarrow> string" where
  "unreadable_yaml e = ''it is not YAML that can be read: '' @ ye_problem e
     @ (case ye_line e of None \<Rightarrow> [] | Some line \<Rightarrow> '' at line '' @ nat_str (line + 1))"

fun no_directive :: "(yaml_error + yaml_token) list \<Rightarrow> unplain + unit" where
  "no_directive [] = Inr ()"
| "no_directive (Inl e # rest) = Inl (NotCanonical (unreadable_yaml e) [])"
| "no_directive (Inr (Directive name values line) # rest) = Inl (NotCanonical
     (''content is read plainly as written and opens with no declaration of its format; line '' @ nat_str (line + 1) @ '' declares %''
      @ name @ '' '' @ join_with (if name = ''YAML'' then ''.'' else '' '') values) [])"
| "no_directive (Inr StreamStart # rest) = no_directive rest"
| "no_directive (Inr OtherToken # rest) = Inr ()"

text \<open>
  \<open>_named_once\<close>: a key's value is looked up in a set, so a key that is itself a list or a mapping, whose value is a list,
  raises \<open>TypeError\<close>. The place of a mapping inside a key is never asked.
\<close>

fun named_once :: "node \<Rightarrow> string list \<Rightarrow> unplain + unit"
  and entries_once :: "(node \<times> nat \<times> node) list \<Rightarrow> string list \<Rightarrow> string list \<Rightarrow> unplain + unit"
  and nodes_once :: "nat \<Rightarrow> node list \<Rightarrow> string list \<Rightarrow> unplain + unit" where
  "named_once (ScalarNode v) place = Inr ()"
| "named_once (SequenceNode xs) place = nodes_once 0 xs place"
| "named_once (MappingNode es) place = entries_once es [] place"
| "entries_once [] seen place = Inr ()"
| "entries_once ((ScalarNode k, line, v) # rest) seen place =
     (if k \<in> set seen then Inl (NotCanonical
        (''an entry is named once and only once; '' @ repr_str k @ '' is named again at line '' @ nat_str (line + 1))
        (join_with ''/'' (place @ [k])))
      else rbind (named_once v (place @ [k])) (\<lambda>_. entries_once rest (k # seen) place))"
| "entries_once ((k, line, v) # rest) seen place = Inl (Escaped TypeError)"
| "nodes_once i [] place = Inr ()"
| "nodes_once i (x # xs) place = rbind (named_once x (place @ [nat_str i])) (\<lambda>_. nodes_once (Suc i) xs place)"

definition canonical_check :: "yaml \<Rightarrow> string \<Rightarrow> unplain + unit" where
  "canonical_check y t =
     rbind (no_directive (y_scan y t)) (\<lambda>_.
     case y_parse y t of
       Inl e \<Rightarrow> Inl (NotCanonical (unreadable_yaml e) [])
     | Inr parsed \<Rightarrow>
         if list_ex (\<lambda>ev. ev_tag ev \<noteq> None) parsed
           then Inl (NotCanonical ''content is read plainly as written and carries no tags'' [])
         else if list_ex (\<lambda>ev. ev_anchor ev \<noteq> None) parsed
           then Inl (NotCanonical ''content is read exactly as written and nothing in it stands in for a value written somewhere else'' [])
         else if 1 < length (filter ev_document parsed) then Inl (NotCanonical ''content holds exactly one document'' [])
         else (case y_compose y t of None \<Rightarrow> Inr () | Some composed \<Rightarrow> named_once composed []))"

definition canonical_load :: "yaml \<Rightarrow> string \<Rightarrow> unplain + val" where
  "canonical_load y t = rbind (canonical_check y t) (\<lambda>_. case y_load y t of
     Inl e \<Rightarrow> Inl (NotCanonical (unreadable_yaml e) []) | Inr v \<Rightarrow> Inr v)"

definition shape_said :: "val \<Rightarrow> string" where
  "shape_said v = (case v of VNull \<Rightarrow> ''nothing at all'' | VList _ \<Rightarrow> ''a list'' | _ \<Rightarrow> ''the single value '' @ py_repr v)"

definition canonical_entries :: "yaml \<Rightarrow> string \<Rightarrow> unplain + obj" where
  "canonical_entries y t = rbind (canonical_load y t) (\<lambda>v. case v of
     VMap m \<Rightarrow> Inr m | _ \<Rightarrow> Inl (NotCanonical (''content is a set of named entries; this is '' @ shape_said v) []))"

text \<open>\<open>canonical.load(text) or {}\<close>.\<close>

definition content_loads :: "yaml \<Rightarrow> string \<Rightarrow> unplain + val" where
  "content_loads y t = rbind (canonical_load y t) (\<lambda>v. Inr
     (if v \<in> {VNull, VBool False, VInt 0, VFloat ''0.0'', VFloat ''-0.0'', VStr [], VList [], VMap []} then VMap [] else v))"

section \<open>Writing\<close>

definition prose :: "string \<Rightarrow> string list \<Rightarrow> unplain + prosed_val" where
  "prose t place = (case filter (\<lambda>(_, line). ends_with '' '' line) (enum_from 1 (split_on (CHR 10) t)) of
     [] \<Rightarrow> Inr (PProse t)
   | (number, _) # _ \<Rightarrow> Inl (NotCanonical
       (''every piece of prose is written as a block, and this prose could not be written back as one; its line ''
        @ nat_str number @ '' ends in a space'') (join_with ''/'' place)))"

fun prosed :: "val \<Rightarrow> string list \<Rightarrow> unplain + prosed_val"
  and prosed_entries :: "(key \<times> val) list \<Rightarrow> string list \<Rightarrow> unplain + (key \<times> prosed_val) list"
  and prosed_items :: "nat \<Rightarrow> val list \<Rightarrow> string list \<Rightarrow> unplain + prosed_val list" where
  "prosed (VMap m) place = rbind (prosed_entries m place) (\<lambda>es. Inr (PMap es))"
| "prosed (VList xs) place = rbind (prosed_items 0 xs place) (\<lambda>ys. Inr (PList ys))"
| "prosed v place = Inr (PScalar v)"
| "prosed_entries [] place = Inr []"
| "prosed_entries ((k, v) # rest) place =
     rbind (case (k = KText ''body'', v) of (True, VStr t) \<Rightarrow> prose t (place @ [key_str k]) | _ \<Rightarrow> prosed v (place @ [key_str k])) (\<lambda>p.
     rbind (prosed_entries rest place) (\<lambda>es. Inr ((k, p) # es)))"
| "prosed_items i [] place = Inr []"
| "prosed_items i (x # xs) place =
     rbind (prosed x (place @ [nat_str i])) (\<lambda>p. rbind (prosed_items (Suc i) xs place) (\<lambda>ps. Inr (p # ps)))"

definition canonical_dump :: "yaml \<Rightarrow> obj \<Rightarrow> unplain + string" where
  "canonical_dump y artifact = rbind (prosed (VMap artifact) []) (\<lambda>p. let t = y_dump y p in
     rbind (canonical_check y t) (\<lambda>_. Inr t))"

section \<open>What is read names each entry once\<close>

fun once_named :: "node \<Rightarrow> bool" where
  "once_named (ScalarNode v) = True"
| "once_named (SequenceNode xs) = list_all once_named xs"
| "once_named (MappingNode es) = (distinct (map fst es) \<and>
     list_all (\<lambda>e. (case fst e of ScalarNode _ \<Rightarrow> True | _ \<Rightarrow> False) \<and> once_named (snd (snd e))) es)"

lemma named_once_iff:
  "named_once x place = Inr () \<longleftrightarrow> once_named x"
  "entries_once es seen place = Inr () \<longleftrightarrow> distinct (map fst es) \<and> fst ` set es \<inter> ScalarNode ` set seen = {} \<and>
     list_all (\<lambda>e. (case fst e of ScalarNode _ \<Rightarrow> True | _ \<Rightarrow> False) \<and> once_named (snd (snd e))) es"
  "nodes_once i xs place = Inr () \<longleftrightarrow> list_all once_named xs"
proof (induction x place and es seen place and i xs place rule: named_once_entries_once_nodes_once.induct)
  case (5 k line v rest seen place)
  then show ?case by (auto simp: rbind_Inr_iff)
qed (auto simp: rbind_Inr_iff)

text \<open>
  a text is read only when the graph composed of it names every entry of every mapping, at every depth, once, by a
  scalar, and carries no tag, anchor, alias or second document; and such a text, if no directive opens it, is read as the
  value constructed of it.
\<close>

theorem read_plainly:
  "canonical_load y t = Inr v \<longleftrightarrow>
     no_directive (y_scan y t) = Inr () \<and>
     (\<exists>parsed. y_parse y t = Inr parsed \<and> (\<forall>ev \<in> set parsed. ev_tag ev = None \<and> ev_anchor ev = None) \<and>
        length (filter ev_document parsed) \<le> 1) \<and>
     (\<forall>composed. y_compose y t = Some composed \<longrightarrow> once_named composed) \<and> y_load y t = Inr v"
  by (auto simp: canonical_load_def canonical_check_def rbind_Inr_iff named_once_iff list_ex_iff split: sum.splits option.splits if_splits)

definition plain_yaml :: yaml where
  "plain_yaml = \<lparr>y_scan = (\<lambda>t. [Inr StreamStart, Inr OtherToken]),
     y_parse = (\<lambda>t. Inr [\<lparr>ev_tag = None, ev_anchor = None, ev_document = True\<rparr>]),
     y_compose = (\<lambda>t. if t = ''twice'' then Some (MappingNode [(ScalarNode ''a'', 0, ScalarNode t), (ScalarNode ''a'', 1, ScalarNode t)])
       else Some (ScalarNode t)),
     y_load = (\<lambda>t. Inr (VStr t)), y_dump = (\<lambda>_. [])\<rparr>"

lemma read_plainly_witness:
  "canonical_load plain_yaml ''x'' = Inr (VStr ''x'') \<and> (\<nexists>v. canonical_load plain_yaml ''twice'' = Inr v)"
  unfolding read_plainly by (simp add: plain_yaml_def)

text \<open>A mapping with a list for a key, as \<open>? [a] : 1\<close>, is not refused: \<open>_named_once\<close> raises \<open>TypeError\<close>.\<close>

lemma list_key_escapes: "named_once (MappingNode [(SequenceNode [ScalarNode ''a''], 0, ScalarNode ''1'')]) [] = Inl (Escaped TypeError)"
  by simp

end
