(* ===== verification/KB_Drafting.thy ===== *)
theory KB_Drafting
  imports KB_Edits KB_Fault_Order KB_Search KB_Canonical
begin

text \<open>
  \<open>drafting.py\<close> and \<open>handing.py\<close>, with what \<open>standing.py\<close> asks of a set's changes: a set's operations applied in order to
  a draft, every change then checked against the store as the whole set leaves it, its version recorded, and
  each change as the port takes it. What the repository's libraries decide comes in one record: the errors JSON Schema
  finds in content, and what ruamel.yaml does; with them the fuel for reading a schema whole and for following types.
\<close>

record outside =
  misshaped :: "obj \<Rightarrow> obj \<Rightarrow> schema_error list"
  yaml_of :: yaml
  built_fuel :: nat
  read_fuel :: nat

section \<open>Types removed and defined\<close>

fun any_results :: "('a \<Rightarrow> exn + bool) \<Rightarrow> 'a list \<Rightarrow> exn + bool" where
  "any_results f [] = Inr False"
| "any_results f (x # xs) = rbind (f x) (\<lambda>b. if b then Inr True else any_results f xs)"

definition of_types :: "edit \<Rightarrow> exn + bool" where
  "of_types e = (case names_version (ed_type e) of None \<Rightarrow> Inl TypeError | Some found \<Rightarrow> Inr (fst found = TYPES))"

definition removes_a_type :: "edit \<Rightarrow> exn + bool" where
  "removes_a_type e = (if ed_left e = None then of_types e else Inr False)"

definition defines_a_type :: "edit \<Rightarrow> exn + bool" where
  "defines_a_type e = (if ed_op e = ''create'' then of_types e else Inr False)"

definition in_the_way :: "nat \<Rightarrow> port_reads \<Rightarrow> draft \<Rightarrow> edit \<Rightarrow> exn + fault list" where
  "in_the_way n p d e = (let removed = ed_artifact e in
     rbind (removes_a_type e) (\<lambda>removes. if \<not> removes then Inr [] else
     rbind (draft_waiting n p d) (\<lambda>links.
     rbind (filter_results (\<lambda>l. nearest_was (ln_target l) removed (draft_corpus p d)) links) (\<lambda>waiting.
     rbind (draft_ids p d TYPE_KIND) (\<lambda>_.
     rbind (readers removed (draft_corpus p d)) (\<lambda>reading.
     let blocking = reading @ map ln_source waiting in
     if blocking = [] then Inr []
     else rbind (draft_ids p d (Kind (iri_of removed))) (\<lambda>kinds.
       Inr (map (\<lambda>each. still_linked (iri_of removed) each []) (by_name (blocking @ kinds))))))))))"

section \<open>A change as the port takes it\<close>

definition change_left :: "edit \<Rightarrow> exn + obj" where
  "change_left e = (case ed_left e of None \<Rightarrow> Inl TypeError | Some m \<Rightarrow> Inr m)"

text \<open>\<open>typed\<close>.\<close>

definition edit_typed :: "port_reads \<Rightarrow> draft \<Rightarrow> edit \<Rightarrow> exn + obj" where
  "edit_typed p d e = rbind (change_left e) (\<lambda>left. rbind (artifact_kind left) (\<lambda>k.
     if \<not> draft_holds p d (ed_artifact e) \<and> \<not> draft_holds p d (type_of k)
       then (case ed_acted e of None \<Rightarrow> Inl TypeError | Some acted \<Rightarrow> Inr acted)
     else conformed left (draft_corpus p d)))"

definition edit_schema :: "port_reads \<Rightarrow> draft \<Rightarrow> edit \<Rightarrow> exn + val" where
  "edit_schema p d e = rbind (edit_typed p d e) schema_of"

definition edit_versioned :: "nat \<Rightarrow> port_reads \<Rightarrow> edit \<Rightarrow> bool \<Rightarrow> edit step" where
  "edit_versioned n p e final =
     (if ed_left e = None \<or> ed_op e = ''import'' then step_return e
      else step_bind (step_read (\<lambda>d. edit_typed p d e)) (\<lambda>typed.
        step_bind (step_read (\<lambda>_. change_left e)) (\<lambda>left.
        step_bind (step_read (\<lambda>_. settled_kind left)) (\<lambda>k.
        step_bind (step_read (\<lambda>_. int_field typed ''version'')) (\<lambda>number.
        step_bind (step_read (\<lambda>_. schema_of typed)) (\<lambda>schema.
        step_bind (on_corpus p (declared n schema)) (\<lambda>decl.
        step_bind (step_read (\<lambda>_. settled_order (dput ''type'' (VStr (versioned k number)) left) (declares_map decl))) (\<lambda>left.
        step_bind (if final then step_put (ed_artifact e) left else step_return ()) (\<lambda>_.
        step_return (e \<lparr>ed_type := versioned k number, ed_left := Some left\<rparr>))))))))))"

definition dump_of :: "yaml \<Rightarrow> edit \<Rightarrow> exn + (fault + string option)" where
  "dump_of y e = (case ed_left e of
     None \<Rightarrow> Inr (Inr None)
   | Some left \<Rightarrow> (case canonical_dump y left of
       Inl (NotCanonical problem at) \<Rightarrow> Inr (Inl (unwritable (ed_artifact e) problem at))
     | Inl (Escaped ex) \<Rightarrow> Inl ex
     | Inr t \<Rightarrow> Inr (Inr (Some t))))"

definition serialised :: "outside \<Rightarrow> edit list \<Rightarrow> exn + string option list" where
  "serialised out changes = rbind (rall (map (dump_of (yaml_of out)) changes)) (\<lambda>dumps.
     let found = concat (map (\<lambda>r. case r of Inl f \<Rightarrow> [f] | Inr _ \<Rightarrow> []) dumps)
     in if found \<noteq> [] then Inl (Refused found) else Inr (concat (map (\<lambda>r. case r of Inl _ \<Rightarrow> [] | Inr t \<Rightarrow> [t]) dumps)))"

definition stands_at :: "obj \<Rightarrow> exn + made_version" where
  "stands_at m = rbind (str_field m ''id'') (\<lambda>name. rbind (int_field m ''version'') (\<lambda>number. rbind (str_field m ''title'') (\<lambda>title.
     Inr \<lparr>vd_version = Version (Kind name) number, vd_title = title\<rparr>)))"

definition read_by_version_made :: "nat \<Rightarrow> port_reads \<Rightarrow> draft \<Rightarrow> obj \<Rightarrow> exn + artifact_id list" where
  "read_by_version_made n p d left = rbind (artifact_kind left) (\<lambda>k.
     if k \<noteq> TYPE_KIND then Inr []
     else rbind (read_through n TYPE_KIND (content_schema left) (draft_corpus p d)) (\<lambda>found. Inr (tl found)))"

text \<open>
  The types reading has kept by the time \<open>as_read\<close> asks for them: \<open>composition.kept\<close> reads each type it follows, so
  of the types read through every one held has been.
\<close>

fun types_seen :: "port_reads \<Rightarrow> artifact_id list \<Rightarrow> draft \<Rightarrow> exn + draft" where
  "types_seen p [] d = Inr d"
| "types_seen p (a # rest) d = rbind (if draft_holds p d a then draft_artifact p d a else Inr ([], d)) (\<lambda>(_, d). types_seen p rest d)"

definition read_types :: "port_reads \<Rightarrow> draft \<Rightarrow> artifact_id list \<Rightarrow> exn + (artifact_id \<times> int) list" where
  "read_types p d ids = rbind (types_seen p ids d) (\<lambda>d. draft_as_read d ids)"

definition marked :: "port_link list \<Rightarrow> port_link list" where
  "marked links = map (\<lambda>l. if l_implicit l then l else l \<lparr>l_imported := True\<rparr>) links"

definition change_handed :: "nat \<Rightarrow> port_reads \<Rightarrow> draft \<Rightarrow> edit \<Rightarrow> int \<Rightarrow> bool \<Rightarrow> exn + change" where
  "change_handed n p d e read final = (let a = ed_artifact e in case ed_left e of
     None \<Rightarrow> Inr \<lparr>ch_artifact = a, ch_content = None, ch_links = [], ch_parts = [], ch_read = read, ch_revision = ed_revision e,
               ch_through = [], ch_searched = [], ch_kind = None, ch_version = None\<rparr>
   | Some left \<Rightarrow>
       rbind (search_rows left) (\<lambda>searched. rbind (artifact_kind left) (\<lambda>k.
       rbind (if k = TYPE_KIND then rbind (stands_at left) (\<lambda>v. Inr (Some v)) else Inr None) (\<lambda>v.
       rbind (read_by_version_made n p d left) (\<lambda>made.
       if \<not> final then rbind (read_types p d made) (\<lambda>through.
         Inr \<lparr>ch_artifact = a, ch_content = Some left, ch_links = [], ch_parts = [], ch_read = read, ch_revision = ed_revision e,
              ch_through = through, ch_searched = searched, ch_kind = Some k, ch_version = v\<rparr>)
       else rbind (edit_typed p d e) (\<lambda>typed.
         rbind (handed n left (draft_corpus p d) typed (fst (draft_waited p d a))) (\<lambda>links.
         rbind (schema_of typed) (\<lambda>schema.
         rbind (read_through n k schema (draft_corpus p d)) (\<lambda>types.
         rbind (read_types p d (types @ made)) (\<lambda>through.
         Inr \<lparr>ch_artifact = a, ch_content = Some left, ch_links = (if ed_op e = ''import'' then marked links else links),
              ch_parts = places_parts left, ch_read = read, ch_revision = ed_revision e,
              ch_through = through, ch_searched = searched, ch_kind = Some k, ch_version = v\<rparr>)))))))))) "

section \<open>Imports in the order of their numbers\<close>

definition import_number :: "operation \<Rightarrow> (artifact_id \<times> int) option" where
  "import_number op = (case op of Import a m \<Rightarrow> map_option (\<lambda>number. (a, number)) (int_version m) | _ \<Rightarrow> None)"

definition import_places :: "operation list \<Rightarrow> artifact_id \<Rightarrow> nat list" where
  "import_places ops a = filter (\<lambda>i. map_option fst (import_number (ops ! i)) = Some a) [0..<length ops]"

definition by_number :: "operation list \<Rightarrow> operation list" where
  "by_number ops = map (\<lambda>i. case import_number (ops ! i) of
       None \<Rightarrow> ops ! i
     | Some (a, _) \<Rightarrow> sort_key (\<lambda>op. snd (the (import_number op))) (map ((!) ops) (import_places ops a)) ! index_of (import_places ops a) i)
     [0..<length ops]"

section \<open>The revisions read\<close>

definition gained_at :: "port_reads \<Rightarrow> edit \<Rightarrow> exn + int" where
  "gained_at p e = rbind (change_left e) (\<lambda>left. rbind (settled_typed left) (\<lambda>typed.
     if \<not> (typed \<and> c_holds (p_corpus p) (ed_artifact e)) then Inr 0
     else rbind (corpus_artifact (p_corpus p) (ed_artifact e)) (\<lambda>stands.
       rbind (settled_typed stands) (\<lambda>typed. if \<not> typed then Inr 0 else
       rbind (int_field stands ''version'') (\<lambda>at. rbind (int_field left ''version'') (\<lambda>brought.
       if at < brought then int_field stands ''revision'' else Inr 0))))))"

fun read_from :: "port_reads \<Rightarrow> (artifact_id \<rightharpoonup> int) \<Rightarrow> edit list \<Rightarrow> exn + int list" where
  "read_from p left [] = Inr []"
| "read_from p left (e # rest) =
     rbind (if ed_op e \<noteq> ''import'' then Inr (ed_revision e - 1)
            else (case left (ed_artifact e) of None \<Rightarrow> gained_at p e | Some before \<Rightarrow> Inr before)) (\<lambda>read.
     rbind (read_from p (left(ed_artifact e \<mapsto> ed_revision e)) rest) (\<lambda>reads. Inr (read # reads)))"

definition edits_read_at :: "port_reads \<Rightarrow> edit list \<Rightarrow> exn + int list" where
  "edits_read_at p changes = read_from p Map.empty changes"

section \<open>Faults\<close>

type_synonym outcome = "fault list + edit"

text \<open>\<open>_acted\<close>: a refusal caught, what was put before it kept; any other exception is raised.\<close>

definition edit_acted :: "nat \<Rightarrow> port_reads \<Rightarrow> operation \<Rightarrow> outcome step" where
  "edit_acted n p op d = (case op of
     Refusal_op faults \<Rightarrow> (Inr (Inl faults), d)
   | _ \<Rightarrow> (case edit_apply n p op d of
       (Inl (Refused faults), d') \<Rightarrow> (Inr (Inl faults), d')
     | (Inl e, d') \<Rightarrow> (Inl e, d')
     | (Inr e, d') \<Rightarrow> (Inr (Inr e), d')))"

fun all_acted :: "nat \<Rightarrow> port_reads \<Rightarrow> operation list \<Rightarrow> outcome list step" where
  "all_acted n p [] = step_return []"
| "all_acted n p (op # ops) = step_bind (edit_acted n p op) (\<lambda>outcome. step_bind (all_acted n p ops) (\<lambda>rest. step_return (outcome # rest)))"

definition edit_fits :: "outside \<Rightarrow> port_reads \<Rightarrow> draft \<Rightarrow> edit \<Rightarrow> exn + fault list" where
  "edit_fits out p d e = (case edit_typed p d e of
     Inl (Refused faults) \<Rightarrow> Inr faults
   | Inl ex \<Rightarrow> Inl ex
   | Inr typed \<Rightarrow> rbind (change_left e) (\<lambda>left. rbind (schema_of typed) (\<lambda>schema.
       validate (misshaped out) (built_fuel out) (read_fuel out) (iri_of (ed_artifact e)) (settled_checked left) schema
         (draft_corpus p d) (fst (draft_waited p d (ed_artifact e))) (ed_op e = ''import''))))"

definition in_reading_order :: "nat \<Rightarrow> port_reads \<Rightarrow> draft \<Rightarrow> edit \<Rightarrow> fault list \<Rightarrow> exn + fault list" where
  "in_reading_order n p d e faults =
     (if length faults < 2 then Inr faults
      else case rbind (edit_schema p d e) (\<lambda>schema. declared n schema (draft_corpus p d)) of
        Inl (Refused _) \<Rightarrow> Inr faults
      | Inl ex \<Rightarrow> Inl ex
      | Inr decl \<Rightarrow> rbind (change_left e) (\<lambda>left. faults_ordered faults (settled_checked left) (declares_map decl)))"

definition outcome_faults :: "outside \<Rightarrow> port_reads \<Rightarrow> draft \<Rightarrow> outcome \<Rightarrow> exn + fault list" where
  "outcome_faults out p d outcome = (case outcome of
     Inl faults \<Rightarrow> Inr faults
   | Inr e \<Rightarrow> (case ed_left e of
       None \<Rightarrow> rbind (draft_links_in (read_fuel out) p d (ed_artifact e)) (\<lambda>found.
         rbind (in_the_way (read_fuel out) p d e) (\<lambda>standing_there.
         Inr (map (\<lambda>each. still_linked (iri_of (ed_artifact e)) (ln_source each) (ln_place each))
                (filter (\<lambda>each. ln_source each \<noteq> ed_artifact e) found) @ standing_there)))
     | Some left \<Rightarrow>
         rbind (edit_fits out p d e) (\<lambda>fits. let faults = ed_faults e @ fits in
         rbind (artifact_kind left) (\<lambda>k.
         rbind (if faults = [] \<and> k = TYPE_KIND then definition_faults (ed_artifact e) (settled_checked left) (draft_corpus p d)
                else Inr faults) (\<lambda>faults.
         in_reading_order (read_fuel out) p d e faults)))))"

definition changes_of :: "outcome list \<Rightarrow> edit list" where
  "changes_of outcomes = concat (map (\<lambda>r. case r of Inl _ \<Rightarrow> [] | Inr e \<Rightarrow> [e]) outcomes)"

text \<open>Each change with whether the set makes no other to its artifact after it.\<close>

fun with_last :: "edit list \<Rightarrow> (edit \<times> bool) list" where
  "with_last [] = []"
| "with_last (e # rest) = (e, ed_artifact e \<notin> ed_artifact ` set rest) # with_last rest"

fun all_versioned :: "nat \<Rightarrow> port_reads \<Rightarrow> (edit \<times> bool) list \<Rightarrow> edit list step" where
  "all_versioned n p [] = step_return []"
| "all_versioned n p ((e, final) # rest) =
     step_bind (edit_versioned n p e final) (\<lambda>e. step_bind (all_versioned n p rest) (\<lambda>es. step_return (e # es)))"

text \<open>\<open>_drafted\<close>.\<close>

definition set_changes :: "outside \<Rightarrow> port_reads \<Rightarrow> operation list \<Rightarrow> edit list step" where
  "set_changes out p ops =
     step_bind (all_acted (read_fuel out) p ops) (\<lambda>outcomes.
     step_bind (step_read (\<lambda>d. rall (map (outcome_faults out p d) outcomes))) (\<lambda>faults.
     if concat faults \<noteq> [] then step_raise (Refused (concat faults))
     else all_versioned (read_fuel out) p (with_last (changes_of outcomes))))"

definition kept_whole :: "nat \<Rightarrow> port_reads \<Rightarrow> draft \<Rightarrow> edit list \<Rightarrow> exn + unit" where
  "kept_whole n p d changes =
     rbind (rall (map (\<lambda>a. rbind (draft_dropped p d a) (\<lambda>gone. Inr (a, gone))) (once_each (map ed_artifact changes)))) (\<lambda>dropped.
     rbind (rall (map (\<lambda>(a, gone). rbind (draft_links_in n p d a) (\<lambda>found.
         Inr (map (\<lambda>each. still_linked (pointing (iri_of a) (ln_part each)) (ln_source each) (ln_place each))
           (filter (\<lambda>each. ln_part each \<in> gone \<and> \<not> draft_changed d (ln_source each)) found))))
       (filter (\<lambda>(a, gone). gone \<noteq> {}) dropped))) (\<lambda>linked.
     if concat linked \<noteq> [] then Inl (Refused (concat linked)) else Inr ()))"

record drafted =
  df_draft :: draft
  df_changes :: "edit list"
  df_texts :: "string option list"
  df_handed :: "change list"
  df_locked :: bool

definition set_drafted :: "outside \<Rightarrow> port_reads \<Rightarrow> operation list \<Rightarrow> exn + drafted" where
  "set_drafted out p ops = (case set_changes out p (by_number ops) new_draft of
     (Inl e, _) \<Rightarrow> Inl e
   | (Inr changes, d) \<Rightarrow>
       rbind (serialised out changes) (\<lambda>texts.
       rbind (kept_whole (read_fuel out) p d changes) (\<lambda>_.
       rbind (edits_read_at p changes) (\<lambda>reads.
       rbind (rall (map2 (\<lambda>(e, final) read. change_handed (read_fuel out) p d e read final) (with_last changes) reads)) (\<lambda>given.
       rbind (guarded p d given) (\<lambda>(given, under_none).
       rbind (if under_none then Inr True
              else any_results (\<lambda>e. rbind (removes_a_type e) (\<lambda>removes. if removes then Inr True else defines_a_type e)) changes) (\<lambda>locked.
       Inr \<lparr>df_draft = d, df_changes = changes, df_texts = texts, df_handed = given, df_locked = locked\<rparr>)))))))"

section \<open>The imports of a type in the order of their numbers\<close>

lemma index_of_less: "x \<in> set xs \<Longrightarrow> index_of xs x < length xs"
  by (induction xs) auto

lemma map_index_of: "distinct ps \<Longrightarrow> length ss = length ps \<Longrightarrow> map (\<lambda>i. ss ! index_of ps i) ps = ss"
proof (induction ps arbitrary: ss)
  case (Cons p ps)
  then obtain s ss' where ss: "ss = s # ss'" "length ss' = length ps" by (cases ss) auto
  have "map (\<lambda>i. ss ! index_of (p # ps) i) ps = map (\<lambda>i. ss' ! index_of ps i) ps"
    using Cons.prems(1) ss by auto
  with Cons ss show ?case by simp
qed simp

definition imported_of :: "operation \<Rightarrow> artifact_id option" where
  "imported_of op = map_option fst (import_number op)"

lemma by_number_nth:
  assumes "i < length ops"
  shows "imported_of (ops ! i) = None \<Longrightarrow> by_number ops ! i = ops ! i"
    and "imported_of (ops ! i) = Some a \<Longrightarrow> by_number ops ! i =
      sort_key (\<lambda>op. snd (the (import_number op))) (map ((!) ops) (import_places ops a)) ! index_of (import_places ops a) i"
  using assms by (auto simp: by_number_def imported_of_def split: option.splits)

lemma imported_of_by_number: "i < length ops \<Longrightarrow> imported_of (by_number ops ! i) = imported_of (ops ! i)"
proof (cases "imported_of (ops ! i)")
  case (Some a)
  assume i: "i < length ops"
  let ?s = "sort_key (\<lambda>op. snd (the (import_number op))) (map ((!) ops) (import_places ops a))"
  have "i \<in> set (import_places ops a)" using i Some by (simp add: import_places_def imported_of_def)
  then have "index_of (import_places ops a) i < length ?s" using index_of_less by fastforce
  then have "?s ! index_of (import_places ops a) i \<in> set ?s" by (rule nth_mem)
  then have "imported_of (?s ! index_of (import_places ops a) i) = Some a"
    by (auto simp: import_places_def imported_of_def)
  with by_number_nth(2) [OF i Some] Some show ?thesis by simp
qed (simp add: by_number_nth)

lemma filter_nth: "filter P xs = map ((!) xs) (filter (\<lambda>i. P (xs ! i)) [0..<length xs])"
proof -
  have "filter P (map ((!) xs) [0..<length xs]) = map ((!) xs) (filter (\<lambda>i. P (xs ! i)) [0..<length xs])"
    by (simp add: filter_map comp_def)
  then show ?thesis by (simp only: map_nth)
qed

text \<open>
  C37: putting a set's imports in the order of their numbers moves nothing else: each place of the set holds what it held,
  or another import of the same type, and the imports of one type, read in the order of their places, are those the
  set gave, sorted by the number of the version each brings.
\<close>

theorem imports_in_number_order:
  "map imported_of (by_number ops) = map imported_of ops \<and>
   (\<forall>i < length ops. imported_of (ops ! i) = None \<longrightarrow> by_number ops ! i = ops ! i) \<and>
   (\<forall>a. filter (\<lambda>op. imported_of op = Some a) (by_number ops) =
        sort_key (\<lambda>op. snd (the (import_number op))) (filter (\<lambda>op. imported_of op = Some a) ops))"
proof (intro conjI allI impI)
  have len: "length (by_number ops) = length ops" by (simp add: by_number_def)
  then show "map imported_of (by_number ops) = map imported_of ops"
    by (simp add: list_eq_iff_nth_eq imported_of_by_number)
  show "by_number ops ! i = ops ! i" if "i < length ops" "imported_of (ops ! i) = None" for i
    using by_number_nth(1) that by simp
  fix a
  let ?ps = "import_places ops a" and ?key = "\<lambda>op. snd (the (import_number op))"
  have ps: "filter (\<lambda>i. imported_of (ops ! i) = Some a) [0..<length ops] = ?ps"
    by (simp add: import_places_def imported_of_def)
  have "filter (\<lambda>i. imported_of (by_number ops ! i) = Some a) [0..<length (by_number ops)] = ?ps"
    unfolding ps [symmetric] len by (rule filter_cong) (simp_all add: imported_of_by_number)
  then have "filter (\<lambda>op. imported_of op = Some a) (by_number ops) = map ((!) (by_number ops)) ?ps"
    by (subst filter_nth) simp
  also have "\<dots> = map (\<lambda>i. sort_key ?key (map ((!) ops) ?ps) ! index_of ?ps i) ?ps"
  proof (rule map_cong)
    fix i
    assume "i \<in> set ?ps"
    then have "i < length ops" "imported_of (ops ! i) = Some a" by (simp_all flip: ps)
    then show "by_number ops ! i = sort_key ?key (map ((!) ops) ?ps) ! index_of ?ps i" by (rule by_number_nth(2))
  qed simp
  also have "\<dots> = sort_key ?key (map ((!) ops) ?ps)"
    by (rule map_index_of) (simp_all add: import_places_def)
  also have "map ((!) ops) ?ps = filter (\<lambda>op. imported_of op = Some a) ops"
    unfolding ps [symmetric] by (rule filter_nth [where P = "\<lambda>op. imported_of op = Some a", symmetric])
  finally show "filter (\<lambda>op. imported_of op = Some a) (by_number ops) =
        sort_key ?key (filter (\<lambda>op. imported_of op = Some a) ops)" .
qed

lemma imports_in_number_order_witness:
  "filter (\<lambda>op. imported_of op = Some (ArtifactId ''t''))
     (by_number [Import (ArtifactId ''t'') [(KText ''version'', VInt 3)], Refusal_op [], Import (ArtifactId ''t'') [(KText ''version'', VInt 2)]])
   = [Import (ArtifactId ''t'') [(KText ''version'', VInt 2)], Import (ArtifactId ''t'') [(KText ''version'', VInt 3)]]"
proof -
  have "sort_key (\<lambda>op. snd (the (import_number op))) (filter (\<lambda>op. imported_of op = Some (ArtifactId ''t''))
     [Import (ArtifactId ''t'') [(KText ''version'', VInt 3)], Refusal_op [], Import (ArtifactId ''t'') [(KText ''version'', VInt 2)]])
     = [Import (ArtifactId ''t'') [(KText ''version'', VInt 2)], Import (ArtifactId ''t'') [(KText ''version'', VInt 3)]]" by code_simp
  then show ?thesis using imports_in_number_order by metis
qed

end
