(* ===== verification/KB_Revisions.thy ===== *)
theory KB_Revisions
  imports KB_Drafting
begin

text \<open>
  What an operation leaves of the artifact it names, and the revisions a set's changes make: each step's effect on the
  draft, the operations' results from them, and the chain of revisions of the changes a set makes to one artifact.
\<close>

section \<open>Steps\<close>

lemma step_bind_Inr: "step_bind m f d = (Inr y, d'') \<longleftrightarrow> (\<exists>x d'. m d = (Inr x, d') \<and> f x d' = (Inr y, d''))"
  by (auto simp: step_bind_def split: prod.splits sum.splits)

lemma step_plain [simp]:
  "step_read g d = (Inr y, d') \<longleftrightarrow> g d = Inr y \<and> d' = d"
  "step_return x d = (Inr y, d') \<longleftrightarrow> y = x \<and> d' = d"
  "step_raise e d \<noteq> (Inr y, d')"
  "on_corpus p h d = (Inr y, d') \<longleftrightarrow> h (draft_corpus p d) = Inr y \<and> d' = d"
  by (auto simp: step_read_def step_return_def step_raise_def on_corpus_def)

lemma step_of_Inr: "step_of g d = (Inr y, d') \<longleftrightarrow> g d = Inr (y, d')"
  by (auto simp: step_of_def split: sum.splits)

lemmas steps = step_bind_Inr step_of_Inr step_put_def results

text \<open>What a step may change: what the draft puts and removes at one IRI, and the types it keeps, each as the store reads.\<close>

definition types_kept :: "port_reads \<Rightarrow> draft \<Rightarrow> bool" where
  "types_kept p d \<longleftrightarrow> (\<forall>a m. map_of (dr_types d) a = Some m \<longrightarrow> corpus_artifact (p_corpus p) a = Inr m)"

definition changes_only :: "artifact_id \<Rightarrow> draft \<Rightarrow> draft \<Rightarrow> bool" where
  "changes_only a d d' \<longleftrightarrow> (\<forall>b. b \<noteq> a \<longrightarrow> map_of (dr_pending d') b = map_of (dr_pending d) b \<and> (b \<in> dr_removed d' \<longleftrightarrow> b \<in> dr_removed d))"

definition same_put :: "draft \<Rightarrow> draft \<Rightarrow> bool" where
  "same_put d d' \<longleftrightarrow> dr_pending d' = dr_pending d \<and> dr_removed d' = dr_removed d"

lemma draft_artifact_kept:
  "draft_artifact p d a = Inr (m, d') \<Longrightarrow> types_kept p d \<Longrightarrow> same_put d d' \<and> types_kept p d'"
  by (auto simp: draft_artifact_def same_put_def types_kept_def update_conv' results split: option.splits if_splits)

lemma numbered_kept:
  assumes "naming_numbered p d a content = Inr (c, d')" "types_kept p d"
  shows "same_put d d' \<and> types_kept p d'"
proof -
  from assms(1) obtain n where "draft_numbered p d a = Inr (n, d')" by (auto simp: naming_numbered_def results split: option.splits)
  then have "\<exists>d1 ns. d' = d1 \<lparr>dr_numbers := ns\<rparr> \<and> (d1 = d \<or> (\<exists>m. draft_artifact p d a = Inr (m, d1)))"
    by (auto simp: draft_numbered_def results split: option.splits if_splits)
  then obtain ns d1 where d1: "d' = d1 \<lparr>dr_numbers := ns\<rparr>" "d1 = d \<or> (\<exists>m. draft_artifact p d a = Inr (m, d1))" by blast
  from d1(2) have "same_put d d1 \<and> types_kept p d1"
    using draft_artifact_kept assms(2) by (auto simp: same_put_def)
  with d1(1) show ?thesis by (simp add: same_put_def types_kept_def)
qed

lemma put_kept:
  assumes "draft_put a m d = Inr d'" "types_kept p d"
  shows "changes_only a d d' \<and> types_kept p d' \<and> map_of (dr_pending d') a = Some m \<and> a \<notin> dr_removed d'"
  using assms by (auto simp: draft_put_def Let_def results changes_only_def types_kept_def update_conv' split: option.splits if_splits)

lemma pending_read:
  "map_of (dr_pending d) a = Some m \<Longrightarrow> corpus_artifact (draft_corpus p d) a = Inr m"
  by (simp add: corpus_artifact_def draft_corpus_def draft_artifact_def)

lemma same_put_read: "same_put d d' \<Longrightarrow> changes_only a d d'"
  by (simp add: same_put_def changes_only_def)

lemma changes_only_trans: "changes_only a d d1 \<Longrightarrow> changes_only a d1 d2 \<Longrightarrow> changes_only a d d2"
  by (simp add: changes_only_def)

section \<open>What each operation leaves\<close>

lemma ordered_identity:
  assumes "settled_order (settled_given c name t n title) schema = Inr r"
  shows "str_field r ''id'' = Inr name" "str_field r ''type'' = Inr t" "int_field r ''revision'' = Inr n" "str_field r ''title'' = Inr title"
proof -
  have "dget r ''id'' = Some (VStr name)" "dget r ''type'' = Some (VStr t)" "dget r ''revision'' = Some (VInt n)"
    "dget r ''title'' = Some (VStr title)"
    by (rule order_scalar [OF assms], simp_all add: settled_given_get is_list_def)+
  then show "str_field r ''id'' = Inr name" "str_field r ''type'' = Inr t" "int_field r ''revision'' = Inr n" "str_field r ''title'' = Inr title"
    by (simp_all add: str_field_def int_field_def)
qed

text \<open>An artifact an operation put: what it is named, what it stands at, and what else stays.\<close>

definition leaves :: "port_reads \<Rightarrow> artifact_id \<Rightarrow> int \<Rightarrow> draft \<Rightarrow> draft \<Rightarrow> obj \<Rightarrow> bool" where
  "leaves p a n d d' m \<longleftrightarrow> changes_only a d d' \<and> types_kept p d' \<and> map_of (dr_pending d') a = Some m \<and> a \<notin> dr_removed d' \<and>
     int_field m ''revision'' = Inr n"

lemma revise_leaves:
  assumes "edit_revise n p a before content v d = (Inr r, d')" "types_kept p d"
  shows "\<exists>m rev. int_field before ''revision'' = Inr rev \<and> leaves p a (rev + 1) d d' m \<and>
    str_field m ''id'' = str_field before ''id'' \<and> str_field m ''title'' = str_field before ''title'' \<and>
    str_field m ''type'' = Inr (version_str v)"
proof -
  from assms(1) obtain k decl named misnamed content' d1 name rev title m where r:
    "(if k = TYPE_KIND then step_of (\<lambda>dr. naming_numbered p dr a named) else step_return named) d = (Inr content', d1)"
    "str_field before ''id'' = Inr name" "int_field before ''revision'' = Inr rev" "str_field before ''title'' = Inr title"
    "settled_order (settled_given content' name (version_str v) (rev + 1) title) (declares_map decl) = Inr m"
    "draft_put a m d1 = Inr d'"
    by (auto simp: edit_revise_def steps)
  have "same_put d d1 \<and> types_kept p d1"
    using r(1) numbered_kept [of p d a named content' d1] assms(2) by (auto simp: step_of_Inr same_put_def split: if_splits)
  then have kept: "changes_only a d d1" "types_kept p d1" by (simp_all add: same_put_read)
  note put = put_kept [OF r(6) kept(2)]
  then have "changes_only a d d'" using changes_only_trans [OF kept(1)] by blast
  then have "leaves p a (rev + 1) d d' m" using put ordered_identity(3) [OF r(5)] by (simp add: leaves_def)
  then show ?thesis using r(2-4) ordered_identity(1,2,4) [OF r(5)] by auto
qed

lemma as_read_at_Inr:
  assumes "as_read_at p a expected d = (Inr u, d')"
  shows "d' = d \<and> draft_holds p d a \<and> (\<exists>m r. corpus_artifact (draft_corpus p d) a = Inr m \<and> int_field m ''revision'' = Inr r \<and>
    (expected = None \<or> expected = Some r))"
  using assms by (cases expected) (auto simp: as_read_at_def steps split: if_splits)

lemma as_read_at_moved:
  assumes "draft_holds p d a" "corpus_artifact (draft_corpus p d) a = Inr m" "int_field m ''revision'' = Inr r" "e \<noteq> r"
  shows "as_read_at p a (Some e) d = (Inl (Refused [moved a r]), d)"
  using assms by (simp add: as_read_at_def step_bind_def step_read_def on_corpus_def step_raise_def)

text \<open>What an operation on a held artifact names, and the revision its client read, None when it said none.\<close>

definition acts_on :: "operation \<Rightarrow> (artifact_id \<times> int option) option" where
  "acts_on op = (case op of
     Replace rp \<Rightarrow> Some (loc_id (rp_locator rp), rp_expected rp)
   | Add ad \<Rightarrow> Some (loc_id (ad_locator ad), ad_expected ad)
   | Remove rm \<Rightarrow> Some (loc_id (rm_locator rm), rm_expected rm)
   | _ \<Rightarrow> None)"

lemma replace_leaves:
  assumes "edit_replace n p rp d = (Inr e, d')" "types_kept p d"
  shows "\<exists>m rev before. corpus_artifact (draft_corpus p d) (loc_id (rp_locator rp)) = Inr before \<and> int_field before ''revision'' = Inr rev \<and>
    leaves p (loc_id (rp_locator rp)) (rev + 1) d d' m \<and> str_field m ''id'' = str_field before ''id'' \<and>
    str_field m ''title'' = str_field before ''title'' \<and> ed_artifact e = loc_id (rp_locator rp) \<and> ed_op e = ''write'' \<and> ed_left e = None"
proof -
  from assms(1) obtain before content v r where r: "corpus_artifact (draft_corpus p d) (loc_id (rp_locator rp)) = Inr before"
    "edit_revise n p (loc_id (rp_locator rp)) before content v d = (Inr r, d')"
    "ed_artifact e = loc_id (rp_locator rp)" "ed_op e = ''write''" "ed_left e = None"
    by (auto simp: edit_replace_def steps Let_def new_edit_def split: if_splits dest!: as_read_at_Inr)
  from revise_leaves [OF r(2) assms(2)] r show ?thesis by blast
qed

lemma append_leaves:
  assumes "edit_append n p ad d = (Inr e, d')" "types_kept p d"
  shows "\<exists>m rev before. corpus_artifact (draft_corpus p d) (loc_id (ad_locator ad)) = Inr before \<and> int_field before ''revision'' = Inr rev \<and>
    leaves p (loc_id (ad_locator ad)) (rev + 1) d d' m \<and> str_field m ''id'' = str_field before ''id'' \<and>
    str_field m ''title'' = str_field before ''title'' \<and> ed_artifact e = loc_id (ad_locator ad) \<and> ed_op e = ''append'' \<and> ed_left e = None"
proof -
  from assms(1) obtain before spot there where b: "corpus_artifact (draft_corpus p d) (loc_id (ad_locator ad)) = Inr before"
    "append_at n p ad before spot there d = (Inr e, d')"
    by (auto simp: edit_append_def Let_def steps split: if_splits dest!: as_read_at_Inr)
  then obtain content v r where r: "corpus_artifact (draft_corpus p d) (loc_id (ad_locator ad)) = Inr before"
    "edit_revise n p (loc_id (ad_locator ad)) before content v d = (Inr r, d')"
    "ed_artifact e = loc_id (ad_locator ad)" "ed_op e = ''append''" "ed_left e = None"
    by (cases spot; cases "spot_list (settled_content before) spot") (auto simp: append_at_def Let_def steps new_edit_def split: if_splits)
  from revise_leaves [OF r(2) assms(2)] r show ?thesis by blast
qed

lemma delete_leaves:
  assumes "edit_delete p rm d = (Inr e, d')"
  shows "\<exists>rev before. corpus_artifact (draft_corpus p d) (loc_id (rm_locator rm)) = Inr before \<and> int_field before ''revision'' = Inr rev \<and>
    d' = draft_remove (loc_id (rm_locator rm)) d \<and> ed_artifact e = loc_id (rm_locator rm) \<and> ed_revision e = rev + 1 \<and> ed_left e = None"
  using assms by (auto simp: edit_delete_def Let_def steps new_edit_def step_bind_Inr split: if_splits dest!: as_read_at_Inr)

lemma create_leaves:
  assumes "edit_create n p cr d = (Inr e, d')" "types_kept p d"
  shows "\<not> draft_holds p d (cr_name cr) \<and> ed_artifact e = cr_name cr \<and> (\<exists>m. leaves p (cr_name cr) 1 d d' m)"
proof -
  from assms(1) obtain identity d1 decl m named where r:
    "naming_identity n p d (cr_name cr) (cr_carried cr) (type_of (version_kind (cr_version cr))) = Inr identity" "identity = []"
    "d1 = d \<or> (\<exists>content content'. naming_numbered p d (cr_name cr) content = Inr (content', d1))"
    "settled_order (settled_given named (iri_of (cr_name cr)) (version_str (cr_version cr)) 1 (cr_title cr)) (declares_map decl) = Inr m"
    "draft_put (cr_name cr) m d1 = Inr d'" "ed_artifact e = cr_name cr"
    by (auto simp: edit_create_def Let_def steps new_edit_def split: if_splits) blast+
  have "same_put d d1 \<and> types_kept p d1"
    using r(3) numbered_kept [of p d "cr_name cr"] assms(2) by (auto simp: same_put_def)
  then have kept: "changes_only (cr_name cr) d d1" "types_kept p d1" by (simp_all add: same_put_read)
  note put = put_kept [OF r(5) kept(2)]
  then have "changes_only (cr_name cr) d d'" using changes_only_trans [OF kept(1)] by blast
  then have "leaves p (cr_name cr) 1 d d' m" using put ordered_identity(3) [OF r(4)] by (simp add: leaves_def)
  moreover have "\<not> draft_holds p d (cr_name cr)"
    using r(1,2) by (auto simp: naming_identity_def results split: if_splits)
  ultimately show ?thesis using r(6) by blast
qed

lemma import_leaves:
  assumes "edit_import n p a artifact d = (Inr e, d')" "types_kept p d"
  shows "ed_artifact e = a \<and> changes_only a d d' \<and> types_kept p d' \<and> a \<notin> dr_removed d' \<and> (\<exists>m. map_of (dr_pending d') a = Some m)"
proof -
  from assms(1) obtain m where m: "draft_put a m d = Inr d'" "ed_artifact e = a"
    by (auto simp: edit_import_def steps new_edit_def)
  from put_kept [OF m(1) assms(2)] m(2) show ?thesis by blast
qed

lemma settled_leaves:
  assumes "edit_settled p e d = (Inr e', d')" "map_of (dr_pending d) (ed_artifact e) = Some m"
  shows "d' = d \<and> ed_artifact e' = ed_artifact e \<and> ed_left e' = Some m \<and> int_field m ''revision'' = Inr (ed_revision e')"
  using assms(1) unfolding edit_settled_def by (auto simp: steps pending_read [OF assms(2)])

section \<open>What acting does\<close>

definition stands :: "draft \<Rightarrow> edit \<Rightarrow> bool" where
  "stands d e \<longleftrightarrow> (case ed_left e of
     None \<Rightarrow> ed_artifact e \<in> dr_removed d
   | Some m \<Rightarrow> map_of (dr_pending d) (ed_artifact e) = Some m \<and> ed_artifact e \<notin> dr_removed d \<and>
       int_field m ''revision'' = Inr (ed_revision e))"

lemma apply_stands:
  assumes "edit_apply n p op d = (Inr e, d')" "types_kept p d"
  shows "types_kept p d' \<and> changes_only (ed_artifact e) d d' \<and> stands d' e"
proof (cases op)
  case (Create cr)
  with assms(1) obtain e1 d1 where r: "edit_create n p cr d = (Inr e1, d1)" "edit_settled p e1 d1 = (Inr e, d')"
    by (auto simp: edit_apply_def steps)
  from create_leaves [OF r(1) assms(2)] obtain m where m: "ed_artifact e1 = cr_name cr" "leaves p (cr_name cr) 1 d d1 m" by blast
  with settled_leaves [OF r(2)] show ?thesis by (auto simp: leaves_def stands_def)
next
  case (Replace rp)
  with assms(1) obtain e1 d1 where r: "edit_replace n p rp d = (Inr e1, d1)" "edit_settled p e1 d1 = (Inr e, d')"
    by (auto simp: edit_apply_def steps)
  from replace_leaves [OF r(1) assms(2)] obtain m rev where m: "ed_artifact e1 = loc_id (rp_locator rp)" "leaves p (loc_id (rp_locator rp)) rev d d1 m" by blast
  with settled_leaves [OF r(2)] show ?thesis by (auto simp: leaves_def stands_def)
next
  case (Add ad)
  with assms(1) obtain e1 d1 where r: "edit_append n p ad d = (Inr e1, d1)" "edit_settled p e1 d1 = (Inr e, d')"
    by (auto simp: edit_apply_def steps)
  from append_leaves [OF r(1) assms(2)] obtain m rev where m: "ed_artifact e1 = loc_id (ad_locator ad)" "leaves p (loc_id (ad_locator ad)) rev d d1 m" by blast
  with settled_leaves [OF r(2)] show ?thesis by (auto simp: leaves_def stands_def)
next
  case (Remove rm)
  with assms(1) delete_leaves [of p rm d e d'] assms(2) show ?thesis
    by (auto simp: edit_apply_def stands_def draft_remove_def changes_only_def types_kept_def)
next
  case (Import a artifact)
  with assms(1) obtain e1 d1 where r: "edit_import n p a artifact d = (Inr e1, d1)" "edit_settled p e1 d1 = (Inr e, d')"
    by (auto simp: edit_apply_def steps)
  from import_leaves [OF r(1) assms(2)] obtain m where "ed_artifact e1 = a" "changes_only a d d1" "types_kept p d1" "a \<notin> dr_removed d1"
    "map_of (dr_pending d1) a = Some m" by blast
  with settled_leaves [OF r(2)] show ?thesis by (auto simp: stands_def)
next
  case (Refusal_op faults)
  with assms(1) show ?thesis by (simp add: edit_apply_def)
qed

text \<open>The revision an operation on a held artifact finds it at, and the one it leaves.\<close>

lemma apply_on_held:
  assumes "edit_apply n p op d = (Inr e, d')" "types_kept p d" "acts_on op = Some (a, expected)"
  shows "ed_artifact e = a \<and> draft_holds p d a \<and> (\<exists>before. corpus_artifact (draft_corpus p d) a = Inr before \<and>
    int_field before ''revision'' = Inr (ed_revision e - 1) \<and> (expected = None \<or> expected = Some (ed_revision e - 1)) \<and>
    (case ed_left e of None \<Rightarrow> True | Some m \<Rightarrow> str_field m ''id'' = str_field before ''id'' \<and> str_field m ''title'' = str_field before ''title''))"
proof (cases op)
  case (Replace rp)
  with assms(1) obtain e1 d1 where r: "edit_replace n p rp d = (Inr e1, d1)" "edit_settled p e1 d1 = (Inr e, d')"
    by (auto simp: edit_apply_def steps)
  from Replace assms(3) have a: "a = loc_id (rp_locator rp)" "expected = rp_expected rp" by (simp_all add: acts_on_def)
  from r(1) obtain u where "as_read_at p a expected d = (Inr u, d)"
    unfolding a edit_replace_def Let_def step_bind_Inr using as_read_at_Inr by blast
  note read = as_read_at_Inr [OF this]
  from replace_leaves [OF r(1) assms(2)] obtain m rev before where m: "ed_artifact e1 = a" "leaves p a (rev + 1) d d1 m"
    "corpus_artifact (draft_corpus p d) a = Inr before" "int_field before ''revision'' = Inr rev"
    "str_field m ''id'' = str_field before ''id''" "str_field m ''title'' = str_field before ''title''" unfolding a by blast
  with settled_leaves [OF r(2), of m] read show ?thesis by (auto simp: leaves_def)
next
  case (Add ad)
  with assms(1) obtain e1 d1 where r: "edit_append n p ad d = (Inr e1, d1)" "edit_settled p e1 d1 = (Inr e, d')"
    by (auto simp: edit_apply_def steps)
  from Add assms(3) have a: "a = loc_id (ad_locator ad)" "expected = ad_expected ad" by (simp_all add: acts_on_def)
  from r(1) obtain u where "as_read_at p a expected d = (Inr u, d)"
    unfolding a edit_append_def Let_def step_bind_Inr using as_read_at_Inr by blast
  note read = as_read_at_Inr [OF this]
  from append_leaves [OF r(1) assms(2)] obtain m rev before where m: "ed_artifact e1 = a" "leaves p a (rev + 1) d d1 m"
    "corpus_artifact (draft_corpus p d) a = Inr before" "int_field before ''revision'' = Inr rev"
    "str_field m ''id'' = str_field before ''id''" "str_field m ''title'' = str_field before ''title''" unfolding a by blast
  with settled_leaves [OF r(2), of m] read show ?thesis by (auto simp: leaves_def)
next
  case (Remove rm)
  with assms(1) have r: "edit_delete p rm d = (Inr e, d')" by (simp add: edit_apply_def)
  from Remove assms(3) have a: "a = loc_id (rm_locator rm)" "expected = rm_expected rm" by (simp_all add: acts_on_def)
  from r obtain u where "as_read_at p a expected d = (Inr u, d)"
    unfolding a edit_delete_def Let_def step_bind_Inr using as_read_at_Inr by blast
  from as_read_at_Inr [OF this] delete_leaves [OF r] show ?thesis unfolding a by auto
qed (use assms(3) in \<open>simp_all add: acts_on_def\<close>)

lemma apply_create:
  assumes "edit_apply n p (Create cr) d = (Inr e, d')" "types_kept p d"
  shows "ed_artifact e = cr_name cr \<and> \<not> draft_holds p d (cr_name cr) \<and> ed_revision e = 1"
proof -
  from assms(1) obtain e1 d1 where r: "edit_create n p cr d = (Inr e1, d1)" "edit_settled p e1 d1 = (Inr e, d')"
    by (auto simp: edit_apply_def steps)
  from create_leaves [OF r(1) assms(2)] obtain m where m: "\<not> draft_holds p d (cr_name cr)" "ed_artifact e1 = cr_name cr"
    "leaves p (cr_name cr) 1 d d1 m" by blast
  with settled_leaves [OF r(2), of m] show ?thesis by (auto simp: leaves_def)
qed

text \<open>
  C12: a replacement, an addition or a removal that acts does so on an artifact held, at the revision its client said it
  read, if it said one, and leaves the next revision of it; what a replacement or an addition leaves keeps the artifact's
  IRI and its title. Said to have been read at any other revision the operation is refused with the revision
  the artifact stands at, the draft as it was.
\<close>

theorem acts_as_read:
  assumes "types_kept p d" "acts_on op = Some (a, expected)"
  shows "(\<forall>e d'. edit_apply n p op d = (Inr e, d') \<longrightarrow>
      ed_artifact e = a \<and> draft_holds p d a \<and> (\<exists>before. corpus_artifact (draft_corpus p d) a = Inr before \<and>
        int_field before ''revision'' = Inr (ed_revision e - 1) \<and> (expected = None \<or> expected = Some (ed_revision e - 1)) \<and>
        (case ed_left e of None \<Rightarrow> a \<in> dr_removed d'
         | Some m \<Rightarrow> corpus_artifact (draft_corpus p d') a = Inr m \<and> int_field m ''revision'' = Inr (ed_revision e) \<and>
             str_field m ''id'' = str_field before ''id'' \<and> str_field m ''title'' = str_field before ''title''))) \<and>
    (\<forall>m r e. draft_holds p d a \<longrightarrow> corpus_artifact (draft_corpus p d) a = Inr m \<longrightarrow> int_field m ''revision'' = Inr r \<longrightarrow>
      expected = Some e \<longrightarrow> e \<noteq> r \<longrightarrow> edit_apply n p op d = (Inl (Refused [moved a r]), d))"
proof (intro conjI allI impI)
  fix e d'
  assume e: "edit_apply n p op d = (Inr e, d')"
  from apply_on_held [OF e assms] apply_stands [OF e assms(1)]
  show "ed_artifact e = a" "draft_holds p d a" "\<exists>before. corpus_artifact (draft_corpus p d) a = Inr before \<and>
      int_field before ''revision'' = Inr (ed_revision e - 1) \<and> (expected = None \<or> expected = Some (ed_revision e - 1)) \<and>
      (case ed_left e of None \<Rightarrow> a \<in> dr_removed d'
       | Some m \<Rightarrow> corpus_artifact (draft_corpus p d') a = Inr m \<and> int_field m ''revision'' = Inr (ed_revision e) \<and>
           str_field m ''id'' = str_field before ''id'' \<and> str_field m ''title'' = str_field before ''title'')"
    by (auto simp: stands_def pending_read split: option.splits)
next
  fix m r e
  assume "draft_holds p d a" "corpus_artifact (draft_corpus p d) a = Inr m" "int_field m ''revision'' = Inr r" "expected = Some e" "e \<noteq> r"
  then have "as_read_at p a expected d = (Inl (Refused [moved a r]), d)" by (simp add: as_read_at_moved)
  then show "edit_apply n p op d = (Inl (Refused [moved a r]), d)"
    using assms(2) by (cases op) (auto simp: acts_on_def edit_apply_def edit_replace_def edit_append_def edit_delete_def step_bind_def Let_def)
qed

definition plain_port :: "artifact_id \<Rightarrow> obj \<Rightarrow> port_reads" where
  "plain_port a m = \<lparr>p_corpus = \<lparr>c_holds = (\<lambda>b. b = a), c_artifact = (\<lambda>b. if b = a then Some m else None), c_type_version = (\<lambda>_. None),
     c_versions = (\<lambda>_. []), c_ids = (\<lambda>_. [])\<rparr>, p_links_in = (\<lambda>_. []), p_waiting = (\<lambda>_. [])\<rparr>"

definition note_held :: obj where
  "note_held = [(KText ''id'', VStr ''https://a.io/t/x''), (KText ''type'', VStr ''https://a.io/t@1''), (KText ''revision'', VInt 3),
     (KText ''title'', VStr ''X'')]"

definition note_removal :: "int option \<Rightarrow> operation" where
  "note_removal expected = Remove \<lparr>rm_locator = Locator (ArtifactId ''https://a.io/t/x'') [], rm_expected = expected\<rparr>"

lemma acts_as_read_witness:
  "edit_apply 2 (plain_port (ArtifactId ''https://a.io/t/x'') note_held) (note_removal (Some 2)) new_draft
     = (Inl (Refused [moved (ArtifactId ''https://a.io/t/x'') 3]), new_draft)
   \<and> (\<exists>e d'. edit_apply 2 (plain_port (ArtifactId ''https://a.io/t/x'') note_held) (note_removal (Some 3)) new_draft = (Inr e, d') \<and>
        ed_revision e = 4)"
proof
  let ?p = "plain_port (ArtifactId ''https://a.io/t/x'') note_held" and ?a = "ArtifactId ''https://a.io/t/x''"
  have k: "types_kept ?p new_draft" by (simp add: types_kept_def new_draft_def)
  have held: "draft_holds ?p new_draft ?a" "corpus_artifact (draft_corpus ?p new_draft) ?a = Inr note_held"
    "int_field note_held ''revision'' = Inr 3" by code_simp+
  show "edit_apply 2 ?p (note_removal (Some 2)) new_draft = (Inl (Refused [moved ?a 3]), new_draft)"
    using acts_as_read [OF k, of "note_removal (Some 2)" ?a "Some 2" 2] held by (simp add: note_removal_def acts_on_def)
  have "\<not> isl (fst (edit_apply 2 ?p (note_removal (Some 3)) new_draft))" by code_simp
  then obtain e d' where e: "edit_apply 2 ?p (note_removal (Some 3)) new_draft = (Inr e, d')"
    by (metis isl_def old.sum.exhaust prod.exhaust_sel)
  moreover have "acts_on (note_removal (Some 3)) = Some (?a, Some 3)" by (simp add: note_removal_def acts_on_def)
  ultimately have "Some 3 = Some (ed_revision e - 1)" using apply_on_held [OF e k] by auto
  with e show "\<exists>e d'. edit_apply 2 ?p (note_removal (Some 3)) new_draft = (Inr e, d') \<and> ed_revision e = 4" by auto
qed

section \<open>The changes a set makes to one artifact follow one another\<close>

definition revision_before :: "port_reads \<Rightarrow> edit list \<Rightarrow> artifact_id \<Rightarrow> int option" where
  "revision_before p es a = (case rev (filter (\<lambda>e. ed_artifact e = a) es) of
     e # _ \<Rightarrow> if ed_left e = None then None else Some (ed_revision e)
   | [] \<Rightarrow> if c_holds (p_corpus p) a
            then (case rbind (corpus_artifact (p_corpus p) a) (\<lambda>m. int_field m ''revision'') of Inr r \<Rightarrow> Some r | Inl _ \<Rightarrow> None)
          else None)"

definition chained :: "port_reads \<Rightarrow> draft \<Rightarrow> edit list \<Rightarrow> bool" where
  "chained p d es \<longleftrightarrow> types_kept p d \<and> (\<forall>a. case rev (filter (\<lambda>e. ed_artifact e = a) es) of
     e # _ \<Rightarrow> stands d e
   | [] \<Rightarrow> map_of (dr_pending d) a = None \<and> a \<notin> dr_removed d)"

lemma stands_kept: "stands d e \<Longrightarrow> changes_only b d d' \<Longrightarrow> b \<noteq> ed_artifact e \<Longrightarrow> stands d' e"
  by (simp add: stands_def changes_only_def split: option.splits)

lemma last_same: "rev (filter (\<lambda>x. ed_artifact x = b) es) = e # rest \<Longrightarrow> ed_artifact e = b"
proof -
  assume "rev (filter (\<lambda>x. ed_artifact x = b) es) = e # rest"
  then have "e \<in> set (rev (filter (\<lambda>x. ed_artifact x = b) es))" by simp
  then show "ed_artifact e = b" by simp
qed

lemma chained_step:
  assumes "chained p d es" "changes_only (ed_artifact e) d d'" "types_kept p d'" "stands d' e"
  shows "chained p d' (es @ [e])"
  unfolding chained_def
proof (intro conjI allI)
  fix b
  show "case rev (filter (\<lambda>x. ed_artifact x = b) (es @ [e])) of e # _ \<Rightarrow> stands d' e
     | [] \<Rightarrow> map_of (dr_pending d') b = None \<and> b \<notin> dr_removed d'"
  proof (cases "ed_artifact e = b")
    case False
    from assms(1) have "case rev (filter (\<lambda>x. ed_artifact x = b) es) of e # _ \<Rightarrow> stands d e
      | [] \<Rightarrow> map_of (dr_pending d) b = None \<and> b \<notin> dr_removed d" by (simp add: chained_def)
    with False show ?thesis
    proof (cases "rev (filter (\<lambda>x. ed_artifact x = b) es)")
      case (Cons x rest)
      with last_same [OF Cons] False assms(1,2) show ?thesis by (auto simp: chained_def intro: stands_kept split: list.splits)
    qed (use assms(2) in \<open>auto simp: changes_only_def\<close>)
  qed (use assms(4) in simp)
qed (rule assms(3))

lemma store_read:
  assumes "map_of (dr_pending d) a = None" "a \<notin> dr_removed d" "types_kept p d" "corpus_artifact (draft_corpus p d) a = Inr m"
  shows "corpus_artifact (p_corpus p) a = Inr m"
proof -
  have "answered (draft_artifact p d a) = Some m"
    using assms(4) by (auto simp: corpus_artifact_def draft_corpus_def split: option.splits)
  then obtain d' where "draft_artifact p d a = Inr (m, d')" by (cases "draft_artifact p d a") auto
  then show ?thesis using assms(1,3) by (auto simp: draft_artifact_def types_kept_def results split: option.splits)
qed

lemma chained_before:
  assumes c: "chained p d es" and h: "draft_holds p d a"
    and m: "corpus_artifact (draft_corpus p d) a = Inr m" "int_field m ''revision'' = Inr r"
  shows "revision_before p es a = Some r"
proof (cases "rev (filter (\<lambda>e. ed_artifact e = a) es)")
  case Nil
  with c have n: "map_of (dr_pending d) a = None" "a \<notin> dr_removed d" "types_kept p d"
    unfolding chained_def by (auto dest!: spec [of _ a])
  then have "c_holds (p_corpus p) a" using h by (simp add: draft_holds_def)
  moreover have "corpus_artifact (p_corpus p) a = Inr m"
    by (rule store_read [OF n m(1)])
  ultimately show ?thesis using Nil m(2) by (simp add: revision_before_def)
next
  case (Cons e rest)
  with c have s: "stands d e" unfolding chained_def by (auto dest!: spec [of _ a])
  have "ed_artifact e = a" by (rule last_same [OF Cons])
  with s h m Cons show ?thesis
    by (auto simp: stands_def draft_holds_def pending_read revision_before_def split: option.splits if_splits)
qed

lemma chained_unheld:
  assumes c: "chained p d es" and h: "\<not> draft_holds p d a"
  shows "revision_before p es a = None"
proof (cases "rev (filter (\<lambda>e. ed_artifact e = a) es)")
  case Nil
  with c have "map_of (dr_pending d) a = None" "a \<notin> dr_removed d" unfolding chained_def by (auto dest!: spec [of _ a])
  with h Nil show ?thesis by (auto simp: draft_holds_def revision_before_def)
next
  case (Cons e rest)
  with c have s: "stands d e" unfolding chained_def by (auto dest!: spec [of _ a])
  have "ed_artifact e = a" by (rule last_same [OF Cons])
  with s h Cons show ?thesis by (auto simp: stands_def draft_holds_def revision_before_def split: option.splits if_splits)
qed

definition follows_on :: "port_reads \<Rightarrow> edit list \<Rightarrow> operation \<Rightarrow> edit \<Rightarrow> bool" where
  "follows_on p es op e \<longleftrightarrow>
     (\<forall>a expected. acts_on op = Some (a, expected) \<longrightarrow> ed_artifact e = a \<and> revision_before p es a = Some (ed_revision e - 1) \<and>
        (expected = None \<or> expected = Some (ed_revision e - 1))) \<and>
     (\<forall>cr. op = Create cr \<longrightarrow> ed_artifact e = cr_name cr \<and> revision_before p es (cr_name cr) = None \<and> ed_revision e = 1)"

lemma acted_Inr: "edit_acted n p op d = (Inr (Inr e), d') \<Longrightarrow> edit_apply n p op d = (Inr e, d')"
  by (auto simp: edit_acted_def split: operation.splits prod.splits sum.splits exn.splits)

lemma all_acted_follow:
  assumes "all_acted n p ops d = (Inr (map Inr es), d')" "chained p d before"
  shows "length es = length ops \<and> (\<forall>k < length ops. follows_on p (before @ take k es) (ops ! k) (es ! k))"
  using assms
proof (induction ops arbitrary: d es before)
  case Nil
  then show ?case by (auto simp: step_return_def)
next
  case (Cons op ops)
  from Cons.prems(1) obtain e d1 es' where r: "edit_acted n p op d = (Inr (Inr e), d1)" "es = e # es'"
    "all_acted n p ops d1 = (Inr (map Inr es'), d')"
    by (auto simp: steps Cons_eq_map_conv)
  note acted = acted_Inr [OF r(1)]
  have k: "types_kept p d" using Cons.prems(2) by (simp add: chained_def)
  from apply_stands [OF acted k] chained_step [OF Cons.prems(2)] have "chained p d1 (before @ [e])" by blast
  from Cons.IH [OF r(3) this] have rest: "length es' = length ops"
    "\<And>k. k < length ops \<Longrightarrow> follows_on p (before @ e # take k es') (ops ! k) (es' ! k)" by auto
  have "follows_on p before op e"
  proof -
    have "ed_artifact e = a \<and> revision_before p before a = Some (ed_revision e - 1) \<and> (expected = None \<or> expected = Some (ed_revision e - 1))"
      if "acts_on op = Some (a, expected)" for a expected
      using apply_on_held [OF acted k that] chained_before [OF Cons.prems(2)] by blast
    moreover have "ed_artifact e = cr_name cr \<and> revision_before p before (cr_name cr) = None \<and> ed_revision e = 1" if "op = Create cr" for cr
      using apply_create [OF acted [unfolded that] k] chained_unheld [OF Cons.prems(2)] by blast
    ultimately show ?thesis by (simp add: follows_on_def)
  qed
  with rest r(2) show ?case by (auto simp: nth_Cons split: nat.splits)
qed

text \<open>
  C11: when every operation of a set acts, the changes it makes to one artifact follow one another: each replacement,
  addition or removal reads the artifact at the revision the set's change before it left, the first at the revision the
  store holds it at, and leaves the next, whatever the set does to other artifacts in between; and a create makes
  revision 1 of what neither the store nor the set before it holds.
\<close>

theorem changes_follow_on:
  assumes "all_acted n p ops new_draft = (Inr (map Inr es), d)"
  shows "length es = length ops \<and> (\<forall>k < length ops. follows_on p (take k es) (ops ! k) (es ! k))"
proof -
  have "chained p new_draft []" by (simp add: chained_def types_kept_def new_draft_def)
  from all_acted_follow [OF assms this] show ?thesis by simp
qed

lemma changes_follow_on_witness:
  "\<exists>es d. all_acted 2 (plain_port (ArtifactId ''https://a.io/t/x'') note_held) [note_removal (Some 3)] new_draft = (Inr (map Inr es), d) \<and>
     follows_on (plain_port (ArtifactId ''https://a.io/t/x'') note_held) [] (note_removal (Some 3)) (es ! 0)"
proof -
  let ?p = "plain_port (ArtifactId ''https://a.io/t/x'') note_held"
  have "(case fst (all_acted 2 ?p [note_removal (Some 3)] new_draft) of Inr [x] \<Rightarrow> \<not> isl x | _ \<Rightarrow> False)" by code_simp
  then obtain e d where e: "all_acted 2 ?p [note_removal (Some 3)] new_draft = (Inr [Inr e], d)"
    by (cases "all_acted 2 ?p [note_removal (Some 3)] new_draft") (auto simp del: all_acted.simps simp: isl_def split: sum.splits list.splits, meson sum.exhaust)
  then have e': "all_acted 2 ?p [note_removal (Some 3)] new_draft = (Inr (map Inr [e]), d)" by simp
  from changes_follow_on [OF this] have "follows_on ?p [] (note_removal (Some 3)) ([e] ! 0)" by simp
  with e' show ?thesis by blast
qed

section \<open>A type first read by one of its versions\<close>

text \<open>
  What a draft keeps of a type whose version is the first thing read of it is that version, so the revision the type is
  handed as read at is the version's own, whatever revision the type stands at: \<open>readers\<close>, asked when a set removes
  a type, reads so every version of every other type, lowest first.
\<close>

lemma version_first_read_handed:
  assumes "c_type_version (p_corpus p) (Version (Kind (iri_of a)) n) = Some made" "int_field (tv_content made) ''revision'' = Inr r"
    and "\<not> draft_changed d a" "map_of (dr_types d) a = None"
  shows "\<exists>d'. draft_type_version p d (Version (Kind (iri_of a)) n) = Inr (made, d') \<and> draft_as_read d' [a] = Inr [(a, r)]"
  using assms by (cases a) (auto simp: draft_type_version_def draft_as_read_def draft_changed_def Let_def map_add_def)

end
