(* ===== verification/KB_Requests.thy ===== *)
theory KB_Requests
  imports KB_Edits KB_Canonical KB_Search
begin

text \<open>
  What a request carries, as the values one domain call takes: \<open>signatures.py\<close>, who makes a change and why;
  \<open>content_values.py\<close>, content read plainly; \<open>changes.py\<close>, each change of a set converted or standing in its place
  as its refusal; and \<open>requests.py\<close> but for a history's time. The contract's messages are records of the fields read.
\<close>

section \<open>Signatures\<close>

record signature =
  sg_role :: string
  sg_execution :: string
  sg_message :: string

record signed =
  sd_role :: string
  sd_execution :: string
  sd_message :: string

definition history_names :: "string \<Rightarrow> string" where
  "history_names reason = ''every entry in the history '' @ reason"

definition unsigned :: "signature \<Rightarrow> fault list" where
  "unsigned s =
     (if list_all white (sg_role s) then [Fault [] [] ACTOR (history_names ''names the role that made it'')] else []) @
     (if list_all white (sg_message s) then [Fault [] [] MESSAGE (history_names ''says why it was made'')] else [])"

definition signed_as :: "signature \<Rightarrow> signed" where
  "signed_as s = \<lparr>sd_role = sg_role s, sd_execution = sg_execution s, sd_message = sg_message s\<rparr>"

definition signature_signed :: "signature \<Rightarrow> exn + signed" where
  "signature_signed s = (if unsigned s \<noteq> [] then Inl (Refused (unsigned s)) else Inr (signed_as s))"

definition signature_reader :: "signature \<Rightarrow> exn + signed" where
  "signature_reader s =
     (let faults = unsigned s @
        (if sg_execution s = [] then [Fault [] [] ACTOR ''a snapshot records what a named piece of work read''] else [])
      in if faults \<noteq> [] then Inl (Refused faults) else Inr (signed_as s))"

text \<open>\<open>starter\<close>, of a role and an execution given as values that may not be text.\<close>

definition starter :: "val \<Rightarrow> val \<Rightarrow> exn + string \<times> string" where
  "starter role execution = (case (role, execution) of
     (VStr r, VStr e) \<Rightarrow> (if r = [] then Inl (Refused [Fault [] [] ACTOR ''a store can only be started under a role'']) else Inr (r, e))
   | _ \<Rightarrow> Inl (Refused [Fault [] [] ACTOR ''a store can only be started under a role'']))"

section \<open>Content\<close>

definition problem_of :: "unplain + 'a \<Rightarrow> ('a \<Rightarrow> content_read) \<Rightarrow> exn + content_read" where
  "problem_of r f = (case r of
     Inl (NotCanonical message path) \<Rightarrow> Inr \<lparr>ct_tree = VNull, ct_problems = [(path, CONTENT, message)]\<rparr>
   | Inl (Escaped e) \<Rightarrow> Inl e
   | Inr v \<Rightarrow> Inr (f v))"

definition identity_problem :: "obj \<Rightarrow> string \<Rightarrow> (string \<times> string \<times> string) list" where
  "identity_problem tree key = (case dget tree key of
     None \<Rightarrow> []
   | Some v \<Rightarrow> [(key, IDENTITY_RULE,
       if key = ''title''
         then ''a title is given alongside the content, never inside it; the content carried the title '' @ py_repr v
       else ''content holds only what the type declares; '' @ key @ '' is settled by the store, and the content carried '' @ key
         @ '': '' @ py_repr v)])"

definition content_given :: "yaml \<Rightarrow> string \<Rightarrow> exn + content_read" where
  "content_given y t = problem_of (canonical_entries y t)
     (\<lambda>tree. \<lparr>ct_tree = VMap tree, ct_problems = concat (map (identity_problem tree) IDENTITY)\<rparr>)"

definition node_given :: "yaml \<Rightarrow> string \<Rightarrow> exn + content_read" where
  "node_given y t = problem_of (content_loads y t) (\<lambda>tree. \<lparr>ct_tree = tree, ct_problems = []\<rparr>)"

definition leaves_nothing :: "string \<Rightarrow> string" where
  "leaves_nothing title = ''a title must leave something to make a name from; '' @ repr_str title @ '' leaves nothing''"

definition item_titled :: "obj \<Rightarrow> content_read" where
  "item_titled tree = (case item_title (dget tree ''title'') of
     None \<Rightarrow> \<lparr>ct_tree = VMap tree, ct_problems = []\<rparr>
   | Some title \<Rightarrow>
       if slug title = [] then \<lparr>ct_tree = VMap tree, ct_problems = [(''title'', TITLE, leaves_nothing title)]\<rparr>
       else \<lparr>ct_tree = VMap (dput ''title'' (VStr title) tree), ct_problems = []\<rparr>)"

definition id_settled :: "val \<Rightarrow> string" where
  "id_settled v = ''content holds only what the type declares; an item's id is settled by the store, and the content carried id: '' @ py_repr v"

definition item_given :: "yaml \<Rightarrow> string \<Rightarrow> exn + content_read" where
  "item_given y t = rbind (node_given y t) (\<lambda>read.
     if ct_problems read \<noteq> [] then Inr read
     else case ct_tree read of
       VMap tree \<Rightarrow> Inr (case dget tree ''id'' of
           Some v \<Rightarrow> \<lparr>ct_tree = VMap tree, ct_problems = [(''id'', IDENTITY_RULE, id_settled v)]\<rparr>
         | None \<Rightarrow> item_titled tree)
     | _ \<Rightarrow> Inr read)"

section \<open>Changes\<close>

record create_item =
  ci_id :: string
  ci_type :: string
  ci_title :: string
  ci_content :: string

record replace_item =
  ri_locator :: locator_request
  ri_content :: string
  ri_revision :: int
  ri_type :: string

record add_item =
  ai_locator :: locator_request
  ai_content :: string
  ai_revision :: int

record remove_item =
  xi_locator :: locator_request
  xi_revision :: int

definition create_of :: "yaml \<Rightarrow> create_item \<Rightarrow> bool \<Rightarrow> exn + operation" where
  "create_of y i again =
     (let name = values_artifact_id (ci_id i); v = values_version (ci_type i);
          carried = (case name of Inr a \<Rightarrow> if again then [carried_twice a] else [] | Inl _ \<Rightarrow> []);
          faults = caught name @ caught v
      in if faults \<noteq> [] then Inl (Refused (carried @ faults))
         else rbind name (\<lambda>name. rbind v (\<lambda>v. rbind (content_given y (ci_content i)) (\<lambda>ct.
           Inr (Create \<lparr>cr_name = name, cr_version = v, cr_title = ci_title i, cr_title_faults = titled (ci_title i) (ci_id i),
                        cr_content = ct, cr_carried = carried\<rparr>)))))"

definition replace_of :: "yaml \<Rightarrow> replace_item \<Rightarrow> exn + operation" where
  "replace_of y i = rbind (values_locator (ri_locator i)) (\<lambda>l. rbind (values_named (ri_type i)) (\<lambda>v.
     rbind (if loc_place l = [] then content_given y (ri_content i) else node_given y (ri_content i)) (\<lambda>ct.
     Inr (Replace \<lparr>rp_locator = l, rp_content = ct, rp_expected = values_expected (ri_revision i), rp_version = v\<rparr>))))"

definition add_of :: "yaml \<Rightarrow> add_item \<Rightarrow> exn + operation" where
  "add_of y i = rbind (values_locator (ai_locator i)) (\<lambda>l. rbind (item_given y (ai_content i)) (\<lambda>ct.
     Inr (Add \<lparr>ad_locator = l, ad_item = ct, ad_expected = values_expected (ai_revision i)\<rparr>)))"

definition remove_of :: "remove_item \<Rightarrow> exn + operation" where
  "remove_of i = rbind (values_locator (xi_locator i)) (\<lambda>l.
     Inr (Remove \<lparr>rm_locator = l, rm_expected = values_expected (xi_revision i)\<rparr>))"

text \<open>\<open>_each\<close>: a refusal stands in its place; any other exception is raised.\<close>

definition each_of :: "(exn + operation) list \<Rightarrow> exn + operation list" where
  "each_of conversions = rall (map (\<lambda>r. case r of Inl (Refused faults) \<Rightarrow> Inr (Refusal_op faults) | _ \<Rightarrow> r) conversions)"

definition one_of :: "signature \<Rightarrow> (exn + operation) \<Rightarrow> exn + operation list \<times> signed" where
  "one_of s conversion = rbind (signature_signed s) (\<lambda>who. rbind (each_of [conversion]) (\<lambda>ops. Inr (ops, who)))"

definition many_of :: "signature \<Rightarrow> (exn + operation) list \<Rightarrow> exn + operation list \<times> signed" where
  "many_of s conversions = rbind (signature_signed s) (\<lambda>who.
     if conversions = [] then Inl (Refused [Fault [] [] OPERATIONS ''a set must hold at least one change''])
     else rbind (each_of conversions) (\<lambda>ops. Inr (ops, who)))"

definition carried_again :: "string list \<Rightarrow> bool list" where
  "carried_again iris = map (\<lambda>i. iris ! i \<in> set (take i iris)) [0..<length iris]"

definition creating :: "yaml \<Rightarrow> signature \<Rightarrow> create_item \<Rightarrow> exn + operation list \<times> signed" where
  "creating y s i = one_of s (create_of y i False)"

definition replacing :: "yaml \<Rightarrow> signature \<Rightarrow> replace_item \<Rightarrow> exn + operation list \<times> signed" where
  "replacing y s i = one_of s (replace_of y i)"

definition adding :: "yaml \<Rightarrow> signature \<Rightarrow> add_item \<Rightarrow> exn + operation list \<times> signed" where
  "adding y s i = one_of s (add_of y i)"

definition removing :: "signature \<Rightarrow> remove_item \<Rightarrow> exn + operation list \<times> signed" where
  "removing s i = one_of s (remove_of i)"

definition creating_many :: "yaml \<Rightarrow> signature \<Rightarrow> create_item list \<Rightarrow> exn + operation list \<times> signed" where
  "creating_many y s is = many_of s (map2 (create_of y) is (carried_again (map ci_id is)))"

definition replacing_many :: "yaml \<Rightarrow> signature \<Rightarrow> replace_item list \<Rightarrow> exn + operation list \<times> signed" where
  "replacing_many y s is = many_of s (map (replace_of y) is)"

definition adding_many :: "yaml \<Rightarrow> signature \<Rightarrow> add_item list \<Rightarrow> exn + operation list \<times> signed" where
  "adding_many y s is = many_of s (map (add_of y) is)"

definition removing_many :: "signature \<Rightarrow> remove_item list \<Rightarrow> exn + operation list \<times> signed" where
  "removing_many s is = many_of s (map remove_of is)"

section \<open>Other requests\<close>

record reading_asked =
  ra_locator :: locator
  ra_level :: string
  ra_depth :: nat
  ra_section :: string
  ra_version :: "version option"

definition reading_of :: "locator_request \<Rightarrow> string option \<Rightarrow> nat \<Rightarrow> string \<Rightarrow> exn + reading_asked" where
  "reading_of request level depth title = rbind (values_read request) (\<lambda>(l, v).
     Inr \<lparr>ra_locator = l, ra_level = (case level of None \<Rightarrow> ''summary'' | Some t \<Rightarrow> t), ra_depth = depth, ra_section = title,
          ra_version = v\<rparr>)"

datatype scope = EITHER | SECTIONS_ONLY | FIELDS_ONLY

record searching_asked =
  sa_kind :: "kind option"
  sa_text :: string
  sa_sections :: bool
  sa_fields :: bool

definition searching_of :: "string \<Rightarrow> string \<Rightarrow> scope \<Rightarrow> exn + searching_asked" where
  "searching_of k t sc = rbind (if k \<noteq> [] then rbind (values_kind k) (\<lambda>k. Inr (Some k)) else Inr None) (\<lambda>k.
     Inr \<lparr>sa_kind = k, sa_text = t, sa_sections = sc \<noteq> FIELDS_ONLY, sa_fields = sc \<noteq> SECTIONS_ONLY\<rparr>)"

text \<open>\<open>_converted\<close>: what it gives, and the faults it adds to those found; an exception not a refusal is raised.\<close>

definition converted :: "(string \<Rightarrow> exn + 'a) \<Rightarrow> string \<Rightarrow> bool \<Rightarrow> exn + 'a option \<times> fault list" where
  "converted f t always =
     (if t = [] \<and> \<not> always then Inr (None, [])
      else case f t of
        Inr x \<Rightarrow> Inr (Some x, [])
      | Inl (Refused faults) \<Rightarrow> Inr (None, faults)
      | Inl e \<Rightarrow> Inl e)"

record walk_asked =
  wa_locator :: locator
  wa_kind :: "kind option"
  wa_depth :: nat
  wa_via :: string
  wa_inward :: bool
  wa_path :: "below_path option"

definition following_of :: "locator_request \<Rightarrow> string \<Rightarrow> nat \<Rightarrow> string \<Rightarrow> bool \<Rightarrow> string \<Rightarrow> exn + walk_asked" where
  "following_of request k depth via inward path =
     rbind (converted (\<lambda>_. values_locator request) [] True) (\<lambda>(l, faults).
     rbind (converted values_kind k False) (\<lambda>(k, more_faults).
     rbind (converted values_below path False) (\<lambda>(path, rest).
     case (l, faults @ more_faults @ rest) of
       (Some l, []) \<Rightarrow> Inr \<lparr>wa_locator = l, wa_kind = k, wa_depth = depth, wa_via = via, wa_inward = inward, wa_path = path\<rparr>
     | (_, faults) \<Rightarrow> Inl (Refused faults))))"

record listing_asked =
  la_kind :: "kind option"
  la_fields :: "(string \<times> string) list"
  la_ids :: bool
  la_path :: "below_path option"

definition listing_of :: "string \<Rightarrow> string \<Rightarrow> (string \<times> string) list \<Rightarrow> bool \<Rightarrow> exn + listing_asked" where
  "listing_of k path in_fields ids =
     rbind (converted values_kind k (path = [])) (\<lambda>(k, faults).
     rbind (converted values_below path False) (\<lambda>(path, rest).
     if faults @ rest \<noteq> [] then Inl (Refused (faults @ rest))
     else Inr \<lparr>la_kind = k, la_fields = in_fields, la_ids = ids, la_path = path\<rparr>))"

definition exporting_of :: "string \<Rightarrow> string \<Rightarrow> exn + kind option \<times> below_path option" where
  "exporting_of k path =
     rbind (converted values_kind k False) (\<lambda>(k, faults).
     rbind (converted values_below path False) (\<lambda>(path, rest).
     if faults @ rest \<noteq> [] then Inl (Refused (faults @ rest)) else Inr (k, path)))"

definition snapshot_of :: "signature \<Rightarrow> string list \<Rightarrow> exn + (fault list + artifact_id) list \<times> signed" where
  "snapshot_of s names = rbind (signature_reader s) (\<lambda>who.
     rbind (rall (map (\<lambda>t. case values_artifact_id t of
         Inr a \<Rightarrow> Inr (Inr a) | Inl (Refused faults) \<Rightarrow> Inr (Inl faults) | Inl e \<Rightarrow> Inl e) names)) (\<lambda>found. Inr (found, who)))"

section \<open>A set of creates\<close>

lemma each_of_nth:
  assumes "each_of conversions = Inr ops"
  shows "length ops = length conversions"
    "i < length conversions \<Longrightarrow> (case conversions ! i of Inr op \<Rightarrow> ops ! i = op | Inl (Refused faults) \<Rightarrow> ops ! i = Refusal_op faults | _ \<Rightarrow> False)"
proof -
  have m: "map (\<lambda>r. case r of Inl (Refused faults) \<Rightarrow> Inr (Refusal_op faults) | _ \<Rightarrow> r) conversions = map Inr ops"
    using assms by (simp add: each_of_def rall_Inr_iff)
  show len: "length ops = length conversions" using arg_cong [OF m, of length] unfolding length_map by (rule sym)
  assume i: "i < length conversions"
  with arg_cong [OF m, of "\<lambda>xs. xs ! i"] len
  show "case conversions ! i of Inr op \<Rightarrow> ops ! i = op | Inl (Refused faults) \<Rightarrow> ops ! i = Refusal_op faults | _ \<Rightarrow> False"
    by (auto split: sum.splits exn.splits)
qed

lemma check_escapes: "canonical_check y t = Inl (Escaped e) \<Longrightarrow> e = TypeError"
proof -
  have once: "named_once x place = Inl (Escaped e) \<Longrightarrow> e = TypeError"
    "entries_once es seen place = Inl (Escaped e) \<Longrightarrow> e = TypeError"
    "nodes_once i xs place = Inl (Escaped e) \<Longrightarrow> e = TypeError" for x place es seen i xs
    by (induction x place and es seen place and i xs place rule: named_once_entries_once_nodes_once.induct)
      (auto simp: rbind_Inl_iff split: if_splits)
  have "no_directive ts \<noteq> Inl (Escaped e)" for ts by (induction ts rule: no_directive.induct) auto
  then show "canonical_check y t = Inl (Escaped e) \<Longrightarrow> e = TypeError"
    using once(1) by (auto simp: canonical_check_def rbind_Inl_iff split: sum.splits option.splits if_splits)
qed

lemma content_not_refused: "content_given y t \<noteq> Inl (Refused faults)"
proof
  assume "content_given y t = Inl (Refused faults)"
  then have "canonical_entries y t = Inl (Escaped (Refused faults))"
    by (auto simp: content_given_def problem_of_def split: sum.splits unplain.splits)
  then have "canonical_load y t = Inl (Escaped (Refused faults)) \<or>
      (\<exists>v. (case v of VMap m \<Rightarrow> Inr m
         | _ \<Rightarrow> Inl (NotCanonical (''content is a set of named entries; this is '' @ shape_said v) [])) = Inl (Escaped (Refused faults)))"
    unfolding canonical_entries_def rbind_Inl_iff by blast
  then have "canonical_load y t = Inl (Escaped (Refused faults))"
  proof
    assume "\<exists>v. (case v of VMap m \<Rightarrow> Inr m
         | _ \<Rightarrow> Inl (NotCanonical (''content is a set of named entries; this is '' @ shape_said v) [])) = Inl (Escaped (Refused faults))"
    then obtain v where "(case v of VMap m \<Rightarrow> Inr m
         | _ \<Rightarrow> Inl (NotCanonical (''content is a set of named entries; this is '' @ shape_said v) [])) = Inl (Escaped (Refused faults))" by blast
    then show ?thesis by (cases v) simp_all
  qed
  then have "canonical_check y t = Inl (Escaped (Refused faults))"
    by (auto simp: canonical_load_def rbind_Inl_iff split: sum.splits)
  then show False using check_escapes by blast
qed

lemma carried_again_nth: "k < length iris \<Longrightarrow> carried_again iris ! k \<longleftrightarrow> (\<exists>j < k. iris ! j = iris ! k)"
  unfolding carried_again_def
proof -
  assume k: "k < length iris"
  then have "map (\<lambda>i. iris ! i \<in> set (take i iris)) [0..<length iris] ! k \<longleftrightarrow> iris ! k \<in> (!) iris ` {0..<k}"
    by (simp flip: nth_image add: less_imp_le)
  then show "map (\<lambda>i. iris ! i \<in> set (take i iris)) [0..<length iris] ! k \<longleftrightarrow> (\<exists>j < k. iris ! j = iris ! k)"
    by (metis (no_types, lifting) atLeastLessThan_iff image_iff le0)
qed

lemma create_of_cases:
  "\<not> iri (ci_id i) \<Longrightarrow> \<exists>faults. create_of y i again = Inl (Refused faults) \<and> faults \<noteq> []"
  "iri (ci_id i) \<Longrightarrow> names_version (ci_type i) = None \<Longrightarrow> create_of y i again =
     Inl (Refused ((if again then [carried_twice (ArtifactId (ci_id i))] else []) @ caught (values_version (ci_type i))))"
  "iri (ci_id i) \<Longrightarrow> names_version (ci_type i) = Some v \<Longrightarrow> create_of y i again = Inr op \<Longrightarrow>
     \<exists>cr. op = Create cr \<and> cr_name cr = ArtifactId (ci_id i) \<and> cr_carried cr = (if again then [carried_twice (ArtifactId (ci_id i))] else [])"
  "iri (ci_id i) \<Longrightarrow> names_version (ci_type i) = Some v \<Longrightarrow> create_of y i again \<noteq> Inl (Refused faults)"
  by (cases v, auto simp: create_of_def Let_def caught_def values_artifact_id_def values_version_def results content_not_refused)+

text \<open>
  a set of creates is signed, and each create stands in its place: one whose IRI and type version convert as a create
  of it, any other as its refusal; and exactly the creates whose IRI one before them in the set carries, whether or not
  either converts, hold the fault that says so, first of their faults.
\<close>

theorem creates_stand_in_place:
  assumes "creating_many y s is = Inr (ops, who)"
  shows "unsigned s = [] \<and> length ops = length is \<and> (\<forall>k < length is.
    let i = is ! k; carried = (if \<exists>j < k. ci_id (is ! j) = ci_id i then [carried_twice (ArtifactId (ci_id i))] else [])
    in if \<not> iri (ci_id i) then \<exists>faults. ops ! k = Refusal_op faults \<and> faults \<noteq> []
       else if names_version (ci_type i) = None then ops ! k = Refusal_op (carried @ caught (values_version (ci_type i)))
       else \<exists>cr. ops ! k = Create cr \<and> cr_name cr = ArtifactId (ci_id i) \<and> cr_carried cr = carried)"
proof -
  let ?conversions = "map2 (create_of y) is (carried_again (map ci_id is))"
  from assms have r: "unsigned s = []" "each_of ?conversions = Inr ops"
    by (auto simp: creating_many_def many_of_def signature_signed_def rbind_Inr_iff split: if_splits)
  have len: "length ?conversions = length is" by (simp add: carried_again_def)
  have "let i = is ! k; carried = (if \<exists>j < k. ci_id (is ! j) = ci_id i then [carried_twice (ArtifactId (ci_id i))] else [])
    in if \<not> iri (ci_id i) then \<exists>faults. ops ! k = Refusal_op faults \<and> faults \<noteq> []
       else if names_version (ci_type i) = None then ops ! k = Refusal_op (carried @ caught (values_version (ci_type i)))
       else \<exists>cr. ops ! k = Create cr \<and> cr_name cr = ArtifactId (ci_id i) \<and> cr_carried cr = carried" if k: "k < length is" for k
  proof -
    have again: "carried_again (map ci_id is) ! k \<longleftrightarrow> (\<exists>j < k. ci_id (is ! j) = ci_id (is ! k))"
      using carried_again_nth [of k "map ci_id is"] k by (metis (no_types, lifting) length_map nth_map order.strict_trans)
    have "?conversions ! k = create_of y (is ! k) (carried_again (map ci_id is) ! k)"
      using k by (simp add: carried_again_def)
    with each_of_nth(2) [OF r(2), of k] k len
    have c: "case create_of y (is ! k) (\<exists>j < k. ci_id (is ! j) = ci_id (is ! k)) of Inr op \<Rightarrow> ops ! k = op
        | Inl (Refused faults) \<Rightarrow> ops ! k = Refusal_op faults | _ \<Rightarrow> False"
      by (simp add: again)
    let ?i = "is ! k" and ?again = "\<exists>j < k. ci_id (is ! j) = ci_id (is ! k)"
    consider "\<not> iri (ci_id ?i)" | "iri (ci_id ?i)" "names_version (ci_type ?i) = None"
      | v where "iri (ci_id ?i)" "names_version (ci_type ?i) = Some v" by (cases "names_version (ci_type ?i)") auto
    then show ?thesis
    proof cases
      case 1
      with create_of_cases(1) [OF 1, of y ?again] c show ?thesis by (auto simp: Let_def)
    next
      case 2
      with create_of_cases(2) [OF 2, of y ?again] c show ?thesis by (simp add: Let_def)
    next
      case 3
      have "create_of y ?i ?again = Inr (ops ! k)"
        using c create_of_cases(4) [OF 3, of y ?again] by (auto split: sum.splits exn.splits)
      from create_of_cases(3) [OF 3 this] 3 show ?thesis by (simp add: Let_def)
    qed
  qed
  then show ?thesis using r(1) each_of_nth(1) [OF r(2)] len by auto
qed

definition twice_items :: "create_item list" where
  "twice_items = [\<lparr>ci_id = ''https://a.io/t/x'', ci_type = ''no'', ci_title = ''X'', ci_content = []\<rparr>,
     \<lparr>ci_id = ''https://a.io/t/x'', ci_type = ''https://a.io/t@1'', ci_title = ''X'', ci_content = []\<rparr>]"

lemma creates_stand_in_place_witness:
  "\<exists>ops who cr. creating_many plain_yaml \<lparr>sg_role = ''r'', sg_execution = [], sg_message = ''m''\<rparr> twice_items = Inr (ops, who) \<and>
     ops ! 1 = Create cr \<and> cr_carried cr = [carried_twice (ArtifactId ''https://a.io/t/x'')]"
proof -
  let ?r = "creating_many plain_yaml \<lparr>sg_role = ''r'', sg_execution = [], sg_message = ''m''\<rparr> twice_items"
  have "\<not> isl ?r" by code_simp
  then obtain ops who where r: "?r = Inr (ops, who)" by (cases ?r) auto
  have "iri ''https://a.io/t/x''" "names_version ''https://a.io/t@1'' \<noteq> None" by code_simp+
  with creates_stand_in_place [OF r] have "\<exists>cr. ops ! 1 = Create cr \<and> cr_carried cr = [carried_twice (ArtifactId ''https://a.io/t/x'')]"
    by (auto simp: twice_items_def Let_def dest!: spec [of _ 1])
  with r show ?thesis by blast
qed

section \<open>An item added\<close>

text \<open>
  C39: an item a request adds without a problem carries no name of its own and, where it has a title at all, has it as
  text that leaves a name to be made from it, its other entries as they were read.
\<close>

theorem added_items_named_by_kb:
  assumes "item_given y t = Inr ct" "ct_problems ct = []" "ct_tree ct = VMap m"
  shows "dget m ''id'' = None \<and>
    (\<forall>title. item_title (dget m ''title'') = Some title \<longrightarrow> dget m ''title'' = Some (VStr title) \<and> slug title \<noteq> []) \<and>
    (\<exists>read. content_loads y t = Inr (VMap read) \<and> (\<forall>k. k \<noteq> KText ''title'' \<longrightarrow> map_of m k = map_of read k))"
proof -
  let ?item = "\<lambda>read. if ct_problems read \<noteq> [] then Inr read
     else case ct_tree read of
       VMap tree \<Rightarrow> Inr (case dget tree ''id'' of
           Some v \<Rightarrow> \<lparr>ct_tree = VMap tree, ct_problems = [(''id'', IDENTITY_RULE, id_settled v)]\<rparr>
         | None \<Rightarrow> item_titled tree)
     | _ \<Rightarrow> Inr read"
  have "rbind (node_given y t) ?item = Inr ct" using assms(1) by (simp only: item_given_def)
  from iffD1 [OF rbind_Inr_iff this] obtain read where r: "node_given y t = Inr read" "?item read = (Inr ct :: exn + content_read)"
    by (elim exE conjE, intro that)
  then obtain tree where tree: "ct_tree read = VMap tree" "dget tree ''id'' = None" "item_titled tree = ct" "ct_problems read = []"
  proof (cases "ct_problems read = [] \<and> (\<exists>tree. ct_tree read = VMap tree)")
    case True
    then obtain tree where "ct_problems read = []" "ct_tree read = VMap tree" by blast
    with r(2) assms(2) that show ?thesis by (cases "dget tree ''id''") auto
  next
    case False
    with r(2) have "read = ct" by (cases "ct_tree read") (auto split: if_splits)
    with False assms(2,3) show ?thesis by blast
  qed
  have loads: "content_loads y t = Inr (VMap tree)"
    using r(1) tree by (auto simp: node_given_def problem_of_def split: sum.splits unplain.splits)
  show ?thesis
  proof (cases "item_title (dget tree ''title'')")
    case None
    then have "m = tree" using tree(3) assms(3) by (auto simp: item_titled_def)
    with None tree(2) loads show ?thesis by auto
  next
    case (Some title)
    then have "slug title \<noteq> []" "m = dput ''title'' (VStr title) tree"
      using tree(3) assms(2,3) by (auto simp: item_titled_def split: if_splits)
    with tree(2) loads show ?thesis by (auto simp: update_conv' item_title_def)
  qed
qed

definition titled_yaml :: yaml where
  "titled_yaml = plain_yaml\<lparr>y_load := (\<lambda>t. Inr (VMap [(KText ''title'', VInt 12)]))\<rparr>"

lemma added_items_named_by_kb_witness:
  "\<exists>ct m. item_given titled_yaml ''title: 12'' = Inr ct \<and> ct_tree ct = VMap m \<and> dget m ''title'' = Some (VStr ''12'')"
proof -
  have g: "item_given titled_yaml ''title: 12'' = Inr \<lparr>ct_tree = VMap [(KText ''title'', VStr ''12'')], ct_problems = []\<rparr>" by code_simp
  from added_items_named_by_kb [OF g, of "[(KText ''title'', VStr ''12'')]"] g show ?thesis by (auto simp: item_title_def)
qed

end
