(* ===== verification/KB_Journal.thy ===== *)
theory KB_Journal
  imports KB_Requests
begin

text \<open>
  \<open>journal.py\<close>: the stamps of a set's entries, each moment read from the clock and given an id free in the history and
  in the set, and the entries themselves. A moment is in UTC, the microseconds since the epoch the store keeps it as,
  within the years Python's \<open>datetime\<close> holds; a clock is what each reading of it gives; the fingerprint of a text
  is a function given.
\<close>

section \<open>A moment as text\<close>

text \<open>The year, the month and the day of a day counted from the epoch, in the proleptic Gregorian calendar.\<close>

definition civil :: "int \<Rightarrow> int \<times> int \<times> int" where
  "civil days =
     (let z = days + 719468; era = z div 146097; doe = z mod 146097;
          yoe = (doe - doe div 1460 + doe div 36524 - doe div 146096) div 365;
          doy = doe - (365 * yoe + yoe div 4 - yoe div 100);
          mp = (5 * doy + 2) div 153;
          month = (if mp < 10 then mp + 3 else mp - 9)
      in (yoe + era * 400 + (if month \<le> 2 then 1 else 0), month, doy - (153 * mp + 2) div 5 + 1))"

definition padded :: "nat \<Rightarrow> int \<Rightarrow> string" where
  "padded width n = (let t = int_str n in replicate (width - length t) (CHR ''0'') @ t)"

text \<open>\<open>strftime("%Y%m%dT%H%M%S%fZ")\<close> and \<open>isoformat()\<close>, of a moment in UTC.\<close>

definition moment_text :: "int \<Rightarrow> string" where
  "moment_text at =
     (let (year, month, day) = civil (at div 86400000000); rest = at mod 86400000000
      in padded 4 year @ padded 2 month @ padded 2 day @ ''T'' @ padded 2 (rest div 3600000000)
         @ padded 2 (rest div 60000000 mod 60) @ padded 2 (rest div 1000000 mod 60) @ padded 6 (rest mod 1000000) @ ''Z'')"

definition iso_text :: "int \<Rightarrow> string" where
  "iso_text at =
     (let (year, month, day) = civil (at div 86400000000); rest = at mod 86400000000
      in padded 4 year @ ''-'' @ padded 2 month @ ''-'' @ padded 2 day @ ''T'' @ padded 2 (rest div 3600000000) @ '':''
         @ padded 2 (rest div 60000000 mod 60) @ '':'' @ padded 2 (rest div 1000000 mod 60)
         @ (if rest mod 1000000 = 0 then [] else ''.'' @ padded 6 (rest mod 1000000)) @ ''+00:00'')"

section \<open>Stamps\<close>

record stamp =
  st_at :: int
  st_id :: string

definition entry_id :: "int \<Rightarrow> nat \<Rightarrow> string" where
  "entry_id at seq = moment_text at @ ''-'' @ nat_str seq"

text \<open>\<open>_parts\<close>: the greedy match ends at the last hyphen, what is after it being digits.\<close>

definition id_parts :: "string \<Rightarrow> (string \<times> nat) option" where
  "id_parts name = (case rpartition_on (CHR ''-'') name of (moment, sep, seq) \<Rightarrow>
     if sep \<noteq> [] \<and> moment \<noteq> [] \<and> CHR 10 \<notin> set moment \<and> seq \<noteq> [] \<and> list_all is_digit seq then Some (moment, str_nat seq) else None)"

definition last_seq :: "(int \<Rightarrow> string list) \<Rightarrow> int \<Rightarrow> nat" where
  "last_seq held at = foldr max (concat (map (\<lambda>name. case id_parts name of
     None \<Rightarrow> [] | Some (moment, seq) \<Rightarrow> if moment = moment_text at then [seq] else []) (held at))) 0"

fun minted_from :: "(int \<Rightarrow> string list) \<Rightarrow> (string \<rightharpoonup> nat) \<Rightarrow> int list \<Rightarrow> stamp list" where
  "minted_from held before [] = []"
| "minted_from held before (at # rest) =
     (let moment = moment_text at;
          seq = (case before moment of None \<Rightarrow> last_seq held at | Some n \<Rightarrow> n) + 1
      in \<lparr>st_at = at, st_id = entry_id at seq\<rparr> # minted_from held (before(moment \<mapsto> seq)) rest)"

definition minted :: "(int \<Rightarrow> string list) \<Rightarrow> int list \<Rightarrow> stamp list" where
  "minted held moments = minted_from held Map.empty moments"

type_synonym clock = "nat \<Rightarrow> exn + int"

definition clock_moments :: "nat \<Rightarrow> clock \<Rightarrow> exn + int list" where
  "clock_moments number clock = rall (map clock [0..<number])"

definition clock_stamps :: "(int \<Rightarrow> string list) \<Rightarrow> nat \<Rightarrow> clock \<Rightarrow> exn + stamp list" where
  "clock_stamps held number clock = rbind (clock_moments number clock) (\<lambda>moments. Inr (minted held moments))"

definition first_stamp :: "clock \<Rightarrow> exn + stamp" where
  "first_stamp clock = rbind (clock 0) (\<lambda>at. Inr \<lparr>st_at = at, st_id = entry_id at 1\<rparr>)"

section \<open>Entries\<close>

definition made_entry :: "obj \<Rightarrow> stamp \<Rightarrow> signed \<Rightarrow> string \<Rightarrow> string \<Rightarrow> entry" where
  "made_entry rec st who artifact batch =
     \<lparr>e_id = st_id st, e_at = st_at st, e_seq = (case id_parts (st_id st) of None \<Rightarrow> 0 | Some (_, seq) \<Rightarrow> int seq), e_record = rec,
      e_artifact = artifact, e_role = sd_role who, e_execution = sd_execution who, e_batch = batch\<rparr>"

definition journal_change :: "(string \<Rightarrow> string) \<Rightarrow> signed \<Rightarrow> edit \<Rightarrow> string option \<Rightarrow> stamp \<Rightarrow> string \<Rightarrow> entry" where
  "journal_change fingerprint who e t st batch =
     (let batch = (if batch \<noteq> [] then batch else st_id st);
          rec = [(KText ''id'', VStr (st_id st)), (KText ''at'', VStr (iso_text (st_at st))),
            (KText ''actor'', VMap [(KText ''role'', VStr (sd_role who)), (KText ''execution'', VStr (sd_execution who))]),
            (KText ''op'', VStr (ed_op e)), (KText ''artifact'', VStr (iri_of (ed_artifact e))), (KText ''path'', VStr (ed_path e)),
            (KText ''revision'', VInt (ed_revision e)), (KText ''type'', VStr (ed_type e)),
            (KText ''digest'', VStr (case t of None \<Rightarrow> [] | Some t \<Rightarrow> fingerprint t)), (KText ''message'', VStr (sd_message who)),
            (KText ''batch'', VStr batch)]
      in made_entry rec st who (iri_of (ed_artifact e)) batch)"

definition journal_snapshot :: "signed \<Rightarrow> obj list \<Rightarrow> stamp \<Rightarrow> entry" where
  "journal_snapshot who read st =
     made_entry [(KText ''id'', VStr (st_id st)), (KText ''at'', VStr (iso_text (st_at st))),
       (KText ''actor'', VMap [(KText ''role'', VStr (sd_role who)), (KText ''execution'', VStr (sd_execution who))]),
       (KText ''op'', VStr ''snapshot''), (KText ''read'', VList (map VMap read)), (KText ''message'', VStr (sd_message who)),
       (KText ''batch'', VStr (st_id st))] st who [] (st_id st)"

section \<open>Ids are free\<close>

lemma int_str_chars: "c \<in> set (int_str n) \<Longrightarrow> is_digit c \<or> c = CHR ''-''"
  by (auto simp: int_str_def nat_str_digits split: if_splits)

lemma padded_chars: "c \<in> set (padded w n) \<Longrightarrow> c \<noteq> CHR 10"
proof -
  assume "c \<in> set (padded w n)"
  then have "c = CHR ''0'' \<or> c \<in> set (int_str n)" by (auto simp: padded_def Let_def split: if_splits)
  with int_str_chars [of c n] show ?thesis by (auto simp: is_digit_def)
qed

lemma moment_text_plain: "moment_text at \<noteq> []" "CHR 10 \<notin> set (moment_text at)"
  by (auto simp: moment_text_def Let_def split: prod.splits dest: padded_chars)

lemma id_parts_entry: "id_parts (entry_id at seq) = Some (moment_text at, seq)"
proof -
  have "CHR ''-'' \<notin> set (nat_str seq)" using nat_str_digits [of "CHR ''-''" seq] by (auto simp: is_digit_def)
  then have "rpartition_on (CHR ''-'') (entry_id at seq) = (moment_text at, ''-'', nat_str seq)"
    using rpartition_on_append [of "CHR ''-''" "nat_str seq" "moment_text at"] by (simp add: entry_id_def)
  then show ?thesis using moment_text_plain by (simp add: id_parts_def list_all_iff nat_str_digits)
qed

lemma entry_id_eq: "entry_id a m = entry_id b n \<longleftrightarrow> moment_text a = moment_text b \<and> m = n"
  by (metis entry_id_def id_parts_entry option.inject prod.inject)

lemma foldr_max: "x \<in> set xs \<Longrightarrow> (x :: nat) \<le> foldr max xs 0"
  by (induction xs) (auto simp: max.coboundedI2)

lemma last_seq_above: "entry_id at seq \<in> set (held at) \<Longrightarrow> seq \<le> last_seq held at"
  unfolding last_seq_def by (rule foldr_max) (auto simp: id_parts_entry intro!: bexI [of _ "entry_id at seq"])

lemma minted_from_above:
  assumes "\<And>a b. moment_text a = moment_text b \<Longrightarrow> held a = held b"
  shows "(\<And>at n. before (moment_text at) = Some n \<Longrightarrow> last_seq held at \<le> n) \<Longrightarrow> s \<in> set (minted_from held before moments) \<Longrightarrow>
    \<exists>seq. st_id s = entry_id (st_at s) seq \<and> last_seq held (st_at s) < seq \<and>
      (\<forall>n. before (moment_text (st_at s)) = Some n \<longrightarrow> n < seq)"
proof (induction moments arbitrary: before)
  case (Cons at rest)
  let ?seq = "(case before (moment_text at) of None \<Rightarrow> last_seq held at | Some n \<Rightarrow> n) + 1"
  have same: "last_seq held a = last_seq held at" if "moment_text a = moment_text at" for a
    unfolding last_seq_def assms [OF that] that by (rule refl)
  have above: "last_seq held at < ?seq" using Cons.prems(1) [of at] by (auto split: option.splits)
  from Cons.prems(2) consider "s = \<lparr>st_at = at, st_id = entry_id at ?seq\<rparr>"
    | "s \<in> set (minted_from held (before(moment_text at \<mapsto> ?seq)) rest)" by (auto simp: Let_def)
  then show ?case
  proof cases
    case 1
    then show ?thesis using above by (auto split: option.splits)
  next
    case 2
    have "last_seq held a \<le> n" if "(before(moment_text at \<mapsto> ?seq)) (moment_text a) = Some n" for a n
      using that Cons.prems(1) [of a] same [of a] above by (auto split: if_splits)
    from Cons.IH [OF this 2] obtain seq where seq: "st_id s = entry_id (st_at s) seq" "last_seq held (st_at s) < seq"
      "\<And>n. (before(moment_text at \<mapsto> ?seq)) (moment_text (st_at s)) = Some n \<Longrightarrow> n < seq" by blast
    have "n < seq" if "before (moment_text (st_at s)) = Some n" for n
      using that seq(3) by (cases "moment_text (st_at s) = moment_text at") fastforce+
    with seq show ?thesis by blast
  qed
qed simp

lemma minted_from_distinct:
  assumes "\<And>a b. moment_text a = moment_text b \<Longrightarrow> held a = held b"
  shows "(\<And>at n. before (moment_text at) = Some n \<Longrightarrow> last_seq held at \<le> n) \<Longrightarrow> distinct (map st_id (minted_from held before moments))"
proof (induction moments arbitrary: before)
  case (Cons at rest)
  let ?seq = "(case before (moment_text at) of None \<Rightarrow> last_seq held at | Some n \<Rightarrow> n) + 1"
  let ?before = "before(moment_text at \<mapsto> ?seq)"
  have same: "last_seq held a = last_seq held at" if "moment_text a = moment_text at" for a
    unfolding last_seq_def assms [OF that] that by (rule refl)
  have above: "last_seq held at < ?seq" using Cons.prems [of at] by (auto split: option.splits)
  have inv: "last_seq held a \<le> n" if "?before (moment_text a) = Some n" for a n
    using that Cons.prems [of a] same [of a] above by (auto split: if_splits)
  have other: "entry_id at ?seq \<noteq> st_id s" if s: "s \<in> set (minted_from held ?before rest)" for s
  proof -
    from minted_from_above [OF assms inv s] obtain seq where "st_id s = entry_id (st_at s) seq"
      "\<And>n. ?before (moment_text (st_at s)) = Some n \<Longrightarrow> n < seq" by blast
    then show ?thesis using entry_id_eq [of "st_at s" seq at ?seq] by (metis fun_upd_same less_irrefl)
  qed
  have "entry_id at ?seq \<notin> st_id ` set (minted_from held ?before rest)"
    by (rule notI, erule imageE, drule other, erule notE)
  moreover have "distinct (map st_id (minted_from held ?before rest))" by (rule Cons.IH [OF inv])
  ultimately show ?case by (simp add: Let_def)
qed simp

lemma minted_from_at [simp]: "map st_at (minted_from held before moments) = moments"
  by (induction moments arbitrary: before) (auto simp: Let_def)



end
