(* ===== verification/KB_Server.thy ===== *)
theory KB_Server
  imports KB_Prelude
begin

text \<open>
  \<open>server.py\<close>: how a server takes the changes asked of it. \<open>InOrder\<close> is the ticket lock, \<open>_OneAtATime\<close> takes it around
  every call that writes. The calls are threads, so what they do is a step relation: a step is what one call does while
  it holds the lock's condition. A call reads the store as it goes in and leaves it as \<open>does\<close> makes it of what was
  read; one refused leaves it as it was. gRPC's own pool, the signals and the sockets are not here.
\<close>

section \<open>The lock and the calls on it\<close>

datatype 'db stage = Away | Waiting nat | Within 'db

record ('c, 'db) server =
  drawn :: nat
  serving :: nat
  stage_of :: "'c \<Rightarrow> 'db stage"
  hosted :: 'db
  came :: "'c list"
  done_with :: "'c list"

definition started_server :: "'db \<Rightarrow> ('c, 'db) server" where
  "started_server db = \<lparr>drawn = 0, serving = 0, stage_of = (\<lambda>_. Away), hosted = db, came = [], done_with = []\<rparr>"

text \<open>\<open>__enter__\<close> draws a ticket, then waits for it to be the one served; \<open>__exit__\<close> serves the next.\<close>

definition draws :: "'c \<Rightarrow> ('c, 'db) server \<Rightarrow> ('c, 'db) server" where
  "draws c s = s \<lparr>drawn := drawn s + 1, stage_of := (stage_of s)(c := Waiting (drawn s)), came := came s @ [c]\<rparr>"

definition goes_in :: "'c \<Rightarrow> ('c, 'db) server \<Rightarrow> ('c, 'db) server" where
  "goes_in c s = s \<lparr>stage_of := (stage_of s)(c := Within (hosted s))\<rparr>"

definition leaves :: "('c \<Rightarrow> 'db \<Rightarrow> 'db) \<Rightarrow> 'c \<Rightarrow> 'db \<Rightarrow> ('c, 'db) server \<Rightarrow> ('c, 'db) server" where
  "leaves does c read s = s \<lparr>serving := serving s + 1, stage_of := (stage_of s)(c := Away), hosted := does c read,
     done_with := done_with s @ [c]\<rparr>"

definition arrived :: "nat \<Rightarrow> ('c, 'db) server \<Rightarrow> bool" where
  "arrived count s \<longleftrightarrow> count \<le> drawn s"

inductive takes :: "('c \<Rightarrow> bool) \<Rightarrow> ('c \<Rightarrow> 'db \<Rightarrow> 'db) \<Rightarrow> ('c, 'db) server \<Rightarrow> ('c, 'db) server \<Rightarrow> bool"
  for writes does where
  comes: "writes c \<Longrightarrow> stage_of s c = Away \<Longrightarrow> takes writes does s (draws c s)"
| goes: "stage_of s c = Waiting ticket \<Longrightarrow> serving s = ticket \<Longrightarrow> takes writes does s (goes_in c s)"
| lets_go: "stage_of s c = Within read \<Longrightarrow> takes writes does s (leaves does c read s)"

section \<open>The calls that came are the calls served, in order\<close>

definition in_turn :: "('c \<Rightarrow> 'db \<Rightarrow> 'db) \<Rightarrow> 'db \<Rightarrow> ('c, 'db) server \<Rightarrow> bool" where
  "in_turn does db s \<longleftrightarrow> drawn s = length (came s) \<and> serving s \<le> drawn s \<and> done_with s = take (serving s) (came s) \<and>
     hosted s = fold does (done_with s) db \<and>
     (\<forall>c t. stage_of s c = Waiting t \<longrightarrow> serving s \<le> t \<and> t < drawn s \<and> came s ! t = c) \<and>
     (\<forall>c read. stage_of s c = Within read \<longrightarrow> serving s < drawn s \<and> came s ! serving s = c \<and> read = hosted s) \<and>
     (\<forall>t. serving s \<le> t \<and> t < drawn s \<longrightarrow> stage_of s (came s ! t) = Waiting t \<or> t = serving s \<and> stage_of s (came s ! t) = Within (hosted s))"

lemma in_turn_started: "in_turn does db (started_server db)"
  by (simp add: in_turn_def started_server_def)

lemma in_turnD:
  assumes "in_turn does db s"
  shows "drawn s = length (came s)" "serving s \<le> drawn s" "done_with s = take (serving s) (came s)" "hosted s = fold does (done_with s) db"
    "stage_of s c = Waiting t \<Longrightarrow> serving s \<le> t \<and> t < drawn s \<and> came s ! t = c"
    "stage_of s c = Within read \<Longrightarrow> serving s < drawn s \<and> came s ! serving s = c \<and> read = hosted s"
    "serving s \<le> t \<Longrightarrow> t < drawn s \<Longrightarrow> stage_of s (came s ! t) = Waiting t \<or> t = serving s \<and> stage_of s (came s ! t) = Within (hosted s)"
  using assms unfolding in_turn_def by blast+

lemma in_turn_step:
  assumes "takes writes does s s'" and turn: "in_turn does db s"
  shows "in_turn does db s'"
  using assms(1)
proof (cases rule: takes.cases)
  case (comes c)
  note d = in_turnD [OF turn]
  have "came s ! t \<noteq> c" if "serving s \<le> t" "t < drawn s" for t
    using d(7) [OF that] comes(3) by auto
  then have "stage_of s' (came s' ! t) = Waiting t \<or> t = serving s' \<and> stage_of s' (came s' ! t) = Within (hosted s')"
    if "serving s' \<le> t" "t < drawn s'" for t
    using d(1,7) that comes(1) by (cases "t = drawn s") (auto simp: draws_def nth_append)
  moreover have "serving s' \<le> t \<and> t < drawn s' \<and> came s' ! t = e" if "stage_of s' e = Waiting t" for e t
    using d(1,2) d(5) [of e t] that comes(1) by (cases "e = c") (auto simp: draws_def nth_append)
  moreover have "serving s' < drawn s' \<and> came s' ! serving s' = e \<and> read = hosted s'" if "stage_of s' e = Within read" for e read
    using d(1) d(6) [of e read] that comes(1) by (cases "e = c") (auto simp: draws_def nth_append)
  ultimately show ?thesis unfolding in_turn_def using d(1-4) comes(1) by (simp add: draws_def)
next
  case (goes c ticket)
  note d = in_turnD [OF turn]
  from d(5) [OF goes(2)] goes(3) have c: "serving s < drawn s" "came s ! serving s = c" by auto
  have "came s ! t \<noteq> c" if "serving s < t" "t < drawn s" for t
    using d(7) [of t] that goes(2,3) by auto
  then have "stage_of s' (came s' ! t) = Waiting t \<or> t = serving s' \<and> stage_of s' (came s' ! t) = Within (hosted s')"
    if "serving s' \<le> t" "t < drawn s'" for t
    using d(7) that goes(1) c by (cases "t = serving s") (auto simp: goes_in_def)
  moreover have "serving s' \<le> t \<and> t < drawn s' \<and> came s' ! t = e" if "stage_of s' e = Waiting t" for e t
    using d(5) [of e t] that goes(1) by (cases "e = c") (auto simp: goes_in_def)
  moreover have "serving s' < drawn s' \<and> came s' ! serving s' = e \<and> read = hosted s'" if "stage_of s' e = Within read" for e read
    using d(6) [of e read] that goes(1) c by (cases "e = c") (auto simp: goes_in_def)
  ultimately show ?thesis unfolding in_turn_def using d(1-4) goes(1) by (simp add: goes_in_def)
next
  case (lets_go c read)
  note d = in_turnD [OF turn]
  from d(6) [OF lets_go(2)] have c: "serving s < drawn s" "came s ! serving s = c" "read = hosted s" by simp_all
  have behind: "stage_of s (came s ! t) = Waiting t \<and> came s ! t \<noteq> c" if "serving s < t" "t < drawn s" for t
    using d(7) [of t] that lets_go(2) by auto
  then have "stage_of s' (came s' ! t) = Waiting t \<or> t = serving s' \<and> stage_of s' (came s' ! t) = Within (hosted s')"
    if "serving s' \<le> t" "t < drawn s'" for t
    using that lets_go(1) by (simp add: leaves_def)
  moreover have "serving s' \<le> t \<and> t < drawn s' \<and> came s' ! t = e" if "stage_of s' e = Waiting t" for e t
  proof -
    from that lets_go(1) have e: "e \<noteq> c" "stage_of s e = Waiting t" by (auto simp: leaves_def split: if_splits)
    from d(5) [OF e(2)] c(2) e(1) have "serving s < t" "t < drawn s" "came s ! t = e" by (auto simp: le_less)
    then show ?thesis using lets_go(1) by (simp add: leaves_def)
  qed
  moreover have "False" if "stage_of s' e = Within read'" for e read'
    using d(6) [of e read'] that lets_go(1) c by (auto simp: leaves_def split: if_splits)
  moreover have "take (serving s + 1) (came s) = take (serving s) (came s) @ [c]"
    using c d(1) by (simp add: take_Suc_conv_app_nth)
  moreover have "drawn s' = length (came s')" "serving s' \<le> drawn s'" "done_with s' = take (serving s') (came s')"
    "hosted s' = fold does (done_with s') db"
    using calculation d(1-4) lets_go(1) c by (simp_all add: leaves_def)
  ultimately show ?thesis unfolding in_turn_def by blast
qed

lemma in_turn_always: "(takes writes does)\<^sup>*\<^sup>* (started_server db) s \<Longrightarrow> in_turn does db s"
  by (induction rule: rtranclp_induct) (auto intro: in_turn_started in_turn_step)


definition one_served :: "(nat, nat list) server" where
  "one_served = leaves (\<lambda>c db. db @ [c]) 1 [] (goes_in 1 (draws 2 (draws 1 (started_server []))))"

definition two_served :: "(nat, nat list) server" where
  "two_served = leaves (\<lambda>c db. db @ [c]) 2 [1] (goes_in 2 (draws 3 one_served))"

lemma one_served_state:
  "drawn one_served = 2" "serving one_served = 1" "hosted one_served = [1]" "came one_served = [1, 2]" "done_with one_served = [1]"
  "stage_of one_served = (\<lambda>_. Away)(2 := Waiting 1)"
  by (auto simp: one_served_def leaves_def goes_in_def draws_def started_server_def fun_eq_iff)

lemma two_served_state:
  "serving two_served = 2" "hosted two_served = [1, 2]" "came two_served = [1, 2, 3]"
  by (simp_all add: two_served_def one_served_state leaves_def goes_in_def draws_def)


end
