(* ===== verification/KB_Chains.thy ===== *)
theory KB_Chains
  imports KB_Prelude
begin

text \<open>
  \<open>_chain\<close> of \<open>skipping.py\<close>: a breadth-first search for the shortest chain of files that leads to a broken one. The dict
  of each file's leads is an association list, the dict of the chains found a map, the deque a list.
\<close>

section \<open>The search\<close>

text \<open>The files one at the front of the queue leads to, looked at in order: the chain that ends at a broken one, or the
  known found and the files put at the queue's end.\<close>

fun chain_ahead :: "string set \<Rightarrow> string list \<Rightarrow> string list \<Rightarrow> (string \<rightharpoonup> string list) \<Rightarrow> string list + (string \<rightharpoonup> string list) \<times> string list" where
  "chain_ahead broken here [] known = Inr (known, [])"
| "chain_ahead broken here (to # rest) known =
     (if known to \<noteq> None then chain_ahead broken here rest known
      else if to \<in> broken then Inl (here @ [to])
      else case chain_ahead broken here rest (known(to \<mapsto> here @ [to])) of
        Inl chain \<Rightarrow> Inl chain | Inr (found, new) \<Rightarrow> Inr (found, to # new))"

definition leads_of :: "(string \<times> string list) list \<Rightarrow> string \<Rightarrow> string list" where
  "leads_of leads at = (case map_of leads at of None \<Rightarrow> [] | Some tos \<Rightarrow> tos)"

definition led_files :: "(string \<times> string list) list \<Rightarrow> string set" where
  "led_files leads = (\<Union>(_, tos) \<in> set leads. set tos)"

lemma leads_of_led: "set (leads_of leads at) \<subseteq> led_files leads"
  unfolding leads_of_def led_files_def by (cases "map_of leads at") (auto dest!: map_of_SomeD intro!: bexI)

lemma finite_led [simp]: "finite (led_files leads)"
  by (auto simp: led_files_def)

lemma chain_ahead_found:
  assumes "chain_ahead broken here tos known = Inr (found, new)"
  shows "set new = set tos - dom known \<and> distinct new \<and> set new \<inter> broken = {} \<and>
    found = (\<lambda>v. if v \<in> set new then Some (here @ [v]) else known v)"
  using assms
proof (induction tos arbitrary: known found new)
  case (Cons to rest)
  show ?case
  proof (cases "known to = None \<and> to \<notin> broken")
    case True
    with Cons.prems obtain new' where r: "chain_ahead broken here rest (known(to \<mapsto> here @ [to])) = Inr (found, new')" "new = to # new'"
      by (auto split: sum.splits prod.splits)
    from Cons.IH [OF r(1)] r(2) True show ?thesis by (auto simp: dom_def fun_eq_iff)
  next
    case False
    with Cons.prems have "known to \<noteq> None" "chain_ahead broken here rest known = Inr (found, new)"
      by (auto split: if_splits)
    moreover from this(1) have same: "set (to # rest) - dom known = set rest - dom known" by auto
    ultimately show ?thesis unfolding same by (intro Cons.IH)
  qed
qed simp

lemma chain_ahead_ends:
  "chain_ahead broken here tos known = Inl chain \<Longrightarrow> \<exists>to \<in> set tos \<inter> broken. known to = None \<and> chain = here @ [to]"
proof (induction tos arbitrary: known)
  case (Cons to rest)
  show ?case
  proof (cases "known to = None \<and> to \<notin> broken")
    case True
    with Cons.prems have "chain_ahead broken here rest (known(to \<mapsto> here @ [to])) = Inl chain"
      by (auto split: sum.splits prod.splits)
    with Cons.IH show ?thesis by (fastforce split: if_splits)
  next
    case False
    with Cons show ?thesis by (auto split: if_splits)
  qed
qed simp

function chain_search :: "(string \<times> string list) list \<Rightarrow> string set \<Rightarrow> (string \<rightharpoonup> string list) \<Rightarrow> string list \<Rightarrow> string list option" where
  "chain_search leads broken known [] = None"
| "chain_search leads broken known (at # waiting) = (case chain_ahead broken (the (known at)) (leads_of leads at) known of
     Inl chain \<Rightarrow> Some chain
   | Inr (found, new) \<Rightarrow> chain_search leads broken found (waiting @ new))"
  by pat_completeness auto

termination
proof (relation "measure (\<lambda>(leads, broken, known, waiting). card (led_files leads - dom known) + length waiting)", goal_cases)
  case (2 leads broken known at waiting ahead found new)
  then have ahead: "set new = set (leads_of leads at) - dom known" "distinct new"
    "found = (\<lambda>v. if v \<in> set new then Some (the (known at) @ [v]) else known v)"
    using chain_ahead_found [of broken "the (known at)" "leads_of leads at" known found new] by auto
  then have "led_files leads - dom found = (led_files leads - dom known) - set new" "set new \<subseteq> led_files leads - dom known"
    using leads_of_led [of leads at] by (auto simp: dom_def)
  then have "card (led_files leads - dom found) + length new = card (led_files leads - dom known)"
    using ahead(2) by (simp add: card_Diff_subset card_mono distinct_card [symmetric])
  then show ?case by simp
qed simp

definition chain_to :: "string \<Rightarrow> (string \<times> string list) list \<Rightarrow> string set \<Rightarrow> string list option" where
  "chain_to start leads broken = chain_search leads broken [start \<mapsto> [start]] [start]"

section \<open>The chain found is the shortest\<close>

text \<open>A chain of files, each leading to the next.\<close>

fun chained_files :: "(string \<times> string list) list \<Rightarrow> string list \<Rightarrow> bool" where
  "chained_files leads [] \<longleftrightarrow> False"
| "chained_files leads [v] \<longleftrightarrow> True"
| "chained_files leads (v # w # rest) \<longleftrightarrow> w \<in> set (leads_of leads v) \<and> chained_files leads (w # rest)"

definition chain_from :: "(string \<times> string list) list \<Rightarrow> string \<Rightarrow> string \<Rightarrow> string list \<Rightarrow> bool" where
  "chain_from leads start v c \<longleftrightarrow> chained_files leads c \<and> hd c = start \<and> last c = v"

lemma chained_append:
  "chained_files leads (c @ [w]) \<longleftrightarrow> c = [] \<or> chained_files leads c \<and> w \<in> set (leads_of leads (last c))"
  by (induction leads c rule: chained_files.induct) auto

lemma chain_from_step:
  "chain_from leads start u c \<Longrightarrow> w \<in> set (leads_of leads u) \<Longrightarrow> chain_from leads start w (c @ [w])"
  by (cases "c = []") (auto simp: chain_from_def chained_append)

lemma chain_from_start: "chain_from leads start start [start]"
  by (simp add: chain_from_def)

text \<open>A chain that leaves what has been reached does so by a file reached, at a chain no longer than it.\<close>

lemma chain_leaves:
  assumes "chained_files leads c" "hd c \<in> R" "last c \<notin> R"
  shows "\<exists>p u w. chain_from leads (hd c) u p \<and> u \<in> R \<and> w \<in> set (leads_of leads u) \<and> w \<notin> R \<and> length p < length c"
  using assms
proof (induction c rule: rev_induct)
  case (snoc w c)
  show ?case
  proof (cases "c = []")
    case False
    with snoc.prems have c: "chained_files leads c" "hd c \<in> R" "w \<in> set (leads_of leads (last c))" "w \<notin> R" "hd (c @ [w]) = hd c"
      by (auto simp: chained_append)
    show ?thesis
    proof (cases "last c \<in> R")
      case True
      with c show ?thesis by (intro exI [of _ c] exI [of _ "last c"] exI [of _ w]) (simp add: chain_from_def)
    next
      case out: False
      from snoc.IH [OF c(1,2) out] obtain p u v where
        "chain_from leads (hd c) u p" "u \<in> R" "v \<in> set (leads_of leads u)" "v \<notin> R" "length p < length c" by blast
      with c(5) show ?thesis by (intro exI [of _ p] exI [of _ u] exI [of _ v]) simp
    qed
  qed (use snoc.prems in simp)
qed simp

definition lengths :: "(string \<rightharpoonup> string list) \<Rightarrow> string \<Rightarrow> nat" where
  "lengths known v = length (the (known v))"

definition searching :: "(string \<times> string list) list \<Rightarrow> string set \<Rightarrow> string \<Rightarrow> (string \<rightharpoonup> string list) \<Rightarrow> string list \<Rightarrow> bool" where
  "searching leads broken start known waiting \<longleftrightarrow> known start \<noteq> None \<and> set waiting \<subseteq> dom known \<and> dom known \<inter> broken \<subseteq> {start} \<and>
     (\<forall>v c. known v = Some c \<longrightarrow> chain_from leads start v c \<and> (\<forall>c'. chain_from leads start v c' \<longrightarrow> length c \<le> length c')) \<and>
     (\<forall>v \<in> dom known - set waiting. set (leads_of leads v) \<subseteq> dom known) \<and>
     sorted (map (lengths known) waiting) \<and>
     (\<forall>v \<in> set waiting. lengths known v \<le> Suc (lengths known (hd waiting)))"

lemma searching_beyond:
  assumes s: "searching leads broken start known waiting" and c: "chain_from leads start v c" "v \<notin> dom known"
  shows "waiting \<noteq> [] \<and> lengths known (hd waiting) < length c"
proof -
  from s have "hd c \<in> dom known" using c(1) by (auto simp: searching_def chain_from_def)
  with c chain_leaves [of leads c "dom known"] obtain p u w where
    p: "chain_from leads start u p" "u \<in> dom known" "w \<in> set (leads_of leads u)" "w \<notin> dom known" "length p < length c"
    by (auto simp: chain_from_def)
  with s have u: "u \<in> set waiting" unfolding searching_def by blast
  from p(2) obtain q where q: "known u = Some q" by blast
  with s p(1) have "length q \<le> length p" unfolding searching_def by blast
  moreover have "lengths known (hd waiting) \<le> lengths known u"
    using s u by (cases waiting) (auto simp: searching_def)
  ultimately show ?thesis using u q p(5) by (auto simp: lengths_def)
qed

lemma searching_on:
  assumes s: "searching leads broken start known (at # waiting)"
    and a: "chain_ahead broken (the (known at)) (leads_of leads at) known = Inr (found, new)"
  shows "searching leads broken start found (waiting @ new)"
proof -
  let ?here = "the (known at)"
  from s have at: "known at = Some ?here" by (auto simp: searching_def)
  note ahead = chain_ahead_found [OF a, THEN conjunct1] chain_ahead_found [OF a, THEN conjunct2, THEN conjunct2, THEN conjunct1]
    chain_ahead_found [OF a, THEN conjunct2, THEN conjunct2, THEN conjunct2]
  have old: "v \<in> dom known \<Longrightarrow> found v = known v \<and> lengths found v = lengths known v" for v
    using ahead by (auto simp: lengths_def)
  have fresh: "v \<in> set new \<Longrightarrow> lengths found v = Suc (lengths known at)" for v
    using ahead(3) by (simp add: lengths_def)
  have dom: "dom found = dom known \<union> set (leads_of leads at)" using ahead by auto
  have shortest: "chain_from leads start v c \<and> (\<forall>c'. chain_from leads start v c' \<longrightarrow> length c \<le> length c')" if "found v = Some c" for v c
  proof (cases "v \<in> set new")
    case True
    with ahead that have v: "c = ?here @ [v]" "v \<in> set (leads_of leads at)" "v \<notin> dom known" by auto
    from s at have "chain_from leads start at ?here" unfolding searching_def by blast
    moreover have "length c \<le> length c'" if "chain_from leads start v c'" for c'
      using searching_beyond [OF s that v(3)] v(1) by (simp add: lengths_def)
    ultimately show ?thesis using v chain_from_step by blast
  next
    case False
    with ahead(3) that have "known v = Some c" by simp
    with s show ?thesis unfolding searching_def by blast
  qed
  have waiting: "set waiting \<subseteq> dom known" "at \<in> dom known" using s by (auto simp: searching_def)
  have sorted: "sorted (map (lengths found) waiting)" "\<forall>v \<in> set waiting. lengths known v \<le> Suc (lengths known at) \<and> lengths known at \<le> lengths known v"
  proof -
    have "map (lengths found) waiting = map (lengths known) waiting" using waiting(1) old by (auto intro!: map_cong)
    moreover have "sorted (map (lengths known) waiting)" using s by (simp add: searching_def)
    ultimately show "sorted (map (lengths found) waiting)" by (rule ssubst)
    from s show "\<forall>v \<in> set waiting. lengths known v \<le> Suc (lengths known at) \<and> lengths known at \<le> lengths known v" by (auto simp: searching_def)
  qed
  have "map (lengths found) new = replicate (length new) (Suc (lengths known at))"
    using fresh by (intro nth_equalityI) simp_all
  moreover have "\<forall>v \<in> set waiting. lengths found v \<le> Suc (lengths known at) \<and> lengths known at \<le> lengths found v"
    using sorted(2) waiting(1) old by (metis subsetD)
  ultimately have all: "sorted (map (lengths found) (waiting @ new))"
    "\<forall>v \<in> set (waiting @ new). lengths found v \<le> Suc (lengths known at) \<and> lengths known at \<le> lengths found v"
    using sorted(1) fresh by (auto simp: sorted_append)
  then have near: "\<forall>v \<in> set (waiting @ new). lengths found v \<le> Suc (lengths found (hd (waiting @ new)))"
    by (cases "waiting @ new") (auto simp del: append_is_Nil_conv dest: le_trans)
  have "\<forall>v \<in> dom found - set (waiting @ new). set (leads_of leads v) \<subseteq> dom found"
  proof
    fix v assume v: "v \<in> dom found - set (waiting @ new)"
    then have "v \<in> dom known" using dom ahead(1) by auto
    with v s show "set (leads_of leads v) \<subseteq> dom found" unfolding dom searching_def by (cases "v = at") auto
  qed
  moreover have "dom found \<inter> broken \<subseteq> {start}"
  proof -
    have "dom known \<inter> broken \<subseteq> {start}" using s by (simp add: searching_def)
    moreover have "dom found = dom known \<union> set new" using dom ahead(1) by blast
    ultimately show ?thesis using ahead(2) by blast
  qed
  moreover have "set (waiting @ new) \<subseteq> dom found" using dom waiting(1) ahead(1) by auto
  moreover have "found start \<noteq> None" using s ahead(3) by (auto simp: searching_def)
  ultimately show ?thesis unfolding searching_def using shortest all(1) near by (intro conjI allI impI) blast+
qed

lemma chain_search_shortest:
  "searching leads broken start known waiting \<Longrightarrow> (case chain_search leads broken known waiting of
     Some c \<Rightarrow> \<exists>b \<in> broken - {start}. chain_from leads start b c \<and>
       (\<forall>b' \<in> broken - {start}. \<forall>c'. chain_from leads start b' c' \<longrightarrow> length c \<le> length c')
   | None \<Rightarrow> \<forall>b \<in> broken - {start}. \<nexists>c. chain_from leads start b c)"
proof (induction leads broken known waiting rule: chain_search.induct)
  case (1 leads broken known)
  have "False" if "b \<in> broken - {start}" "chain_from leads start b c" for b c
  proof -
    from that 1 have "b \<notin> dom known" by (auto simp: searching_def)
    from searching_beyond [OF 1 that(2) this] show False by simp
  qed
  then show ?case by auto
next
  case (2 leads broken known at waiting)
  show ?case
  proof (cases "chain_ahead broken (the (known at)) (leads_of leads at) known")
    case (Inl c)
    from chain_ahead_ends [OF Inl] obtain to where to: "to \<in> set (leads_of leads at)" "to \<in> broken" "known to = None" "c = the (known at) @ [to]" by blast
    from 2(2) have "chain_from leads start at (the (known at))" "to \<noteq> start" using to(3) by (auto simp: searching_def)
    then have chain: "chain_from leads start to c" "to \<in> broken - {start}" using to chain_from_step by blast+
    have "length c \<le> length c'" if "b' \<in> broken - {start}" "chain_from leads start b' c'" for b' c'
    proof -
      from that 2(2) have "b' \<notin> dom known" by (auto simp: searching_def)
      from searching_beyond [OF 2(2) that(2) this] to(4) show ?thesis by (simp add: lengths_def)
    qed
    with chain Inl show ?thesis by auto
  next
    case (Inr b)
    obtain found new where b: "b = (found, new)" by fastforce
    from 2(1) [OF Inr b [symmetric] searching_on [OF 2(2) Inr [unfolded b]]] Inr b show ?thesis by simp
  qed
qed

text \<open>
  C36: the chain given for a file is a chain of files from it to a broken one, each leading to the next, and none that
  leads to a broken one is shorter; none is given exactly when none leads to one.
\<close>

theorem shortest_chain_found:
  "case chain_to start leads broken of
     Some c \<Rightarrow> \<exists>b \<in> broken - {start}. chain_from leads start b c \<and>
       (\<forall>b' \<in> broken - {start}. \<forall>c'. chain_from leads start b' c' \<longrightarrow> length c \<le> length c')
   | None \<Rightarrow> \<forall>b \<in> broken - {start}. \<nexists>c. chain_from leads start b c"
proof -
  have "length c \<ge> 1" if "chain_from leads start start c" for c using that by (cases c) (auto simp: chain_from_def)
  then have "searching leads broken start [start \<mapsto> [start]] [start]"
    by (auto simp: searching_def chain_from_start)
  from chain_search_shortest [OF this] show ?thesis by (simp add: chain_to_def)
qed

definition some_leads :: "(string \<times> string list) list" where
  "some_leads = [(''a'', [''b'', ''c'']), (''b'', [''a'', ''d'']), (''c'', [''e'']), (''d'', [''x''])]"

theorem shortest_chain_found_witness:
  "chain_to ''a'' some_leads {''x'', ''e''} = Some [''a'', ''c'', ''e''] \<and>
   (\<exists>b \<in> {''x'', ''e''} - {''a''}. chain_from some_leads ''a'' b [''a'', ''c'', ''e''])"
proof -
  have "chain_to ''a'' some_leads {''x'', ''e''} = Some [''a'', ''c'', ''e'']"
    unfolding some_leads_def by (simp add: chain_to_def leads_of_def)
  with shortest_chain_found [where start = "''a''" and leads = some_leads and broken = "{''x'', ''e''}"] show ?thesis by auto
qed

end
