(* ===== verification/KB_Offers.thy ===== *)
theory KB_Offers
  imports KB_Canonical KB_Composition KB_Chains KB_Validation KB_Standing
begin

text \<open>
  \<open>offers.py\<close> and \<open>skipping.py\<close>: a directory's files as they are offered for import, the type version files each is
  read through, and those an import would skip. A directory is the files below it, each with its steps and what
  reading it gives. Errors are put on the files of a list, the files by name looked up in what the list holds then.
\<close>

section \<open>Files offered\<close>

definition HISTORY :: "string list" where "HISTORY = [''.git'', ''journal'', ''.kb-starting'']"

definition KEPT :: "string list" where
  "KEPT = [''store.yaml'', ''store.sqlite3'', ''store.sqlite3-wal'', ''store.sqlite3-shm'', ''served.yaml'']"

record offered =
  of_file :: string
  of_name :: "artifact_id option"
  of_number :: "int option"
  of_text :: string
  of_artifact :: "obj option"
  of_errors :: "fault list"

definition of_id :: "offered \<Rightarrow> artifact_id option" where
  "of_id e = (case (of_name e, of_number e) of
     (Some name, Some _) \<Rightarrow> map_option (\<lambda>found. ArtifactId (fst found)) (names_version (iri_of name))
   | (name, _) \<Rightarrow> name)"

definition of_typed :: "offered \<Rightarrow> bool" where
  "of_typed e \<longleftrightarrow> of_number e \<noteq> None"

definition offers_named :: "string \<Rightarrow> int option \<Rightarrow> artifact_id" where
  "offers_named name number = ArtifactId (case number of None \<Rightarrow> name | Some n \<Rightarrow> versioned name n)"

datatype reading = Unopened string | Not_utf8 | Content string

record directory =
  dy_named :: string
  dy_is_dir :: bool
  dy_files :: "(string list \<times> reading) list"

definition offers_files :: "directory \<Rightarrow> (string list \<Rightarrow> bool) \<Rightarrow> (string list \<times> reading) list" where
  "offers_files dir passed_over = sort_key fst (filter (\<lambda>(steps, _).
     \<not> (length steps = 1 \<and> hd steps \<in> set KEPT) \<and> \<not> (1 < length steps \<and> hd steps \<in> set HISTORY) \<and> \<not> passed_over steps) (dy_files dir))"

definition file_misplaced :: "offered \<Rightarrow> val \<Rightarrow> exn + string option" where
  "file_misplaced e loaded = (case of_name e of
     None \<Rightarrow> Inr (Some (''an artifact is filed as <host>/<segment>/.../<segment>.yaml, a type'' @ [CHR 39] @ ''s version as ''
       @ ''<host>/.../<segment>@<n>.yaml, and nothing else is offered for import''))
   | Some _ \<Rightarrow> (case loaded of
       VMap m \<Rightarrow>
         if \<not> identified m then Inr (Some (''an artifact opens with '' @ join_with '', '' IDENTITY @ '', in that order, and this file does not''))
         else let at = (case of_id e of Some a \<Rightarrow> iri_of a | None \<Rightarrow> []) in
           if text_at m ''id'' \<noteq> at then Inr (Some (''its place names '' @ repr_str at @ '', and it holds '' @ repr_str (text_at m ''id'')))
           else rbind (settled_typed m) (\<lambda>typed.
             Inr (if typed \<noteq> of_typed e \<or> of_typed e \<and> (case (dget m ''version'', of_number e) of
                       (Some v, Some n) \<Rightarrow> \<not> py_eq v (VInt n) | _ \<Rightarrow> True)
                  then Some (''a type is filed at its version'' @ [CHR 39] @ ''s place, <segment>@<n>.yaml, and nothing else is'') else None))
     | _ \<Rightarrow> Inr (Some (''an artifact opens with '' @ join_with '', '' IDENTITY @ '', in that order, and this file does not''))))"

definition file_offered :: "yaml \<Rightarrow> string list \<times> reading \<Rightarrow> exn + offered" where
  "file_offered y found = (case found of (steps, read) \<Rightarrow>
     let file = join_with ''/'' steps;
         e = (case filed steps of
                Some (name, number) \<Rightarrow> \<lparr>of_file = file, of_name = Some (offers_named name number), of_number = number, of_text = [],
                  of_artifact = None, of_errors = []\<rparr>
              | None \<Rightarrow> \<lparr>of_file = file, of_name = None, of_number = None, of_text = [], of_artifact = None, of_errors = []\<rparr>)
     in case read of
          Unopened problem \<Rightarrow> Inr (e \<lparr>of_errors := [unreadable_file file (''it cannot be opened: '' @ problem)]\<rparr>)
        | Not_utf8 \<Rightarrow> Inr (e \<lparr>of_errors := [unreadable_file file ''it is not text in UTF-8'']\<rparr>)
        | Content t \<Rightarrow> (case canonical_load y t of
            Inl (NotCanonical problem _) \<Rightarrow> Inr (e \<lparr>of_text := t, of_errors := [unreadable_file file problem]\<rparr>)
          | Inl (Escaped ex) \<Rightarrow> Inl ex
          | Inr loaded \<Rightarrow> rbind (file_misplaced e loaded) (\<lambda>problem. Inr (case problem of
              Some said \<Rightarrow> e \<lparr>of_text := t, of_errors := [not_canonical file said]\<rparr>
            | None \<Rightarrow> e \<lparr>of_text := t, of_artifact := (case loaded of VMap m \<Rightarrow> Some m | _ \<Rightarrow> None)\<rparr>))))"

definition offers_offered :: "yaml \<Rightarrow> directory \<Rightarrow> (string list \<Rightarrow> bool) \<Rightarrow> exn + offered list" where
  "offers_offered y dir passed_over =
     (if \<not> dy_is_dir dir then Inl (Refused [not_an_import_directory (dy_named dir)])
      else rall (map (file_offered y) (offers_files dir passed_over)))"

section \<open>What a file is read through\<close>

type_synonym files = "(artifact_id \<times> offered) list"

definition files_named :: "offered list \<Rightarrow> files" where
  "files_named offered = dict_over [] (concat (map (\<lambda>e. case of_name e of None \<Rightarrow> [] | Some name \<Rightarrow> [(name, e)]) offered))"

definition own_type :: "offered \<Rightarrow> bool" where
  "own_type e \<longleftrightarrow> of_id e = Some TYPE_OF_TYPES"

definition beneath :: "offered \<Rightarrow> files \<Rightarrow> exn + artifact_id list" where
  "beneath e named = (case of_artifact e of
     None \<Rightarrow> Inr []
   | Some m \<Rightarrow> rbind (conforming m) (\<lambda>v.
       let found = version_str v # (if of_typed e
             then map (\<lambda>r. versioned (iri_of (the (ref_type r))) (ref_number r)) (references (content_schema m)) else [])
       in Inr (filter (\<lambda>name. case map_of named name of Some other \<Rightarrow> \<not> own_type other | None \<Rightarrow> False)
            (once_each (map ArtifactId found)))))"

definition left_to_see :: "files \<Rightarrow> artifact_id set \<Rightarrow> nat" where
  "left_to_see named seen = card (set (map fst named) - seen)"

lemma left_to_see_less: "map_of named u = Some e \<Longrightarrow> u \<notin> seen \<Longrightarrow> left_to_see named (insert u seen) < left_to_see named seen"
  unfolding left_to_see_def by (rule psubset_card_mono) (force dest: map_of_SomeD)+

definition many_beneath :: "files \<Rightarrow> artifact_id \<Rightarrow> nat" where
  "many_beneath named name = (case map_of named name of None \<Rightarrow> 0
     | Some e \<Rightarrow> (case beneath e named of Inl _ \<Rightarrow> 0 | Inr found \<Rightarrow> Suc (length found)))"

text \<open>\<open>held_back\<close>, asked by name: the \<open>any\<close> over what the file is read through is the second function.\<close>

function (sequential) held_back :: "files \<Rightarrow> artifact_id set \<Rightarrow> artifact_id \<Rightarrow> exn + bool"
  and held_any :: "files \<Rightarrow> artifact_id set \<Rightarrow> artifact_id list \<Rightarrow> exn + bool" where
  "held_back named seen name = (case map_of named name of
     None \<Rightarrow> Inl (KeyError (iri_of name))
   | Some e \<Rightarrow> (case beneath e named of Inl ex \<Rightarrow> Inl ex | Inr found \<Rightarrow> held_any named (insert name seen) found))"
| "held_any named seen [] = Inr False"
| "held_any named seen (u # rest) =
     (if u \<in> seen then held_any named seen rest
      else case map_of named u of
        None \<Rightarrow> Inl (KeyError (iri_of u))
      | Some e \<Rightarrow> if of_errors e \<noteq> [] then Inr True
          else (case held_back named seen u of
            Inl ex \<Rightarrow> Inl ex | Inr held \<Rightarrow> if held then Inr True else held_any named seen rest))"
  by pat_completeness auto

termination
  by (relation "inv_image (less_than <*lex*> less_than) (\<lambda>x. case x of
        Inl (named, seen, name) \<Rightarrow> (left_to_see named (insert name seen), many_beneath named name)
      | Inr (named, seen, us) \<Rightarrow> (left_to_see named seen, length us))")
    (auto simp: many_beneath_def left_to_see_less)

section \<open>The files an import would skip\<close>

definition file_of :: "files \<Rightarrow> artifact_id \<Rightarrow> string" where
  "file_of named name = (case map_of named name of Some e \<Rightarrow> of_file e | None \<Rightarrow> [])"

definition broken_files :: "offered list \<Rightarrow> string set" where
  "broken_files offered = of_file ` set (filter (\<lambda>e. of_errors e \<noteq> []) offered)"

definition sound_files :: "offered list \<Rightarrow> files \<Rightarrow> offered list" where
  "sound_files offered named = filter (\<lambda>e. of_file e \<notin> broken_files offered \<and> (case of_name e of None \<Rightarrow> False
     | Some name \<Rightarrow> (case map_of named name of None \<Rightarrow> False | Some held \<Rightarrow> \<not> own_type held))) offered"

definition read_through_files :: "offered list \<Rightarrow> files \<Rightarrow> exn + (string \<times> string list) list" where
  "read_through_files offered named = rall (map (\<lambda>e. rbind (beneath e named) (\<lambda>found.
     Inr (of_file e, map (file_of named) found))) (sound_files offered named))"

record skipped_file =
  sk_file :: string
  sk_chain :: "string list"

definition skipped :: "offered list \<Rightarrow> files \<Rightarrow> (string \<times> string list) list \<Rightarrow> exn + skipped_file list" where
  "skipped offered named waiting = rbind (read_through_files offered named) (\<lambda>through.
     let leads = map (\<lambda>(file, tos). (file, tos @ leads_of waiting file)) through
     in Inr (concat (map (\<lambda>(file, _). case chain_to file leads (broken_files offered) of
          None \<Rightarrow> [] | Some chain \<Rightarrow> [\<lparr>sk_file = file, sk_chain = chain\<rparr>]) leads)))"

definition lost :: "corpus \<Rightarrow> offered list \<Rightarrow> files \<Rightarrow> exn + (artifact_id \<times> string list) list" where
  "lost store offered named = rbind (read_through_files offered named) (\<lambda>through.
     let left_out = broken_files offered \<union> set (filter (\<lambda>file. chain_to file through (broken_files offered) \<noteq> None) (map fst through));
         typed = sort_key (\<lambda>e. the (of_number e)) (filter (\<lambda>e. of_typed e \<and> \<not> own_type e) (map snd named));
         versions = map (\<lambda>a. (a, map of_file (filter (\<lambda>e. of_id e = Some a) typed))) (once_each (map (\<lambda>e. the (of_id e)) typed))
     in Inr (filter (\<lambda>(a, held). \<not> c_holds store a \<and> set held \<subseteq> left_out) versions))"

definition lost_under :: "artifact_id \<Rightarrow> (artifact_id \<times> string list) list \<Rightarrow> corpus \<Rightarrow> exn + artifact_id option" where
  "lost_under a gone landing = rbind (nearest_type a landing) (\<lambda>nearest.
     Inr (case filter (\<lambda>b. Some b = nearest \<or> b \<in> fst ` set gone) (ids_above a) of
       [] \<Rightarrow> None | b # _ \<Rightarrow> if Some b = nearest then None else Some b))"

section \<open>What is read through a broken file\<close>

definition reads_through :: "files \<Rightarrow> artifact_id \<Rightarrow> artifact_id \<Rightarrow> bool" where
  "reads_through named a b \<longleftrightarrow> (\<exists>e found. map_of named a = Some e \<and> beneath e named = Inr found \<and> b \<in> set found)"

definition file_broken :: "files \<Rightarrow> artifact_id \<Rightarrow> bool" where
  "file_broken named a \<longleftrightarrow> (\<exists>e. map_of named a = Some e \<and> of_errors e \<noteq> [])"

definition files_read :: "files \<Rightarrow> bool" where
  "files_read named \<longleftrightarrow> (\<forall>a e m. map_of named a = Some e \<longrightarrow> of_artifact e = Some m \<longrightarrow> identified m)"

lemma identified_type: "identified m \<Longrightarrow> \<exists>t found. dget m ''type'' = Some (VStr t) \<and> names_version t = Some found"
  by (auto simp: identified_def is_str_def text_at_def split: option.splits val.splits if_splits)

lemma identified_conforming: "identified m \<Longrightarrow> \<exists>v. conforming m = Inr v"
  by (drule identified_type) (auto simp: conforming_def artifact_kind_def settled_kind_def settled_version_def type_version_of_def)

lemma beneath_answers: "files_read named \<Longrightarrow> map_of named a = Some e \<Longrightarrow> \<exists>found. beneath e named = Inr found"
  using identified_conforming by (cases "of_artifact e") (fastforce simp: files_read_def beneath_def Let_def rbind_def split: sum.splits)+

lemma beneath_held:
  assumes "beneath e named = Inr found" "b \<in> set found"
  shows "\<exists>e'. map_of named b = Some e' \<and> \<not> own_type e'"
proof (cases "of_artifact e")
  case (Some m)
  with assms(1) obtain names where "found = filter (\<lambda>name. case map_of named name of Some other \<Rightarrow> \<not> own_type other | None \<Rightarrow> False) names"
    by (auto simp: beneath_def rbind_Inr_iff Let_def simp del: once_each.simps)
  with assms(2) show ?thesis by (auto split: option.splits)
qed (use assms in \<open>simp add: beneath_def\<close>)

text \<open>Going on only to files not seen.\<close>

definition unseen_through :: "files \<Rightarrow> artifact_id set \<Rightarrow> artifact_id \<Rightarrow> artifact_id \<Rightarrow> bool" where
  "unseen_through named seen a b \<longleftrightarrow> reads_through named a b \<and> b \<notin> seen"

lemma unseen_fewer: "(unseen_through named (insert u seen))\<^sup>*\<^sup>* a b \<Longrightarrow> (unseen_through named seen)\<^sup>*\<^sup>* a b"
  by (erule rtranclp_mono [THEN predicate2D, rotated]) (auto simp: unseen_through_def)

lemma unseen_leaves:
  assumes "(unseen_through named seen)\<^sup>*\<^sup>* u b"
  shows "b = u \<or> (\<exists>v. reads_through named u v \<and> v \<notin> insert u seen \<and> (unseen_through named (insert u seen))\<^sup>*\<^sup>* v b)"
  using assms
proof (induction rule: rtranclp_induct)
  case (step b c)
  show ?case
  proof (cases "c = u")
    case False
    with step(2) have on: "unseen_through named (insert u seen) b c" by (simp add: unseen_through_def)
    from step(3) show ?thesis
    proof
      assume "b = u"
      with on show ?thesis by (auto simp: unseen_through_def)
    next
      assume "\<exists>v. reads_through named u v \<and> v \<notin> insert u seen \<and> (unseen_through named (insert u seen))\<^sup>*\<^sup>* v b"
      with on show ?thesis by (meson rtranclp.rtrancl_into_rtrancl)
    qed
  qed simp
qed simp

lemma unseen_enters:
  assumes "reads_through named u v" "v \<notin> insert u seen" "(unseen_through named (insert u seen))\<^sup>*\<^sup>* v b"
  shows "(unseen_through named seen)\<^sup>*\<^sup>* u b"
  using assms unseen_fewer [of named u seen v b] by (auto intro: converse_rtranclp_into_rtranclp simp: unseen_through_def)

definition breaks :: "files \<Rightarrow> artifact_id set \<Rightarrow> artifact_id \<Rightarrow> bool" where
  "breaks named seen u \<longleftrightarrow> (\<exists>b. file_broken named b \<and> (unseen_through named seen)\<^sup>*\<^sup>* u b)"

lemma breaks_next:
  "breaks named seen u \<longleftrightarrow> file_broken named u \<or> (\<exists>v. reads_through named u v \<and> v \<notin> insert u seen \<and> breaks named (insert u seen) v)"
  unfolding breaks_def by (blast dest: unseen_leaves intro: unseen_enters)

lemma held_back_breaks:
  assumes "files_read named"
  shows "map_of named name \<noteq> None \<Longrightarrow>
      held_back named seen name = Inr (\<exists>v. reads_through named name v \<and> v \<notin> insert name seen \<and> breaks named (insert name seen) v)"
    "(\<forall>u \<in> set us. map_of named u \<noteq> None) \<Longrightarrow> held_any named seen us = Inr (\<exists>u \<in> set us - seen. breaks named seen u)"
  using assms
proof (induction named seen name and named seen us rule: held_back_held_any.induct)
  case (1 named seen name)
  then obtain e where e: "map_of named name = Some e" by blast
  with 1(3) beneath_answers obtain found where found: "beneath e named = Inr found" by blast
  then have "\<forall>u \<in> set found. map_of named u \<noteq> None" using beneath_held by fastforce
  with 1(1) [OF e found] 1(3) have "held_any named (insert name seen) found = Inr (\<exists>u \<in> set found - insert name seen. breaks named (insert name seen) u)"
    by blast
  moreover have "reads_through named name v \<longleftrightarrow> v \<in> set found" for v using e found by (simp add: reads_through_def)
  ultimately show ?case using e found by (auto simp: Bex_def)
next
  case (3 named seen u rest)
  show ?case
  proof (cases "u \<in> seen")
    case True
    with 3 show ?thesis by auto
  next
    case False
    from 3(4) obtain e where e: "map_of named u = Some e" by auto
    show ?thesis
    proof (cases "of_errors e = []")
      case True
      with e have whole: "\<not> file_broken named u" by (simp add: file_broken_def)
      from 3(2) [OF False e] True e 3(5) have asked: "held_back named seen u = Inr (breaks named seen u)"
        by (simp add: breaks_next [of named seen u] whole)
      show ?thesis
      proof (cases "breaks named seen u")
        case True
        with False e \<open>of_errors e = []\<close> asked show ?thesis by auto
      next
        case no: False
        from 3(4) have "\<forall>u \<in> set rest. \<exists>y. map_of named u = Some y" by auto
        note rest = 3(3) [OF False e _ asked, simplified, OF True no this 3(5)]
        have "(\<exists>w \<in> set (u # rest) - seen. breaks named seen w) \<longleftrightarrow> (\<exists>w \<in> set rest - seen. breaks named seen w)"
          using no by auto
        with rest show ?thesis using False e True asked no by simp
      qed
    next
      case bad: False
      with e have "file_broken named u" by (simp add: file_broken_def)
      then have "breaks named seen u" unfolding breaks_def by blast
      with False have "\<exists>w \<in> set (u # rest) - seen. breaks named seen w" by auto
      with bad False e show ?thesis by (simp del: set_simps)
    qed
  qed
qed simp

text \<open>
  C34: a file is held back from the check exactly when the type version files it is read through, or any those are
  read through in turn, hold another with an error; and the question always answers, even of types read through each
  other in a circle.
\<close>

theorem held_back_exact:
  assumes "files_read named" "map_of named name \<noteq> None"
  shows "held_back named {} name = Inr (\<exists>b. b \<noteq> name \<and> (reads_through named)\<^sup>*\<^sup>* name b \<and> file_broken named b)"
proof -
  have all: "unseen_through named {} = reads_through named" by (simp add: unseen_through_def fun_eq_iff)
  have "(\<exists>v. reads_through named name v \<and> v \<notin> insert name {} \<and> breaks named (insert name {}) v) \<longleftrightarrow>
      (\<exists>b. b \<noteq> name \<and> (reads_through named)\<^sup>*\<^sup>* name b \<and> file_broken named b)" (is "?l \<longleftrightarrow> ?r")
  proof
    assume ?l
    then obtain v b where v: "reads_through named name v" "v \<notin> insert name {}" "file_broken named b"
      "(unseen_through named (insert name {}))\<^sup>*\<^sup>* v b" by (auto simp: breaks_def)
    from v(4,2) have "b \<noteq> name" by (induction rule: rtranclp_induct) (auto simp: unseen_through_def)
    with unseen_enters [OF v(1,2,4)] v(3) show ?r unfolding all by blast
  next
    assume ?r
    then obtain b where b: "b \<noteq> name" "(unseen_through named {})\<^sup>*\<^sup>* name b" "file_broken named b" unfolding all by blast
    from unseen_leaves [OF b(2)] b(1,3) show ?l by (auto simp: breaks_def)
  qed
  with held_back_breaks(1) [OF assms, of "{}"] show ?thesis by simp
qed

text \<open>A type built on a version that could not be read, and an artifact of it.\<close>

definition note_of :: "string \<Rightarrow> string \<Rightarrow> obj" where
  "note_of name kind = [(KText ''id'', VStr name), (KText ''type'', VStr kind), (KText ''revision'', VInt 1), (KText ''title'', VStr ''T'')]"

definition three_files :: files where
  "three_files =
    [(ArtifactId ''https://a.io/n/x'', \<lparr>of_file = ''x'', of_name = Some (ArtifactId ''https://a.io/n/x''), of_number = None, of_text = [],
        of_artifact = Some (note_of ''https://a.io/n/x'' ''https://a.io/n@1''), of_errors = []\<rparr>),
     (ArtifactId ''https://a.io/n@1'', \<lparr>of_file = ''n'', of_name = Some (ArtifactId ''https://a.io/n@1''), of_number = Some 1, of_text = [],
        of_artifact = Some (note_of ''https://a.io/n'' ''https://missingmass.io/kb/type@1'' @
          [(KText ''schema'', VMap [(KText ''$ref'', VStr ''kb:https://a.io/m@2'')])]), of_errors = []\<rparr>),
     (ArtifactId ''https://a.io/m@2'', \<lparr>of_file = ''m'', of_name = Some (ArtifactId ''https://a.io/m@2''), of_number = Some 2, of_text = [],
        of_artifact = None, of_errors = [unreadable_file ''m'' ''it is not text in UTF-8'']\<rparr>)]"

lemma three_files_back: "held_back three_files {} (ArtifactId ''https://a.io/n/x'') = Inr True"
  by code_simp

lemma three_files_read: "files_read three_files"
proof -
  have "list_all (\<lambda>(_, e). case of_artifact e of None \<Rightarrow> True | Some m \<Rightarrow> identified m) three_files" by code_simp
  then show ?thesis by (auto simp: files_read_def list_all_iff dest!: map_of_SomeD split: option.splits)
qed

theorem held_back_exact_witness:
  "held_back three_files {} (ArtifactId ''https://a.io/n/x'') = Inr True \<and>
   (\<exists>b. b \<noteq> ArtifactId ''https://a.io/n/x'' \<and> (reads_through three_files)\<^sup>*\<^sup>* (ArtifactId ''https://a.io/n/x'') b \<and> file_broken three_files b)"
proof -
  have "map_of three_files (ArtifactId ''https://a.io/n/x'') \<noteq> None" by (simp add: three_files_def)
  from held_back_exact [OF three_files_read this] three_files_back show ?thesis by simp
qed

end
