(* ===== verification/KB_Examining.thy ===== *)
theory KB_Examining
  imports KB_Offers KB_Drafting
begin

text \<open>
  \<open>comparing.py\<close>, \<open>judging.py\<close> and \<open>examining.py\<close>: a directory read as a set for import into a store. The files are a
  list whose errors grow; the files by name are read from it whenever they are asked for, as the dict of the same
  objects is in the source. Faults are put on a file by its name.
\<close>

section \<open>A file compared with what the store holds\<close>

definition plain_raised :: "unplain + 'a \<Rightarrow> exn + 'a" where
  "plain_raised r = (case r of Inr x \<Rightarrow> Inr x | Inl (NotCanonical problem _) \<Rightarrow> Inl (ValueError problem) | Inl (Escaped e) \<Rightarrow> Inl e)"

definition unrevised_text :: "yaml \<Rightarrow> obj \<Rightarrow> unplain + string" where
  "unrevised_text y m = canonical_dump y (filter (\<lambda>e. fst e \<noteq> KText ''revision'') m)"

definition ordered_held :: "nat \<Rightarrow> corpus \<Rightarrow> obj \<Rightarrow> exn + obj" where
  "ordered_held n c m = rbind (conformed m c) (\<lambda>typed. rbind (schema_of typed) (\<lambda>schema.
     rbind (declared n schema c) (\<lambda>d. settled_order m (declares_map d))))"

definition held_there :: "nat \<Rightarrow> corpus \<Rightarrow> offered \<Rightarrow> exn + obj option" where
  "held_there n c e = (let a = the (of_id e) in
     if \<not> of_typed e then rbind (corpus_artifact c a) (\<lambda>m. rbind (ordered_held n c m) (\<lambda>held. Inr (Some held)))
     else rbind (kept a (the (of_number e)) c) (\<lambda>v. case v of
         None \<Rightarrow> Inr None
       | Some made \<Rightarrow> rbind (ordered_held n c (dput ''title'' (VStr (tv_title made)) (tv_content made))) (\<lambda>held. Inr (Some held))))"

definition out_of_step :: "corpus \<Rightarrow> offered \<Rightarrow> exn + bool" where
  "out_of_step c e = rbind (corpus_artifact c (the (of_id e))) (\<lambda>standing. rbind (settled_typed standing) (\<lambda>typed.
     if \<not> typed then Inr True
     else rbind (int_field standing ''version'') (\<lambda>at. if the (of_number e) < at then Inr True
       else rbind (int_field (the (of_artifact e)) ''revision'') (\<lambda>brought.
            rbind (int_field standing ''revision'') (\<lambda>stands. Inr (brought \<le> stands))))))"

definition as_landing :: "outside \<Rightarrow> corpus \<Rightarrow> offered \<Rightarrow> exn + string option" where
  "as_landing out c e = (case naming_imported (read_fuel out) c (the (of_id e)) (the (of_artifact e)) of
     Inl (Refused _) \<Rightarrow> Inr None
   | Inl ex \<Rightarrow> Inl ex
   | Inr (named, _) \<Rightarrow> (case unrevised_text (yaml_of out) named of
       Inr t \<Rightarrow> Inr (Some t) | Inl (NotCanonical _ _) \<Rightarrow> Inr None | Inl (Escaped ex) \<Rightarrow> Inl ex))"

definition differs_from :: "outside \<Rightarrow> port_reads \<Rightarrow> offered \<Rightarrow> exn + bool" where
  "differs_from out p e = rbind (held_there (read_fuel out) (p_corpus p) e) (\<lambda>held. case held of
     None \<Rightarrow> out_of_step (p_corpus p) e
   | Some m \<Rightarrow> rbind (as_landing out (draft_corpus p new_draft) e) (\<lambda>t.
       rbind (plain_raised (unrevised_text (yaml_of out) m)) (\<lambda>w. Inr (t \<noteq> Some w))))"

datatype verdict = Brings | Differing | Identical

definition verdict_of :: "outside \<Rightarrow> port_reads \<Rightarrow> offered \<Rightarrow> exn + verdict" where
  "verdict_of out p e =
     (if of_artifact e = None \<or> \<not> c_holds (p_corpus p) (the (of_id e)) then Inr Brings
      else rbind (differs_from out p e) (\<lambda>differ. if differ then Inr Differing
        else rbind (held_there (read_fuel out) (p_corpus p) e) (\<lambda>held. Inr (if held \<noteq> None then Identical else Brings))))"

record compared_files =
  cf_identical :: "artifact_id set"
  cf_differing :: "offered list"

definition files_compared :: "outside \<Rightarrow> port_reads \<Rightarrow> offered list \<Rightarrow> exn + compared_files" where
  "files_compared out p offered = rbind (rall (map (verdict_of out p) offered)) (\<lambda>verdicts.
     Inr \<lparr>cf_identical = set (map (\<lambda>(e, _). the (of_name e)) (filter (\<lambda>(_, v). v = Identical) (zip offered verdicts))),
          cf_differing = map fst (filter (\<lambda>(_, v). v = Differing) (zip offered verdicts))\<rparr>)"

section \<open>The links of the files judged against what would land\<close>

definition target_of :: "val \<Rightarrow> exn + locator" where
  "target_of v = (case v of VStr t \<Rightarrow> target t | _ \<Rightarrow> Inl AttributeError)"

definition judged_under :: "val \<Rightarrow> (artifact_id \<times> string list) list \<Rightarrow> corpus \<Rightarrow> exn + artifact_id option" where
  "judged_under v gone landing = (case rbind (target_of v) (\<lambda>l. lost_under (loc_id l) gone landing) of
     Inl (Refused _) \<Rightarrow> Inr None | r \<Rightarrow> r)"

definition judged_held :: "val \<Rightarrow> corpus \<Rightarrow> exn + bool" where
  "judged_held v landing = (case target_of v of
     Inl (Refused _) \<Rightarrow> Inr False | Inl e \<Rightarrow> Inl e | Inr l \<Rightarrow> Inr (c_holds landing (loc_id l)))"

definition somes_of :: "'a option list \<Rightarrow> 'a list" where
  "somes_of xs = concat (map (\<lambda>x. case x of None \<Rightarrow> [] | Some a \<Rightarrow> [a]) xs)"

definition judged_lost :: "nat \<Rightarrow> obj \<Rightarrow> (artifact_id \<times> string list) list \<Rightarrow> corpus \<Rightarrow> exn + artifact_id list" where
  "judged_lost n artifact gone landing = rbind (conformed artifact landing) (\<lambda>typed. rbind (schema_of typed) (\<lambda>schema.
     rbind (carried n (settled_checked artifact) schema landing) (\<lambda>found.
     rbind (rall (map (\<lambda>l. rbind (judged_held (lk_target l) landing) (\<lambda>held.
       if held then Inr None else judged_under (lk_target l) gone landing)) found)) (\<lambda>under. Inr (somes_of under)))))"

definition judged_links :: "outside \<Rightarrow> offered \<Rightarrow> obj \<Rightarrow> corpus \<Rightarrow> exn + link list" where
  "judged_links out e artifact landing =
     (case rbind (conformed artifact landing) (\<lambda>typed. rbind (schema_of typed) (\<lambda>schema.
        rbind (if of_errors e = [] then Inr []
               else val_misshapen (misshaped out) (built_fuel out) (read_fuel out) (settled_checked artifact) schema landing)
          (\<lambda>errors. Inr (schema, errors)))) of
        Inl (Refused _) \<Rightarrow> Inr []
      | Inl ex \<Rightarrow> Inl ex
      | Inr (schema, errors) \<Rightarrow> val_unlanded (read_fuel out) (settled_checked artifact) schema landing {} True errors)"

fun landing_puts :: "(offered \<times> obj) list \<Rightarrow> draft \<Rightarrow> exn + draft" where
  "landing_puts [] d = Inr d"
| "landing_puts ((e, artifact) # rest) d =
     (if of_errors e \<noteq> [] then landing_puts rest d
      else rbind (draft_put (the (of_id e)) artifact d) (landing_puts rest))"

text \<open>One file judged: the files its links lead it to, when it has no error, and the faults of those that land nowhere.\<close>

definition file_judged :: "outside \<Rightarrow> (artifact_id \<times> string list) list \<Rightarrow> corpus \<Rightarrow> offered \<times> obj \<Rightarrow>
    exn + (string \<times> string list) option \<times> artifact_id \<times> fault list" where
  "file_judged out gone landing read = (case read of (e, artifact) \<Rightarrow>
     rbind (judged_links out e artifact landing) (\<lambda>found.
     rbind (rall (map (\<lambda>l. judged_under (lk_target l) gone landing) found)) (\<lambda>unders.
     rbind (if of_errors e \<noteq> [] then Inr None
            else rbind (judged_lost (read_fuel out) artifact gone landing) (\<lambda>more.
              Inr (Some (of_file e, concat (map (\<lambda>a. case map_of gone a of Some files \<Rightarrow> files | None \<Rightarrow> [])
                (once_each (somes_of unders @ more))))))) (\<lambda>waits.
     Inr (waits, the (of_name e), map (\<lambda>(l, _). unlanded (of_file e) (lk_place l) (py_str (lk_target l)))
       (filter (\<lambda>(_, u). u = None) (zip found unders)))))))"

definition judged_unlanded :: "outside \<Rightarrow> port_reads \<Rightarrow> offered list \<Rightarrow> (offered \<times> obj) list \<Rightarrow>
    exn + (string \<times> string list) list \<times> (artifact_id \<times> fault list) list" where
  "judged_unlanded out p offered read = rbind (landing_puts read new_draft) (\<lambda>landing.
     rbind (lost (p_corpus p) offered (files_named offered)) (\<lambda>gone.
     rbind (rall (map (file_judged out gone (draft_corpus p landing)) read)) (\<lambda>judged.
     Inr (somes_of (map fst judged), map snd judged))))"

section \<open>The files in the order they are read in\<close>

definition file_number :: "offered \<Rightarrow> int" where
  "file_number e = (case of_number e of None \<Rightarrow> 0 | Some n \<Rightarrow> n)"

definition sorted_names :: "files \<Rightarrow> artifact_id list \<Rightarrow> artifact_id list" where
  "sorted_names named names =
     sort_key (\<lambda>a. case map_of named a of Some e \<Rightarrow> names_order (iri_of (the (of_id e))) | None \<Rightarrow> None)
       (sort_key (\<lambda>a. case map_of named a of Some e \<Rightarrow> file_number e | None \<Rightarrow> 0) names)"

function (sequential) order_visit :: "files \<Rightarrow> artifact_id set \<Rightarrow> artifact_id \<Rightarrow> artifact_id list \<Rightarrow> exn + artifact_id list"
  and order_visits :: "files \<Rightarrow> artifact_id set \<Rightarrow> artifact_id list \<Rightarrow> artifact_id list \<Rightarrow> exn + artifact_id list" where
  "order_visit named seen name ordered =
     (if name \<in> set ordered \<or> name \<in> seen then Inr ordered
      else case map_of named name of
        None \<Rightarrow> Inl (KeyError (iri_of name))
      | Some e \<Rightarrow> (case beneath e named of
          Inl ex \<Rightarrow> Inl ex
        | Inr found \<Rightarrow> (case order_visits named (insert name seen) (sorted_names named found) ordered of
            Inl ex \<Rightarrow> Inl ex | Inr ordered' \<Rightarrow> Inr (ordered' @ [name]))))"
| "order_visits named seen [] ordered = Inr ordered"
| "order_visits named seen (u # us) ordered = (case order_visit named seen u ordered of
     Inl ex \<Rightarrow> Inl ex | Inr ordered' \<Rightarrow> order_visits named seen us ordered')"
  by pat_completeness auto

termination
  by (relation "inv_image (less_than <*lex*> less_than) (\<lambda>x. case x of
        Inl (named, seen, name, ordered) \<Rightarrow> (left_to_see named seen, 0)
      | Inr (named, seen, us, ordered) \<Rightarrow> (left_to_see named seen, Suc (length us)))")
    (auto simp: left_to_see_less)

definition in_order :: "files \<Rightarrow> exn + artifact_id list" where
  "in_order named =
     rbind (order_visits named {} (sorted_names named (map fst (filter (\<lambda>(_, e). of_typed e) named))) []) (\<lambda>types.
     Inr (types @ sorted_names named (map fst (filter (\<lambda>(_, e). \<not> of_typed e) named))))"

section \<open>The files drafted\<close>

definition file_checked :: "files \<Rightarrow> offered \<Rightarrow> exn + bool" where
  "file_checked named e = (if of_artifact e = None \<or> own_type e then Inr False
     else rbind (held_back named {} (the (of_name e))) (\<lambda>held. Inr (\<not> held)))"

fun offered_puts :: "offered list \<Rightarrow> draft \<Rightarrow> exn + draft" where
  "offered_puts [] d = Inr d"
| "offered_puts (e # rest) d = (case of_artifact e of
     Some m \<Rightarrow> if own_type e then offered_puts rest d else rbind (draft_put (the (of_id e)) m d) (offered_puts rest)
   | None \<Rightarrow> offered_puts rest d)"

type_synonym drafted_files = "(artifact_id \<times> obj \<times> fault list) list"

fun files_drafted :: "nat \<Rightarrow> port_reads \<Rightarrow> files \<Rightarrow> artifact_id list \<Rightarrow> draft \<Rightarrow> exn + draft \<times> drafted_files" where
  "files_drafted n p named [] d = Inr (d, [])"
| "files_drafted n p named (name # rest) d = (let e = the (map_of named name) in
     rbind (file_checked named e) (\<lambda>checked.
     if \<not> checked then files_drafted n p named rest d
     else case naming_imported n (draft_corpus p d) (the (of_id e)) (the (of_artifact e)) of
       Inl (Refused _) \<Rightarrow> files_drafted n p named rest d
     | Inl ex \<Rightarrow> Inl ex
     | Inr (artifact, misnamed) \<Rightarrow> rbind (draft_put (the (of_id e)) artifact d) (\<lambda>d.
         rbind (files_drafted n p named rest d) (\<lambda>(d, drafted). Inr (d, (name, artifact, misnamed) # drafted)))))"

text \<open>The faults of the place each type a file brings stands at, over the type files ahead of it that have none.\<close>

fun types_placed :: "nat \<Rightarrow> port_reads \<Rightarrow> files \<Rightarrow> artifact_id list \<Rightarrow> draft \<Rightarrow> (artifact_id \<times> fault list) list \<Rightarrow>
    exn + (artifact_id \<times> fault list) list" where
  "types_placed n p named [] ahead found = Inr found"
| "types_placed n p named (name # rest) ahead found = (let e = the (map_of named name); a = the (of_id e) in
     if \<not> of_typed e \<or> of_artifact e = None \<or> own_type e \<or> map_of found a \<noteq> None then types_placed n p named rest ahead found
     else rbind (if c_holds (p_corpus p) a then Inr [] else naming_placed n p ahead a TYPE_OF_TYPES) (\<lambda>faults.
       rbind (if faults = [] then draft_put a (the (of_artifact e)) ahead else Inr ahead) (\<lambda>ahead.
       types_placed n p named rest ahead (found @ [(a, faults)]))))"

section \<open>What is wrong with a file\<close>

definition file_form :: "outside \<Rightarrow> corpus \<Rightarrow> offered \<Rightarrow> val \<Rightarrow> exn + fault list" where
  "file_form out c e schema = rbind (declared (read_fuel out) schema c) (\<lambda>d.
     rbind (settled_order (the (of_artifact e)) (declares_map d)) (\<lambda>m. case canonical_dump (yaml_of out) m of
       Inl (NotCanonical problem _) \<Rightarrow> Inr [not_canonical (of_file e) problem]
     | Inl (Escaped ex) \<Rightarrow> Inl ex
     | Inr written \<Rightarrow> Inr (if written = of_text e then [] else [not_canonical (of_file e) ''its text is not the text kb writes''])))"

definition file_fit :: "outside \<Rightarrow> corpus \<Rightarrow> offered \<Rightarrow> obj \<Rightarrow> val \<Rightarrow> exn + fault list" where
  "file_fit out c e content schema =
     (case validate (misshaped out) (built_fuel out) (read_fuel out) (of_file e) content schema c {} True of
        Inl (Refused faults) \<Rightarrow> Inr faults
      | Inl ex \<Rightarrow> Inl ex
      | Inr found \<Rightarrow> Inr (filter (\<lambda>f. fault_rule f \<noteq> REF) found))"

definition file_faults :: "outside \<Rightarrow> port_reads \<Rightarrow> draft \<Rightarrow> offered \<Rightarrow> files \<Rightarrow> drafted_files \<Rightarrow> (artifact_id \<times> fault list) list \<Rightarrow>
    exn + fault list" where
  "file_faults out p d e named drafted places = (case of_artifact e of
     None \<Rightarrow> Inr []
   | Some m \<Rightarrow>
       if own_type e then rbind (corpus_artifact (p_corpus p) TYPE_OF_TYPES) (\<lambda>held.
         rbind (plain_raised (canonical_dump (yaml_of out) held)) (\<lambda>t. Inr (if of_text e = t then [] else
           [not_canonical (of_file e) (''the type that describes types is the store'' @ [CHR 39] @ ''s own, and this copy differs from it'')])))
       else let c = draft_corpus p d; n = read_fuel out in rbind (held_back named {} (the (of_name e))) (\<lambda>held. if held then Inr []
       else rbind (artifact_kind m) (\<lambda>k. if \<not> draft_holds p d (type_of k) then Inr [no_type_offered (of_file e) (kind_name k)]
       else rbind (conforming m) (\<lambda>v. rbind (kept (type_of k) (version_number v) c) (\<lambda>version. case version of
         None \<Rightarrow> Inr [no_version_offered (of_file e) (version_str v)]
       | Some made \<Rightarrow> (let (landing, misnamed) = (case map_of drafted (the (of_name e)) of Some found \<Rightarrow> found | None \<Rightarrow> (m, [])) in
           rbind (schema_of (tv_content made)) (\<lambda>schema. let content = settled_checked landing in
           rbind (if of_typed e then (case map_of places (the (of_id e)) of Some faults \<Rightarrow> Inr faults | None \<Rightarrow> Inl (KeyError (iri_of (the (of_id e)))))
                  else naming_placed n p d (the (of_id e)) (type_of k)) (\<lambda>placed.
           rbind (file_form out c e schema) (\<lambda>form. rbind (file_fit out c e content schema) (\<lambda>fit.
           let found = form @ misnamed @ placed @ fit in
           if found = [] \<and> of_typed e then definition_faults (the (of_id e)) content c else Inr found)))))))))) "

section \<open>The directory examined\<close>

definition blame :: "artifact_id \<Rightarrow> fault list \<Rightarrow> offered list \<Rightarrow> offered list" where
  "blame name faults offered = map (\<lambda>e. if of_name e = Some name then e \<lparr>of_errors := of_errors e @ faults\<rparr> else e) offered"

fun faults_found :: "outside \<Rightarrow> port_reads \<Rightarrow> draft \<Rightarrow> drafted_files \<Rightarrow> (artifact_id \<times> fault list) list \<Rightarrow> artifact_id list \<Rightarrow>
    offered list \<Rightarrow> exn + offered list" where
  "faults_found out p d drafted places [] offered = Inr offered"
| "faults_found out p d drafted places (name # rest) offered = (let named = files_named offered; e = the (map_of named name) in
     rbind (file_faults out p d e named drafted places) (\<lambda>faults.
     faults_found out p d drafted places rest (blame name (map (\<lambda>f. f \<lparr>fault_artifact := of_file e\<rparr>) faults) offered)))"

fun files_to_judge :: "files \<Rightarrow> drafted_files \<Rightarrow> artifact_id list \<Rightarrow> exn + (offered \<times> obj) list" where
  "files_to_judge named drafted [] = Inr []"
| "files_to_judge named drafted (name # rest) = (let e = the (map_of named name) in
     rbind (file_checked named e) (\<lambda>checked. rbind (files_to_judge named drafted rest) (\<lambda>read.
     Inr (if checked then (e, case map_of drafted name of Some (m, _) \<Rightarrow> m | None \<Rightarrow> the (of_artifact e)) # read else read))))"

record checked_files =
  ck_faults :: "fault list"
  ck_errors :: "fault list"
  ck_skipped :: "skipped_file list"

text \<open>\<open>examined\<close>: the report, and the files with the errors found on them.\<close>

definition examined :: "outside \<Rightarrow> port_reads \<Rightarrow> offered list \<Rightarrow> exn + checked_files \<times> offered list" where
  "examined out p offered =
     rbind (offered_puts (sort_key file_number offered) new_draft) (\<lambda>d. let named = files_named offered; n = read_fuel out in
     rbind (in_order named) (\<lambda>names.
     rbind (files_drafted n p named names d) (\<lambda>(d, drafted).
     rbind (types_placed n p named names new_draft []) (\<lambda>places.
     rbind (faults_found out p d drafted places names offered) (\<lambda>offered.
     rbind (files_to_judge (files_named offered) drafted names) (\<lambda>read.
     rbind (judged_unlanded out p offered read) (\<lambda>(waiting, judged). let offered = fold (\<lambda>(name, faults). blame name faults) judged offered in
     rbind (files_compared out p (filter (\<lambda>e. \<not> own_type e) offered)) (\<lambda>found.
     let offered = fold (\<lambda>e. blame (the (of_name e)) [differs (of_file e) (iri_of (the (of_id e)))]) (cf_differing found) offered in
     rbind (skipped offered (files_named offered) waiting) (\<lambda>skips.
     Inr (\<lparr>ck_faults = [], ck_errors = concat (map of_errors offered), ck_skipped = skips\<rparr>, offered))))))))))"

section \<open>Every file once, each after what it is read through\<close>

text \<open>What \<open>visit\<close> adds to a list: files none of which were seen, each once, each behind what it is read through but for
  circles.\<close>

definition well_ordered :: "files \<Rightarrow> artifact_id list \<Rightarrow> bool" where
  "well_ordered named names \<longleftrightarrow> (\<forall>i < length names. \<forall>b. reads_through named (names ! i) b \<longrightarrow>
     \<not> (reads_through named)\<^sup>+\<^sup>+ b (names ! i) \<longrightarrow> b \<in> set (take i names))"

lemma well_ordered_end:
  assumes "well_ordered named names" "\<And>b. reads_through named a b \<Longrightarrow> \<not> (reads_through named)\<^sup>+\<^sup>+ b a \<Longrightarrow> b \<in> set names"
  shows "well_ordered named (names @ [a])"
  using assms by (auto simp: well_ordered_def nth_append less_Suc_eq)

lemma set_sorted_names [simp]: "set (sorted_names named names) = set names"
  by (simp add: sorted_names_def)

lemma distinct_sorted_names [simp]: "distinct (sorted_names named names) = distinct names"
  by (simp add: sorted_names_def)

definition closed_under_reads :: "files \<Rightarrow> artifact_id set \<Rightarrow> bool" where
  "closed_under_reads named T \<longleftrightarrow> (\<forall>a \<in> T. map_of named a \<noteq> None \<and> (\<forall>b. reads_through named a b \<longrightarrow> b \<in> T))"

definition visited :: "files \<Rightarrow> artifact_id set \<Rightarrow> artifact_id set \<Rightarrow> artifact_id list \<Rightarrow> artifact_id list \<Rightarrow> bool" where
  "visited named T seen ordered ordered' \<longleftrightarrow> (\<exists>new. ordered' = ordered @ new \<and> set new \<inter> seen = {} \<and> set new \<subseteq> T \<and>
     (distinct ordered \<longrightarrow> distinct ordered') \<and> (well_ordered named ordered \<longrightarrow> well_ordered named ordered'))"

lemma visited_refl: "visited named T seen ordered ordered"
  by (simp add: visited_def)

lemma visited_trans: "visited named T seen a b \<Longrightarrow> visited named T seen b c \<Longrightarrow> visited named T seen a c"
  by (fastforce simp: visited_def)

lemma visited_set: "visited named T seen a b \<Longrightarrow> set a \<subseteq> set b"
  by (auto simp: visited_def)

lemma order_visits_all:
  assumes "files_read named" "closed_under_reads named T"
  shows "name \<in> T \<Longrightarrow> (\<forall>s \<in> seen. (reads_through named)\<^sup>+\<^sup>+ s name) \<Longrightarrow>
      \<exists>ordered'. order_visit named seen name ordered = Inr ordered' \<and> visited named T seen ordered ordered' \<and> name \<in> seen \<union> set ordered'"
    "(\<forall>u \<in> set us. u \<in> T \<and> (\<forall>s \<in> seen. (reads_through named)\<^sup>+\<^sup>+ s u)) \<Longrightarrow>
      \<exists>ordered'. order_visits named seen us ordered = Inr ordered' \<and> visited named T seen ordered ordered' \<and> set us \<subseteq> seen \<union> set ordered'"
  using assms
proof (induction named seen name ordered and named seen us ordered rule: order_visit_order_visits.induct)
  case (1 named seen name ordered)
  show ?case
  proof (cases "name \<in> set ordered \<or> name \<in> seen")
    case True
    then show ?thesis using visited_refl by auto
  next
    case False
    from 1(2,5) obtain e where e: "map_of named name = Some e" unfolding closed_under_reads_def by blast
    with 1(4) beneath_answers obtain found where found: "beneath e named = Inr found" by blast
    have through: "reads_through named name u" if "u \<in> set found" for u using that e found by (auto simp: reads_through_def)
    have "u \<in> T \<and> (\<forall>s \<in> insert name seen. (reads_through named)\<^sup>+\<^sup>+ s u)" if "u \<in> set (sorted_names named found)" for u
    proof -
      from that have "reads_through named name u" using through by simp
      with 1(2,3,5) show ?thesis unfolding closed_under_reads_def by (auto intro: tranclp.trancl_into_trancl)
    qed
    then have "\<forall>u \<in> set (sorted_names named found). u \<in> T \<and> (\<forall>s \<in> insert name seen. (reads_through named)\<^sup>+\<^sup>+ s u)" by blast
    from 1(1) [OF False e found this 1(4,5)] obtain on where
      on: "order_visits named (insert name seen) (sorted_names named found) ordered = Inr on"
        "visited named T (insert name seen) ordered on" "set (sorted_names named found) \<subseteq> insert name seen \<union> set on" by blast
    from on(2) obtain new where new: "on = ordered @ new" "set new \<inter> insert name seen = {}" "set new \<subseteq> T"
      "distinct ordered \<longrightarrow> distinct on" "well_ordered named ordered \<longrightarrow> well_ordered named on" by (auto simp: visited_def)
    have "b \<in> set on" if b: "reads_through named name b" "\<not> (reads_through named)\<^sup>+\<^sup>+ b name" for b
    proof -
      from b(1) e found have "b \<in> set found" by (simp add: reads_through_def)
      moreover from b 1(3) have "b \<noteq> name" "b \<notin> seen" by auto
      ultimately show ?thesis using on(3) by auto
    qed
    then have "visited named T seen ordered (on @ [name])"
      unfolding visited_def using new False 1(2) well_ordered_end [of named on name]
      by (intro exI [of _ "new @ [name]"]) auto
    with False e found on(1) show ?thesis by auto
  qed
next
  case (2 named seen ordered)
  then show ?case using visited_refl by simp
next
  case (3 named seen u us ordered)
  from 3(1) 3(3,4,5) obtain o1 where o1: "order_visit named seen u ordered = Inr o1" "visited named T seen ordered o1" "u \<in> seen \<union> set o1"
    by auto
  from 3(2) [OF o1(1)] 3(3,4,5) obtain o2 where o2: "order_visits named seen us o1 = Inr o2" "visited named T seen o1 o2" "set us \<subseteq> seen \<union> set o2"
    by auto
  from o1(3) o2(3) visited_set [OF o2(2)] have "set (u # us) \<subseteq> seen \<union> set o2" by auto
  with visited_trans [OF o1(2) o2(2)] show ?case using o1(1) o2(1) by simp
qed

lemma well_ordered_more:
  assumes "well_ordered named names" "\<And>a b. a \<in> set tail \<Longrightarrow> reads_through named a b \<Longrightarrow> b \<in> set names"
  shows "well_ordered named (names @ tail)"
  using assms(2)
proof (induction tail rule: rev_induct)
  case (snoc a tail)
  then have "well_ordered named (names @ tail)" by auto
  moreover have "b \<in> set (names @ tail)" if "reads_through named a b" for b using snoc.prems [of a b] that by simp
  ultimately show ?case using well_ordered_end [of named "names @ tail" a] by simp
qed (use assms(1) in simp)

text \<open>
  C35: the files offered are read in an order that gives each once, the types ahead of the rest, and each behind every type
  version file it is read through, but one read through it in turn.
\<close>

theorem in_order_exact:
  assumes "files_read named" "distinct (map fst named)"
    and "\<forall>a b e. reads_through named a b \<and> map_of named b = Some e \<longrightarrow> of_typed e"
  shows "\<exists>types rest. in_order named = Inr (types @ rest) \<and> distinct (types @ rest) \<and>
    set types = {a. \<exists>e. map_of named a = Some e \<and> of_typed e} \<and> set rest = {a. \<exists>e. map_of named a = Some e \<and> \<not> of_typed e} \<and>
    (\<forall>i < length (types @ rest). \<forall>b. reads_through named ((types @ rest) ! i) b \<longrightarrow>
       \<not> (reads_through named)\<^sup>+\<^sup>+ b ((types @ rest) ! i) \<longrightarrow> b \<in> set (take i (types @ rest)))"
proof -
  let ?typed = "map fst (filter (\<lambda>(_, e). of_typed e) named)" and ?rest = "sorted_names named (map fst (filter (\<lambda>(_, e). \<not> of_typed e) named))"
  have held: "map_of named a = Some e \<longleftrightarrow> (a, e) \<in> set named" for a e using assms(2) by simp
  then have typed: "set ?typed = {a. \<exists>e. map_of named a = Some e \<and> of_typed e}"
    and rest: "set ?rest = {a. \<exists>e. map_of named a = Some e \<and> \<not> of_typed e}" by force+
  let ?T = "{a. \<exists>e. map_of named a = Some e \<and> of_typed e}"
  have through: "b \<in> ?T" if r: "reads_through named a b" for a b
  proof -
    from r obtain e' where "map_of named b = Some e'" using beneath_held by (fastforce simp: reads_through_def)
    with assms(3) r show ?thesis by blast
  qed
  then have closed: "closed_under_reads named ?T" by (auto simp: closed_under_reads_def)
  have "\<forall>u \<in> set (sorted_names named ?typed). u \<in> ?T \<and> (\<forall>s \<in> {}. (reads_through named)\<^sup>+\<^sup>+ s u)" unfolding set_sorted_names typed by blast
  from order_visits_all(2) [OF assms(1) closed this] obtain types where
    types: "order_visits named {} (sorted_names named ?typed) [] = Inr types" "visited named ?T {} [] types" "set ?typed \<subseteq> set types"
    unfolding set_sorted_names by blast
  from types(2) have t: "distinct types" "well_ordered named types" "set types \<subseteq> ?T" by (auto simp: visited_def well_ordered_def)
  with types(3) typed have set: "set types = ?T" by blast
  have "distinct ?rest" using assms(2) by (simp add: distinct_map_filter)
  moreover have "set types \<inter> set ?rest = {}" unfolding set rest by auto
  moreover have "well_ordered named (types @ ?rest)" using well_ordered_more [OF t(2)] through unfolding set by blast
  ultimately show ?thesis using types(1) t(1) set rest unfolding well_ordered_def in_order_def
    by (intro exI [of _ types] exI [of _ ?rest]) simp
qed

lemma three_files_typed: "\<forall>a b e. reads_through three_files a b \<and> map_of three_files b = Some e \<longrightarrow> of_typed e"
proof -
  have "list_all (\<lambda>(_, e). case beneath e three_files of Inl _ \<Rightarrow> True | Inr found \<Rightarrow>
      list_all (\<lambda>b. case map_of three_files b of None \<Rightarrow> True | Some e \<Rightarrow> of_typed e) found) three_files" by code_simp
  then show ?thesis
    by (fastforce simp: reads_through_def list_all_iff dest: map_of_SomeD)
qed

theorem in_order_exact_witness:
  "in_order three_files = Inr [ArtifactId ''https://a.io/m@2'', ArtifactId ''https://a.io/n@1'', ArtifactId ''https://a.io/n/x''] \<and>
   (\<exists>names. in_order three_files = Inr names \<and> distinct names \<and> ArtifactId ''https://a.io/m@2'' \<in> set names)"
proof -
  have order: "in_order three_files = Inr [ArtifactId ''https://a.io/m@2'', ArtifactId ''https://a.io/n@1'', ArtifactId ''https://a.io/n/x'']"
    by code_simp
  have "distinct (map fst three_files)" by (simp add: three_files_def)
  from in_order_exact [OF three_files_read this three_files_typed] obtain types tail where
    "in_order three_files = Inr (types @ tail)" "distinct (types @ tail)" by blast
  with order show ?thesis by auto
qed

end
