(* ===== verification/KB_Write.thy ===== *)
theory KB_Write
  imports KB_Drafting KB_Journal
begin

text \<open>
  \<open>write.py\<close>: the write path, over a connection to the database. What other connections commit between the draft and
  the minting of its entries' ids, between that and the landing, and between a landing that conflicts and the lock, are functions from the database committed to the
  one they leave; whether another holds the lock for as long as SQLite waits is asked of each landing. The
  fingerprint of a text and the text a field of a row is written as are given.
\<close>

section \<open>What a set answers\<close>

record set_result =
  rs_artifact :: artifact_id
  rs_revision :: int
  rs_item :: string

record landed =
  ld_batch :: string
  ld_results :: "set_result list"

definition drafted_results :: "drafted \<Rightarrow> set_result list" where
  "drafted_results dr = map (\<lambda>e. \<lparr>rs_artifact = ed_artifact e, rs_revision = ed_revision e, rs_item = ed_item e\<rparr>) (df_changes dr)"

record writing =
  w_outside :: outside
  w_written :: "val \<Rightarrow> string"
  w_fingerprint :: "string \<Rightarrow> string"

section \<open>Drafted, stamped and landed\<close>

definition readied :: "writing \<Rightarrow> db \<Rightarrow> operation list \<Rightarrow> clock \<Rightarrow> exn + drafted \<times> int list" where
  "readied w db ops clock = rbind (set_drafted (w_outside w) (sq_port (w_written w) db) ops) (\<lambda>dr.
     rbind (clock_moments (length (df_changes dr)) clock) (\<lambda>moments. Inr (dr, moments)))"

definition landing_on :: "linking \<Rightarrow> string" where
  "landing_on l = pointing (iri_of (ln_target l)) (ln_part l)"

text \<open>\<open>_landed\<close>: the port's refusals for links said as the domain says them, the draft asked what it holds as the store
  stands once the port has refused.\<close>

definition said_of :: "writing \<Rightarrow> drafted \<Rightarrow> db \<Rightarrow> refusal \<Rightarrow> refusal" where
  "said_of w dr db r = (case r of
     Linked links \<Rightarrow> Raised (Refused (map (\<lambda>l. still_linked
       (if draft_holds (sq_port (w_written w) db) (df_draft dr) (ln_target l) then landing_on l else iri_of (ln_target l))
       (ln_source l) (ln_place l)) links))
   | Unlanded links \<Rightarrow> Raised (Refused (map (\<lambda>l. unlanded (iri_of (ln_source l)) (ln_place l) (landing_on l)) links))
   | _ \<Rightarrow> r)"

definition set_entries :: "writing \<Rightarrow> signed \<Rightarrow> drafted \<Rightarrow> stamp list \<Rightarrow> string \<Rightarrow> entry list" where
  "set_entries w who dr stamps batch = map (\<lambda>(e, t, st). journal_change (w_fingerprint w) who e t st batch)
     (zip (df_changes dr) (zip (df_texts dr) stamps))"

definition elsewhere :: "(db \<Rightarrow> db) \<Rightarrow> conn \<Rightarrow> conn" where
  "elsewhere f c = c \<lparr>k_committed := f (k_committed c)\<rparr>"

definition set_landing :: "writing \<Rightarrow> signed \<Rightarrow> bool \<Rightarrow> (db \<Rightarrow> db) \<Rightarrow> drafted \<times> int list \<Rightarrow> (conn, landed) act" where
  "set_landing w who other meanwhile ready c = (case ready of (dr, moments) \<Rightarrow>
     (case minted (sq_entry_ids (view c)) moments of
        [] \<Rightarrow> (Inl (Raised IndexError), c)
      | st # rest \<Rightarrow> (case land other (df_handed dr) (set_entries w who dr (st # rest) (st_id st)) (elsewhere meanwhile c) of
          (Inr _, c') \<Rightarrow> (Inr \<lparr>ld_batch = st_id st, ld_results = drafted_results dr\<rparr>, c')
        | (Inl r, c') \<Rightarrow> (Inl (said_of w dr (view c') r), c'))))"

definition conflicts :: "refusal \<Rightarrow> bool" where
  "conflicts r = (case r of Conflict_at _ _ _ \<Rightarrow> True | Conflict_ids _ \<Rightarrow> True | _ \<Rightarrow> False)"

text \<open>The set drafted, stamped and landed while the write lock is held.\<close>

definition landed_locked :: "writing \<Rightarrow> signed \<Rightarrow> bool \<Rightarrow> operation list \<Rightarrow> clock \<Rightarrow> (conn, landed) act" where
  "landed_locked w who other ops clock = exclusive other (\<lambda>c. case readied w (view c) ops clock of
     Inl e \<Rightarrow> (Inl (Raised e), c) | Inr ready \<Rightarrow> set_landing w who False id ready c)"

record between =
  other_first :: bool
  meanwhile_first :: "db \<Rightarrow> db"
  meanwhile_stamped :: "db \<Rightarrow> db"
  other_again :: bool
  meanwhile_again :: "db \<Rightarrow> db"

definition write_land :: "writing \<Rightarrow> between \<Rightarrow> operation list \<Rightarrow> signed \<Rightarrow> clock \<Rightarrow> (conn, landed) act" where
  "write_land w b ops who clock c = (case readied w (view c) ops clock of
     Inl e \<Rightarrow> (Inl (Raised e), c)
   | Inr (dr, moments) \<Rightarrow>
       let again = (\<lambda>c. landed_locked w who (other_again b) ops (\<lambda>i. clock (length moments + i)) (elsewhere (meanwhile_again b) c))
       in if df_locked dr then again (elsewhere (meanwhile_stamped b) (elsewhere (meanwhile_first b) c))
          else case set_landing w who (other_first b) (meanwhile_stamped b) (dr, moments) (elsewhere (meanwhile_first b) c) of
            (Inl r, c') \<Rightarrow> if conflicts r then again c' else (Inl r, c')
          | (Inr l, c') \<Rightarrow> (Inr l, c'))"

definition write_checked :: "writing \<Rightarrow> operation list \<Rightarrow> (conn, landed) act" where
  "write_checked w ops = at_one_moment (\<lambda>c. case set_drafted (w_outside w) (sq_port (w_written w) (view c)) ops of
     Inl e \<Rightarrow> (Inl (Raised e), c) | Inr dr \<Rightarrow> (Inr \<lparr>ld_batch = [], ld_results = drafted_results dr\<rparr>, c))"

section \<open>What a piece of work read\<close>

text \<open>\<open>snapshotted\<close> of \<open>query.py\<close>, and the digest of an artifact's canonical text, which raises where none can be written.\<close>

definition artifact_digest :: "writing \<Rightarrow> obj \<Rightarrow> exn + string" where
  "artifact_digest w m = (case canonical_dump (yaml_of (w_outside w)) m of
     Inr t \<Rightarrow> Inr (w_fingerprint w t) | Inl (NotCanonical problem _) \<Rightarrow> Inl (ValueError problem) | Inl (Escaped e) \<Rightarrow> Inl e)"

definition snapshotted :: "writing \<Rightarrow> corpus \<Rightarrow> (fault list + artifact_id) list \<Rightarrow> exn + obj list" where
  "snapshotted w c named =
     (let faults = concat (map (\<lambda>n. case n of Inl faults \<Rightarrow> faults | Inr a \<Rightarrow> if c_holds c a then [] else [not_found a]) named)
      in if faults \<noteq> [] then Inl (Refused faults)
         else rall (map (\<lambda>n. case n of Inl _ \<Rightarrow> Inr [] | Inr a \<Rightarrow>
           rbind (corpus_artifact c a) (\<lambda>m. case dget m ''revision'' of
             None \<Rightarrow> Inl (KeyError ''revision'')
           | Some revision \<Rightarrow> rbind (artifact_digest w m) (\<lambda>digest.
               Inr [(KText ''artifact'', VStr (iri_of a)), (KText ''revision'', revision), (KText ''digest'', VStr digest)]))) named))"

definition snapshot_landing :: "signed \<Rightarrow> bool \<Rightarrow> (db \<Rightarrow> db) \<Rightarrow> obj list \<Rightarrow> clock \<Rightarrow> (conn, string) act" where
  "snapshot_landing who other meanwhile read clock c = (case clock_stamps (sq_entry_ids (view c)) 1 clock of
     Inl e \<Rightarrow> (Inl (Raised e), c)
   | Inr stamps \<Rightarrow> (let entry = journal_snapshot who read (hd stamps) in
       (case land other [] [entry] (elsewhere meanwhile c) of (Inl r, c') \<Rightarrow> (Inl r, c') | (Inr _, c') \<Rightarrow> (Inr (e_id entry), c'))))"

definition write_record :: "writing \<Rightarrow> between \<Rightarrow> (fault list + artifact_id) list \<Rightarrow> signed \<Rightarrow> clock \<Rightarrow> (conn, string) act" where
  "write_record w b named who clock = act_bind
     (at_one_moment (\<lambda>c. case snapshotted w (sq_corpus (w_written w) (view c)) named of
        Inl e \<Rightarrow> (Inl (Raised e), c) | Inr read \<Rightarrow> (Inr read, c))) (\<lambda>read c.
     case snapshot_landing who (other_first b) (meanwhile_stamped b) read clock (elsewhere (meanwhile_first b) c) of
       (Inl r, c') \<Rightarrow> if conflicts r
         then exclusive (other_again b) (snapshot_landing who False id read (\<lambda>i. clock (Suc i))) (elsewhere (meanwhile_again b) c')
         else (Inl r, c')
     | (Inr name, c') \<Rightarrow> (Inr name, c'))"

section \<open>Lemmas\<close>

text \<open>A connection with nothing open, and so nothing of its own uncommitted.\<close>

definition idle :: "conn \<Rightarrow> bool" where
  "idle c \<longleftrightarrow> \<not> k_locked c \<and> k_open c = None \<and> k_saved c = []"

lemma idle_view [simp]: "idle c \<Longrightarrow> view c = k_committed c"
  by (simp add: idle_def view_def)

lemma idle_elsewhere: "idle c \<Longrightarrow> idle (elsewhere f c)" "k_committed (elsewhere f c) = f (k_committed c)"
  by (simp_all add: idle_def elsewhere_def)

lemma idle_land:
  assumes "idle c" "land other changes entries c = (r, c')"
  shows "idle c'" "isl r \<Longrightarrow> c' = c"
    "\<not> isl r \<Longrightarrow> land_set changes entries (k_committed c) = (Inr (), k_committed c')"
proof -
  have c: "\<not> k_locked c" "k_open c = None" "k_saved c = []" using assms(1) by (simp_all add: idle_def)
  have "idle c' \<and> (isl r \<longrightarrow> c' = c) \<and> (\<not> isl r \<longrightarrow> land_set changes entries (k_committed c) = (Inr (), k_committed c'))"
  proof (cases other)
    case True
    with c assms show ?thesis by (auto simp: land_def exclusive_def)
  next
    case False
    with assms(2) land_free [OF c, of changes entries] c show ?thesis
      by (auto simp: idle_def split: prod.splits sum.splits)
  qed
  then show "idle c'" "isl r \<Longrightarrow> c' = c" "\<not> isl r \<Longrightarrow> land_set changes entries (k_committed c) = (Inr (), k_committed c')" by simp_all
qed

lemma elsewhere_id [simp]: "elsewhere id c = c"
  by (simp add: elsewhere_def)

lemma idle_landing:
  assumes "idle c" "set_landing w who other meanwhile (dr, moments) c = (r, c')"
  shows "idle c' \<and> (isl r \<longrightarrow> c' = elsewhere meanwhile c \<or> c' = c \<and> r = Inl (Raised IndexError)) \<and>
    (\<forall>l. r = Inr l \<longrightarrow> ld_results l = drafted_results dr \<and>
      (\<exists>entries. land_set (df_handed dr) entries (meanwhile (k_committed c)) = (Inr (), k_committed c')))"
proof (cases "minted (sq_entry_ids (view c)) moments")
  case Nil
  with assms show ?thesis by (auto simp: set_landing_def)
next
  case (Cons st rest)
  obtain r' c'' where l: "land other (df_handed dr) (set_entries w who dr (st # rest) (st_id st)) (elsewhere meanwhile c) = (r', c'')" by fastforce
  note landing = idle_land [OF idle_elsewhere(1) [OF assms(1)] l]
  show ?thesis
  proof (cases r')
    case (Inl refused)
    with Cons assms(2) l landing show ?thesis by (auto simp: set_landing_def)
  next
    case (Inr u)
    with landing(3) have "land_set (df_handed dr) (set_entries w who dr (st # rest) (st_id st)) (meanwhile (k_committed c)) = (Inr (), k_committed c'')"
      by (simp add: elsewhere_def)
    with Inr Cons assms(2) l landing(1) show ?thesis by (auto simp: set_landing_def)
  qed
qed

lemma readied_drafted: "readied w db ops clock = Inr (dr, moments) \<Longrightarrow> set_drafted (w_outside w) (sq_port (w_written w) db) ops = Inr dr"
  by (auto simp: readied_def results)

lemma locked_landing:
  assumes c: "idle c" and l: "landed_locked w who other ops clock c = (r, c')"
  shows "idle c' \<and> (isl r \<longrightarrow> c' = c) \<and> (\<forall>l. r = Inr l \<longrightarrow> (\<exists>dr entries.
    set_drafted (w_outside w) (sq_port (w_written w) (k_committed c)) ops = Inr dr \<and> ld_results l = drafted_results dr \<and>
    land_set (df_handed dr) entries (k_committed c) = (Inr (), k_committed c')))"
proof -
  from c have i: "\<not> k_locked c" "k_open c = None" "k_saved c = []" by (simp_all add: idle_def)
  let ?c = "(sql_begin c) \<lparr>k_locked := True\<rparr>"
  have v: "view ?c = k_committed c" "k_locked ?c" "k_open ?c = Some (k_committed c)" by (simp_all add: view_def sql_begin_def)
  have undone: "(sql_rollback ?c) \<lparr>k_locked := False\<rparr> = c" using i by (simp add: sql_begin_def sql_rollback_def)
  show ?thesis
  proof (cases "other")
    case True
    with l i c show ?thesis by (auto simp: landed_locked_def exclusive_def)
  next
    case False
    show ?thesis
    proof (cases "readied w (k_committed c) ops clock")
      case (Inl e)
      with l False i v undone c show ?thesis by (auto simp: landed_locked_def exclusive_def)
    next
      case (Inr ready)
      obtain dr moments where ready: "ready = (dr, moments)" by fastforce
      note drafted = readied_drafted [OF Inr [unfolded ready]]
      show ?thesis
      proof (cases "minted (sq_entry_ids (k_committed c)) moments")
        case Nil
        with l False i v undone c Inr ready show ?thesis by (auto simp: landed_locked_def exclusive_def set_landing_def)
      next
        case (Cons st rest)
        let ?entries = "set_entries w who dr (st # rest) (st_id st)"
        obtain s db' where s: "land_set (df_handed dr) ?entries (k_committed c) = (s, db')" by fastforce
        have land: "land False (df_handed dr) ?entries ?c = (case s of Inr x \<Rightarrow> (Inr x, ?c \<lparr>k_open := Some db'\<rparr>) | Inl r \<Rightarrow> (Inl r, ?c))"
          using land_locked [OF v(2,3), of False "df_handed dr" ?entries] s by (simp split: sum.splits)
        show ?thesis
        proof (cases s)
          case (Inl refused)
          with l False i v undone c Inr ready Cons land show ?thesis
            by (auto simp: landed_locked_def exclusive_def set_landing_def)
        next
          case (Inr u)
          with l False i v c \<open>readied w (k_committed c) ops clock = Inr ready\<close> ready Cons land s drafted show ?thesis
            by (auto simp: landed_locked_def exclusive_def set_landing_def sql_commit_def sql_begin_def view_def idle_def)
        qed
      qed
    qed
  qed
qed

lemma write_lands_once:
  assumes "idle c" "write_land w b ops who clock c = (r, c')"
  shows "idle c' \<and> (let db = k_committed c; db0 = meanwhile_first b db; db1 = meanwhile_stamped b db0; db2 = meanwhile_again b db1 in case r of
     Inl refused \<Rightarrow> k_committed c' \<in> {db, db0, db1, db2}
   | Inr l \<Rightarrow> \<exists>dr entries. ld_results l = drafted_results dr \<and>
       (set_drafted (w_outside w) (sq_port (w_written w) db) ops = Inr dr \<and> \<not> df_locked dr \<and>
          land_set (df_handed dr) entries db1 = (Inr (), k_committed c') \<or>
        set_drafted (w_outside w) (sq_port (w_written w) db2) ops = Inr dr \<and>
          land_set (df_handed dr) entries db2 = (Inr (), k_committed c')))"
proof (cases "readied w (k_committed c) ops clock")
  case (Inl e)
  with assms show ?thesis by (auto simp: write_land_def Let_def)
next
  case (Inr ready)
  obtain dr moments where ready: "ready = (dr, moments)" by fastforce
  note drafted = readied_drafted [OF Inr [unfolded ready]]
  let ?c0 = "elsewhere (meanwhile_first b) c" and ?c1 = "elsewhere (meanwhile_stamped b) (elsewhere (meanwhile_first b) c)"
  have c1: "idle ?c0" "k_committed ?c0 = meanwhile_first b (k_committed c)" "idle ?c1"
    "k_committed ?c1 = meanwhile_stamped b (meanwhile_first b (k_committed c))" using idle_elsewhere assms(1) by simp_all
  let ?again = "\<lambda>c. landed_locked w who (other_again b) ops (\<lambda>i. clock (length moments + i)) (elsewhere (meanwhile_again b) c)"
  have again: ?thesis if "?again ?c1 = (r, c')"
    using locked_landing [OF idle_elsewhere(1) [OF c1(3)] that] c1(4) by (cases r) (auto simp: idle_elsewhere(2) Let_def)
  show ?thesis
  proof (cases "df_locked dr")
    case True
    with assms Inr ready have "?again ?c1 = (r, c')" by (simp add: write_land_def Let_def)
    then show ?thesis by (rule again)
  next
    case False
    obtain s c2 where s: "set_landing w who (other_first b) (meanwhile_stamped b) (dr, moments) ?c0 = (s, c2)" by fastforce
    note landing = idle_landing [OF c1(1) s]
    note readied = Inr
    show ?thesis
    proof (cases s)
      case (Inl refused)
      then have c2: "c2 = ?c1 \<or> c2 = ?c0 \<and> refused = Raised IndexError" using landing by simp
      show ?thesis
      proof (cases "conflicts refused")
        case True
        with c2 have "c2 = ?c1" by (auto simp: conflicts_def)
        with assms readied ready False s Inl True have "?again ?c1 = (r, c')" by (simp add: write_land_def Let_def)
        then show ?thesis by (rule again)
      next
        case no: False
        with assms readied ready False s Inl have "r = Inl refused" "c' = c2" by (simp_all add: write_land_def Let_def)
        with c2 c1 show ?thesis by (auto simp: Let_def)
      qed
    next
      case (Inr l)
      with assms readied ready False s have r: "r = Inr l" "c' = c2"
        by (simp_all add: write_land_def Let_def)
      with landing Inr c1(2) drafted False show ?thesis by (auto simp: Let_def)
    qed
  qed
qed


lemma at_one_moment_idle:
  assumes "idle c"
  shows "at_one_moment (\<lambda>c. case f (view c) of Inl e \<Rightarrow> (Inl (Raised e), c) | Inr x \<Rightarrow> (Inr (g x), c)) c =
    (case f (k_committed c) of Inl e \<Rightarrow> Inl (Raised e) | Inr x \<Rightarrow> Inr (g x), c)"
  using assms by (cases "f (k_committed c)")
    (auto simp: at_one_moment_def sql_begin_def sql_commit_def view_def idle_def)


section \<open>A set that lands\<close>

definition notes_db :: db where
  "notes_db = made_db \<lparr>t_artifacts := [\<lparr>a_id = ''https://a.io/t/x'', a_kind = ''https://a.io/t'', a_revision = 3, a_content =
     JMap [(''id'', JStr ''https://a.io/t/x''), (''type'', JStr ''https://a.io/t@1''), (''revision'', JInt 3), (''title'', JStr ''X'')]\<rparr>]\<rparr>"

definition plain_writing :: writing where
  "plain_writing = \<lparr>w_outside = \<lparr>misshaped = (\<lambda>_ _. []), yaml_of = plain_yaml, built_fuel = 2, read_fuel = 2\<rparr>,
     w_written = py_str, w_fingerprint = id\<rparr>"

definition alone :: between where
  "alone = \<lparr>other_first = False, meanwhile_first = id, meanwhile_stamped = id, other_again = False, meanwhile_again = id\<rparr>"

definition remover :: signed where
  "remover = \<lparr>sd_role = ''r'', sd_execution = [], sd_message = ''m''\<rparr>"

definition note_gone :: "(refusal + landed) \<times> conn" where
  "note_gone = write_land plain_writing alone [Remove \<lparr>rm_locator = Locator (ArtifactId ''https://a.io/t/x'') [], rm_expected = Some 3\<rparr>]
     remover (\<lambda>_. Inr 0) (opened_db notes_db)"

lemma note_gone_lands: "\<not> isl (fst note_gone)"
  by code_simp

lemma notes_idle: "idle (opened_db notes_db)"
  by (simp add: idle_def opened_db_def)

lemma note_gone_answer: "\<exists>l c'. write_land plain_writing alone
    [Remove \<lparr>rm_locator = Locator (ArtifactId ''https://a.io/t/x'') [], rm_expected = Some 3\<rparr>]
    remover (\<lambda>_. Inr 0) (opened_db notes_db) = (Inr l, c')"
  using note_gone_lands by (cases note_gone; cases "fst note_gone") (auto simp: note_gone_def)



end
