(* ===== verification/KB_Importing.thy ===== *)
theory KB_Importing
  imports KB_Examining KB_Write
begin

text \<open>
  \<open>importing.py\<close>: a directory examined and, of it, what checks clean landed as one set through the write path, the
  store's write lock held from before the directory is read. Reading the directory is the argument.
\<close>

section \<open>What an import lands\<close>

definition files_differing :: "offered list \<Rightarrow> artifact_id list" where
  "files_differing offered = sort_key (\<lambda>a. names_order (iri_of a)) (once_each (map (\<lambda>e. the (of_id e))
     (filter (\<lambda>e. \<exists>f \<in> set (of_errors e). fault_rule f = DIFFERS) offered)))"

definition left_out_of :: "checked_files \<Rightarrow> string set" where
  "left_out_of report = sk_file ` set (ck_skipped report)"

definition any_sound :: "offered list \<Rightarrow> checked_files \<Rightarrow> bool" where
  "any_sound offered report \<longleftrightarrow> (\<exists>e \<in> set offered. of_name e \<noteq> None \<and> of_errors e = [] \<and> of_file e \<notin> left_out_of report)"

definition import_taken :: "offered list \<Rightarrow> checked_files \<Rightarrow> files" where
  "import_taken offered report = files_named (filter (\<lambda>e.
     of_name e \<noteq> None \<and> \<not> own_type e \<and> of_errors e = [] \<and> of_file e \<notin> left_out_of report) offered)"

definition import_ops :: "files \<Rightarrow> artifact_id list \<Rightarrow> operation list" where
  "import_ops landing names = map (\<lambda>name. let e = the (map_of landing name) in Import (the (of_id e)) (the (of_artifact e))) names"

definition lift_exn :: "(refusal + 'a) \<times> 'c \<Rightarrow> ('a \<Rightarrow> 'c \<Rightarrow> (refusal + 'b) \<times> 'c) \<Rightarrow> (refusal + 'b) \<times> 'c" where
  "lift_exn r f = (case r of (Inl e, c) \<Rightarrow> (Inl e, c) | (Inr x, c) \<Rightarrow> f x c)"

definition import_held :: "writing \<Rightarrow> directory \<Rightarrow> (string list \<Rightarrow> bool) \<Rightarrow> signed \<Rightarrow> bool \<Rightarrow> clock \<Rightarrow> (conn, checked_files) act" where
  "import_held w dir passed_over who skip_errors clock c = (let out = w_outside w; p = sq_port (w_written w) (view c) in
     case rbind (offers_offered (yaml_of out) dir passed_over) (examined out p) of
       Inl e \<Rightarrow> (Inl (Raised e), c)
     | Inr (report, offered) \<Rightarrow> (let answer = (\<lambda>faults. (Inr (report \<lparr>ck_faults := faults\<rparr>), c)); taken = import_taken offered report in
         if files_differing offered \<noteq> [] then answer (map (\<lambda>a. differing (iri_of a)) (files_differing offered))
         else if ck_errors report \<noteq> [] \<and> \<not> skip_errors then answer [check_failed (length (ck_errors report))]
         else if taken = [] \<and> \<not> any_sound offered report then answer [nothing_lands]
         else case rbind (files_compared out p (map snd taken)) (\<lambda>found.
                let landing = filter (\<lambda>(name, _). name \<notin> cf_identical found) taken
                in rbind (in_order landing) (\<lambda>names. Inr (landing, names))) of
             Inl e \<Rightarrow> (Inl (Raised e), c)
           | Inr (landing, names) \<Rightarrow>
               if landing = [] then (Inr report, c)
               else (case write_land w alone (import_ops landing names) who clock c of
                   (Inl r, c') \<Rightarrow> (Inl r, c') | (Inr _, c') \<Rightarrow> (Inr report, c'))))"

definition import_directory :: "writing \<Rightarrow> bool \<Rightarrow> directory \<Rightarrow> (string list \<Rightarrow> bool) \<Rightarrow> signed \<Rightarrow> bool \<Rightarrow> clock \<Rightarrow> (conn, checked_files) act" where
  "import_directory w other dir passed_over who skip_errors clock = exclusive other (import_held w dir passed_over who skip_errors clock)"

section \<open>Lemmas\<close>

text \<open>A connection holding the write lock over a database it has begun on.\<close>

definition holding :: "db \<Rightarrow> conn \<Rightarrow> bool" where
  "holding db c \<longleftrightarrow> k_locked c \<and> k_open c = Some db"

lemma holding_landing:
  assumes "holding db c" "set_landing w who other id (dr, moments) c = (r, c')"
  shows "(isl r \<longrightarrow> c' = c) \<and> (\<not> isl r \<longrightarrow> (\<exists>entries db'. land_set (df_handed dr) entries db = (Inr (), db') \<and> c' = c \<lparr>k_open := Some db'\<rparr>))"
proof (cases "minted (sq_entry_ids (view c)) moments")
  case Nil
  with assms show ?thesis by (auto simp: set_landing_def)
next
  case (Cons st rest)
  let ?entries = "set_entries w who dr (st # rest) (st_id st)"
  from assms(1) have c: "k_locked c" "k_open c = Some db" by (simp_all add: holding_def)
  obtain s db' where s: "land_set (df_handed dr) ?entries db = (s, db')" by fastforce
  have "land other (df_handed dr) ?entries c = (case s of Inr x \<Rightarrow> (Inr x, c \<lparr>k_open := Some db'\<rparr>) | Inl r \<Rightarrow> (Inl r, c))"
    using land_locked [OF c, of other "df_handed dr" ?entries] s by (simp split: sum.splits)
  with Cons assms(2) s show ?thesis by (cases s) (auto simp: set_landing_def)
qed

lemma holding_landed_locked:
  assumes "holding db c" "landed_locked w who other ops clock c = (r, c')"
  shows "(isl r \<longrightarrow> c' = c) \<and> (\<not> isl r \<longrightarrow> (\<exists>dr entries db'. set_drafted (w_outside w) (sq_port (w_written w) db) ops = Inr dr \<and>
    land_set (df_handed dr) entries db = (Inr (), db') \<and> c' = c \<lparr>k_open := Some db'\<rparr>))"
proof -
  have v: "view c = db" "k_locked c" using assms(1) by (simp_all add: holding_def view_def)
  show ?thesis
  proof (cases "readied w db ops clock")
    case (Inl e)
    with assms v show ?thesis by (auto simp: landed_locked_def exclusive_def)
  next
    case (Inr ready)
    obtain dr moments where ready: "ready = (dr, moments)" by fastforce
    from assms(2) v Inr ready have s: "set_landing w who False id (dr, moments) c = (r, c')"
      by (simp add: landed_locked_def exclusive_def)
    from holding_landing [OF assms(1) s] readied_drafted [OF Inr [unfolded ready]] show ?thesis by blast
  qed
qed

lemma holding_land:
  assumes "holding db c" "write_land w alone ops who clock c = (r, c')"
  shows "(isl r \<longrightarrow> c' = c) \<and> (\<not> isl r \<longrightarrow> (\<exists>dr entries db'. set_drafted (w_outside w) (sq_port (w_written w) db) ops = Inr dr \<and>
    land_set (df_handed dr) entries db = (Inr (), db') \<and> c' = c \<lparr>k_open := Some db'\<rparr>))"
proof (cases "readied w (view c) ops clock")
  case (Inl e)
  with assms show ?thesis by (auto simp: write_land_def)
next
  case (Inr ready)
  obtain dr moments where ready: "ready = (dr, moments)" by fastforce
  have v: "view c = db" using assms(1) by (simp add: holding_def view_def)
  note drafted = readied_drafted [OF Inr [unfolded ready v]]
  let ?again = "landed_locked w who False ops (\<lambda>i. clock (length moments + i)) c"
  have again: ?thesis if "?again = (r, c')" by (rule holding_landed_locked [OF assms(1) that])
  obtain s c2 where s: "set_landing w who False id (dr, moments) c = (s, c2)" by fastforce
  note landing = holding_landing [OF assms(1) s]
  note land = assms(2) [unfolded write_land_def alone_def, simplified, unfolded Inr ready, simplified, unfolded Let_def s, simplified]
  show ?thesis
  proof (cases "df_locked dr \<or> (\<exists>e. s = Inl e \<and> conflicts e)")
    case True
    with land landing s have "?again = (r, c')" by (cases s) (auto split: if_splits)
    then show ?thesis by (rule again)
  next
    case False
    with land s have "r = s" "c' = c2" by (cases s; auto)+
    with landing drafted show ?thesis by (cases s) auto
  qed
qed

text \<open>A file the report leaves sound: no error on it, and not skipped.\<close>

definition file_sound :: "checked_files \<Rightarrow> offered list \<Rightarrow> operation \<Rightarrow> bool" where
  "file_sound report offered op \<longleftrightarrow> (\<exists>e \<in> set offered. of_errors e = [] \<and> of_file e \<notin> sk_file ` set (ck_skipped report) \<and>
     \<not> own_type e \<and> op = Import (the (of_id e)) (the (of_artifact e)))"

lemma rbind_pair:
  "rbind r (\<lambda>x. rbind (f (g x)) (\<lambda>y. Inr (g x, y))) = Inr (l, n) \<Longrightarrow> \<exists>x. l = g x \<and> f l = Inr n"
  by (auto simp: rbind_Inr_iff)

lemma order_visits_held:
  "order_visit named seen name ordered = Inr ordered' \<Longrightarrow> set ordered' \<subseteq> set ordered \<union> dom (map_of named)"
  "order_visits named seen us ordered = Inr ordered' \<Longrightarrow> set ordered' \<subseteq> set ordered \<union> dom (map_of named)"
proof (induction named seen name ordered and named seen us ordered arbitrary: ordered' and ordered' rule: order_visit_order_visits.induct)
  case (1 named seen name ordered)
  then show ?case by (fastforce split: if_splits option.splits sum.splits)
next
  case (3 named seen u us ordered)
  then show ?case by (fastforce split: sum.splits)
qed simp

lemma in_order_held:
  assumes "in_order named = Inr names" "name \<in> set names"
  shows "\<exists>e. map_of named name = Some e"
proof -
  from assms(1) obtain types where
    t: "order_visits named {} (sorted_names named (map fst (filter (\<lambda>(_, e). of_typed e) named))) [] = Inr types"
    and names: "names = types @ sorted_names named (map fst (filter (\<lambda>(_, e). \<not> of_typed e) named))"
    by (auto simp: in_order_def rbind_Inr_iff)
  from order_visits_held(2) [OF t] have "set names \<subseteq> dom (map_of named)" unfolding names by (auto simp: dom_map_of_conv_image_fst)
  with assms(2) show ?thesis by blast
qed

lemma files_named_held:
  assumes "(name, e) \<in> set (files_named offered)"
  shows "e \<in> set offered"
proof -
  let ?new = "concat (map (\<lambda>e. case of_name e of None \<Rightarrow> [] | Some name \<Rightarrow> [(name, e)]) offered)"
  have "distinct (map fst (files_named offered))" unfolding files_named_def by (rule distinct_dict_over) simp
  with assms have "map_of (files_named offered) name = Some e" by simp
  then have "map_of (rev ?new) name = Some e" unfolding files_named_def by (simp add: map_of_dict_over split: option.splits)
  then have "(name, e) \<in> set ?new" by (auto dest: map_of_SomeD)
  then show ?thesis by (auto split: option.splits)
qed

lemma import_ops_sound:
  assumes "in_order (filter P (import_taken offered report)) = Inr names" "op \<in> set (import_ops (filter P (import_taken offered report)) names)"
  shows "file_sound report offered op"
proof -
  from assms(2) obtain name where name: "name \<in> set names"
    "op = (let e = the (map_of (filter P (import_taken offered report)) name) in Import (the (of_id e)) (the (of_artifact e)))"
    by (auto simp: import_ops_def)
  from in_order_held [OF assms(1) name(1)] obtain e where e: "map_of (filter P (import_taken offered report)) name = Some e" by blast
  then have "(name, e) \<in> set (import_taken offered report)" by (auto dest: map_of_SomeD)
  from files_named_held [OF this [unfolded import_taken_def]] e name(2) show ?thesis by (auto simp: file_sound_def left_out_of_def)
qed

definition directory_read :: "writing \<Rightarrow> directory \<Rightarrow> (string list \<Rightarrow> bool) \<Rightarrow> db \<Rightarrow> exn + checked_files \<times> offered list" where
  "directory_read w dir passed_over db =
     rbind (offers_offered (yaml_of (w_outside w)) dir passed_over) (examined (w_outside w) (sq_port (w_written w) db))"

definition import_lands :: "writing \<Rightarrow> directory \<Rightarrow> (string list \<Rightarrow> bool) \<Rightarrow> bool \<Rightarrow> db \<Rightarrow> checked_files \<Rightarrow> db \<Rightarrow> bool" where
  "import_lands w dir passed_over skip_errors db report db' \<longleftrightarrow> (\<exists>offered ops dr entries.
     directory_read w dir passed_over db = Inr (report, offered) \<and> files_differing offered = [] \<and>
     (ck_errors report = [] \<or> skip_errors) \<and> (\<forall>op \<in> set ops. file_sound report offered op) \<and>
     set_drafted (w_outside w) (sq_port (w_written w) db) ops = Inr dr \<and> land_set (df_handed dr) entries db = (Inr (), db'))"

lemma holding_import:
  assumes c: "holding db c" and l: "import_held w dir passed_over who skip_errors clock c = (r, c')"
  shows "c' = c \<or> (\<exists>report db'. r = Inr report \<and> c' = c \<lparr>k_open := Some db'\<rparr> \<and> import_lands w dir passed_over skip_errors db report db')"
proof -
  have v: "view c = db" using c by (simp add: holding_def view_def)
  let ?out = "w_outside w" and ?p = "sq_port (w_written w) db"
  show ?thesis
  proof (cases "directory_read w dir passed_over db")
    case (Inl e)
    with l v show ?thesis by (simp add: import_held_def directory_read_def Let_def)
  next
    case (Inr read)
    obtain report offered where read: "read = (report, offered)" by fastforce
    note body = l [unfolded import_held_def v Let_def, folded directory_read_def, unfolded Inr read, simplified]
    let ?taken = "import_taken offered report"
    let ?rest = "rbind (files_compared ?out ?p (map snd ?taken)) (\<lambda>found. rbind
      (in_order (filter (\<lambda>(name, _). name \<notin> cf_identical found) ?taken)) (\<lambda>names. Inr (filter (\<lambda>(name, _). name \<notin> cf_identical found) ?taken, names)))"
    consider "c' = c" | found :: compared_files and landing names where
      "files_differing offered = []" "ck_errors report = [] \<or> skip_errors" "landing = filter (\<lambda>(name, _). name \<notin> cf_identical found) ?taken"
      "in_order landing = Inr names" "(case write_land w alone (import_ops landing names) who clock c of
         (Inl r, c') \<Rightarrow> (Inl r, c') | (Inr _, c') \<Rightarrow> (Inr report, c')) = (r, c')"
    proof (cases ?rest)
      case (Inl e)
      with body have "c' = c" by (auto split: if_splits)
      then show ?thesis by (rule that(1))
    next
      case (Inr on)
      obtain landing names where on: "on = (landing, names)" by fastforce
      from rbind_pair [OF Inr [unfolded on]] obtain found :: compared_files where found:
        "landing = filter (\<lambda>(name, _). name \<notin> cf_identical found) ?taken" "in_order landing = Inr names" by blast
      show ?thesis
      proof (cases "files_differing offered = [] \<and> (ck_errors report = [] \<or> skip_errors) \<and> \<not> (?taken = [] \<and> \<not> any_sound offered report) \<and> landing \<noteq> []")
        case True
        with body Inr on found show ?thesis by (intro that(2) [of landing found names]) (auto split: if_splits)
      next
        case False
        with body Inr on have "c' = c" by (auto split: if_splits)
        then show ?thesis by (rule that(1))
      qed
    qed
    then show ?thesis
    proof cases
      case 2
      obtain s c2 where s: "write_land w alone (import_ops landing names) who clock c = (s, c2)" by fastforce
      note land = holding_land [OF c s]
      have sound: "\<forall>op \<in> set (import_ops landing names). file_sound report offered op"
        using import_ops_sound 2(3,4) by blast
      show ?thesis
      proof (cases s)
        case (Inl e)
        with land s 2(5) show ?thesis by simp
      next
        case (Inr x)
        with land obtain dr entries db' where "set_drafted ?out ?p (import_ops landing names) = Inr dr"
          "land_set (df_handed dr) entries db = (Inr (), db')" "c2 = c \<lparr>k_open := Some db'\<rparr>" by auto
        with 2 s Inr sound \<open>directory_read w dir passed_over db = Inr read\<close> read show ?thesis unfolding import_lands_def by fastforce
      qed
    qed simp
  qed
qed

text \<open>
  C5: an import leaves the store as it was, or lands one set of it: only files the check found no error on, skipped or
  not, and would not skip, read from the directory as the store stood when the set landed, and never when a file
  differs from what the store holds, nor, unless errors are skipped, when the check found any.
\<close>

theorem imported_whole_or_not:
  assumes "idle c" "import_directory w other dir passed_over who skip_errors clock c = (r, c')"
  shows "idle c' \<and> (k_committed c' = k_committed c \<or> (\<exists>report. r = Inr report \<and>
    import_lands w dir passed_over skip_errors (k_committed c) report (k_committed c')))"
proof -
  from assms(1) have i: "\<not> k_locked c" "k_open c = None" "k_saved c = []" by (simp_all add: idle_def)
  show ?thesis
  proof (cases other)
    case True
    with assms i show ?thesis by (simp add: import_directory_def exclusive_def)
  next
    case False
    let ?c = "(sql_begin c) \<lparr>k_locked := True\<rparr>"
    obtain s c2 where s: "import_held w dir passed_over who skip_errors clock ?c = (s, c2)" by fastforce
    have "holding (k_committed c) ?c" by (simp add: holding_def sql_begin_def)
    from holding_import [OF this s] show ?thesis
    proof
      assume "c2 = ?c"
      with s assms i False show ?thesis
        by (cases s) (auto simp: import_directory_def exclusive_def sql_begin_def sql_commit_def sql_rollback_def idle_def view_def)
    next
      assume "\<exists>report db'. s = Inr report \<and> c2 = ?c \<lparr>k_open := Some db'\<rparr> \<and> import_lands w dir passed_over skip_errors (k_committed c) report db'"
      with s assms i False show ?thesis
        by (auto simp: import_directory_def exclusive_def sql_begin_def sql_commit_def idle_def view_def)
    qed
  qed
qed

section \<open>A directory refused\<close>

definition bad_directory :: directory where
  "bad_directory = \<lparr>dy_named = ''d'', dy_is_dir = True, dy_files = [([''a.io'', ''t'', ''x.yaml''], Not_utf8)]\<rparr>"

definition bad_imported :: "(refusal + checked_files) \<times> conn" where
  "bad_imported = import_directory plain_writing False bad_directory (\<lambda>_. False) remover False (\<lambda>_. Inr 0) (opened_db notes_db)"

lemma bad_imported_answer: "(case fst bad_imported of Inl _ \<Rightarrow> False | Inr report \<Rightarrow>
    ck_faults report = [check_failed 1] \<and> map fault_artifact (ck_errors report) = [''a.io/t/x.yaml''])"
  by code_simp

theorem imported_whole_or_not_witness:
  "\<exists>report c'. bad_imported = (Inr report, c') \<and> ck_faults report = [check_failed 1] \<and> idle c' \<and> k_committed c' = notes_db"
proof -
  obtain r c' where r: "bad_imported = (r, c')" by fastforce
  from bad_imported_answer [unfolded r fst_conv] obtain report where report: "bad_imported = (Inr report, c')"
    "ck_faults report = [check_failed 1]" "ck_errors report \<noteq> []" using r by (cases r) auto
  have start: "k_committed (opened_db notes_db) = notes_db" by (simp add: opened_db_def)
  have "\<not> import_lands plain_writing bad_directory (\<lambda>_. False) False notes_db report db'" for db'
    using report(3) by (simp add: import_lands_def)
  with imported_whole_or_not [OF notes_idle report(1) [unfolded bad_imported_def]] report start show ?thesis by auto
qed

end
