(* ===== verification/KB_Query.thy ===== *)
theory KB_Query
  imports KB_Examining KB_Requests
begin

text \<open>
  \<open>query.py\<close>'s \<open>walk\<close>, with the stub of \<open>read.py\<close> every query gives: what an artifact's links reach, out of it or into it, a
  step at a time. A message of the contract is a record of its fields; what is read is a port's reads.
\<close>

section \<open>An artifact in brief\<close>

record stub_read =
  sb_field :: string
  sb_id :: string
  sb_type :: val
  sb_title :: val
  sb_fields :: string
  sb_not_held :: bool

definition summary_fields :: "obj \<Rightarrow> declares \<Rightarrow> obj" where
  "summary_fields found d = concat (map (\<lambda>name. case name of
     VStr s \<Rightarrow> (case dget found s of Some v \<Rightarrow> [(KText s, v)] | None \<Rightarrow> []) | _ \<Rightarrow> []) (d_summary d))"

definition content_dumps :: "yaml \<Rightarrow> obj \<Rightarrow> exn + string" where
  "content_dumps y m = plain_raised (canonical_dump y m)"

definition shown_of :: "nat \<Rightarrow> corpus \<Rightarrow> obj \<Rightarrow> exn + declares" where
  "shown_of n c m = rbind (artifact_schema m c) (\<lambda>typed. rbind (schema_of typed) (\<lambda>schema. declared n schema c))"

definition field_read :: "obj \<Rightarrow> string \<Rightarrow> exn + val" where
  "field_read m k = (case dget m k of None \<Rightarrow> Inl (KeyError k) | Some v \<Rightarrow> Inr v)"

definition stub_of :: "yaml \<Rightarrow> string \<Rightarrow> obj \<Rightarrow> declares \<Rightarrow> exn + stub_read" where
  "stub_of y field m shown = rbind (str_field m ''id'') (\<lambda>name. rbind (field_read m ''type'') (\<lambda>typed. rbind (field_read m ''title'') (\<lambda>title.
     rbind (content_dumps y (summary_fields m shown)) (\<lambda>fields.
     Inr \<lparr>sb_field = field, sb_id = name, sb_type = typed, sb_title = title, sb_fields = fields, sb_not_held = False\<rparr>))))"

definition read_stub :: "nat \<Rightarrow> yaml \<Rightarrow> corpus \<Rightarrow> string \<Rightarrow> artifact_id \<Rightarrow> exn + stub_read" where
  "read_stub n y c field a =
     (if \<not> c_holds c a then Inr \<lparr>sb_field = field, sb_id = iri_of a, sb_type = VStr [], sb_title = VStr [], sb_fields = [], sb_not_held = True\<rparr>
      else rbind (corpus_artifact c a) (\<lambda>m. rbind (shown_of n c m) (stub_of y field m)))"

section \<open>The walk\<close>

record hop =
  hp_field :: string
  hp_id :: string

record reached =
  re_stub :: stub_read
  re_route :: "hop list"

definition query_outward :: "nat \<Rightarrow> corpus \<Rightarrow> locator \<Rightarrow> exn + (string \<times> artifact_id) list" where
  "query_outward n c l = rbind (corpus_artifact c (loc_id l)) (\<lambda>m. rbind (artifact_schema m c) (\<lambda>typed. rbind (schema_of typed) (\<lambda>schema.
     rbind (if loc_place l = [] then Inr None else rbind (resolve m l) (\<lambda>spot. Inr (Some spot))) (\<lambda>node.
     rbind (inside n m schema c node) (\<lambda>found.
     rall (map (\<lambda>lk. rbind (target_of (lk_target lk)) (\<lambda>t. Inr (lk_field lk, loc_id t))) found))))))"

definition query_inward :: "port_reads \<Rightarrow> locator \<Rightarrow> (string \<times> artifact_id) list" where
  "query_inward p l = map (\<lambda>each. (ln_field each, ln_source each)) (p_links_in p (loc_id l))"

definition walk_step :: "nat \<Rightarrow> port_reads \<Rightarrow> walk_asked \<Rightarrow> locator \<Rightarrow> exn + (string \<times> artifact_id) list" where
  "walk_step n p asked l = (if wa_inward asked then Inr (query_inward p l) else query_outward n (p_corpus p) l)"

definition narrowed_to :: "corpus \<Rightarrow> walk_asked \<Rightarrow> artifact_id \<Rightarrow> bool \<Rightarrow> exn + bool" where
  "narrowed_to c asked a held =
     rbind (case wa_kind asked of None \<Rightarrow> Inr True
            | Some k \<Rightarrow> if \<not> held then Inr False else rbind (kind_of a c) (\<lambda>found. Inr (found = k))) (\<lambda>fits.
     if \<not> fits then Inr False
     else case wa_path asked of
       None \<Rightarrow> Inr True
     | Some path \<Rightarrow> rbind (if held then rbind (kind_of a c) (\<lambda>k. Inr (Some (kind_name k)))
                          else rbind (nearest_type a c) (\<lambda>t. Inr (map_option iri_of t))) (\<lambda>type_id. case type_id of
         None \<Rightarrow> Inr False | Some t \<Rightarrow> Inr (selects (below_segments path) (iri_of a) t)))"

type_synonym walking = "reached list \<times> string set \<times> (locator \<times> hop list) list"

text \<open>The steps out of one place reached, those of a round, and the rounds.\<close>

fun walk_links :: "nat \<Rightarrow> yaml \<Rightarrow> port_reads \<Rightarrow> walk_asked \<Rightarrow> hop list \<Rightarrow> (string \<times> artifact_id) list \<Rightarrow> walking \<Rightarrow> exn + walking" where
  "walk_links n y p asked route [] state = Inr state"
| "walk_links n y p asked route ((field, other) # rest) (found, seen, following) =
     (if iri_of other \<in> seen \<or> wa_via asked \<noteq> [] \<and> field \<noteq> wa_via asked then walk_links n y p asked route rest (found, seen, following)
      else let held = c_holds (p_corpus p) other in
        rbind (narrowed_to (p_corpus p) asked other held) (\<lambda>fits.
        if \<not> fits then walk_links n y p asked route rest (found, seen, following)
        else let taken = route @ [\<lparr>hp_field = field, hp_id = iri_of other\<rparr>] in
          rbind (read_stub n y (p_corpus p) field other) (\<lambda>stub.
          walk_links n y p asked route rest (found @ [\<lparr>re_stub = stub, re_route = taken\<rparr>], insert (iri_of other) seen,
            if held then following @ [(Locator other [], taken)] else following))))"

fun walk_round :: "nat \<Rightarrow> yaml \<Rightarrow> port_reads \<Rightarrow> walk_asked \<Rightarrow> (locator \<times> hop list) list \<Rightarrow> walking \<Rightarrow> exn + walking" where
  "walk_round n y p asked [] state = Inr state"
| "walk_round n y p asked ((l, route) # frontier) state =
     rbind (walk_step n p asked l) (\<lambda>links. rbind (walk_links n y p asked route links state) (walk_round n y p asked frontier))"

fun walk_rounds :: "nat \<Rightarrow> yaml \<Rightarrow> port_reads \<Rightarrow> walk_asked \<Rightarrow> nat \<Rightarrow> walking \<Rightarrow> exn + walking" where
  "walk_rounds n y p asked 0 state = Inr state"
| "walk_rounds n y p asked (Suc depth) (found, seen, frontier) =
     rbind (walk_round n y p asked frontier (found, seen, [])) (walk_rounds n y p asked depth)"

definition query_walk :: "nat \<Rightarrow> yaml \<Rightarrow> port_reads \<Rightarrow> walk_asked \<Rightarrow> exn + reached list" where
  "query_walk n y p asked =
     rbind (case wa_kind asked of None \<Rightarrow> Inr () | Some k \<Rightarrow> rbind (kind_type k (p_corpus p)) (\<lambda>_. Inr ())) (\<lambda>_.
     let start = loc_id (wa_locator asked) in
     if \<not> c_holds (p_corpus p) start then Inl (Refused [not_found start])
     else rbind (walk_rounds n y p asked (wa_depth asked) ([], {iri_of start}, [(wa_locator asked, [])])) (\<lambda>(found, _, _). Inr found))"

section \<open>The routes a walk may take\<close>

text \<open>A step it may take: by a link there, of the field asked for, to what the walk is narrowed to.\<close>

definition may_step :: "nat \<Rightarrow> port_reads \<Rightarrow> walk_asked \<Rightarrow> locator \<Rightarrow> hop \<Rightarrow> bool" where
  "may_step n p asked l h \<longleftrightarrow> (\<exists>links. walk_step n p asked l = Inr links \<and> (hp_field h, ArtifactId (hp_id h)) \<in> set links) \<and>
     (wa_via asked = [] \<or> hp_field h = wa_via asked) \<and>
     narrowed_to (p_corpus p) asked (ArtifactId (hp_id h)) (c_holds (p_corpus p) (ArtifactId (hp_id h))) = Inr True"

text \<open>A route of such steps, through artifacts held, never back at the artifact asked about; written last step first.\<close>

fun walked :: "nat \<Rightarrow> port_reads \<Rightarrow> walk_asked \<Rightarrow> hop list \<Rightarrow> bool" where
  "walked n p asked [] \<longleftrightarrow> True"
| "walked n p asked (h # back_hops) \<longleftrightarrow> walked n p asked back_hops \<and> hp_id h \<noteq> iri_of (loc_id (wa_locator asked)) \<and>
     (case back_hops of [] \<Rightarrow> may_step n p asked (wa_locator asked) h
      | g # _ \<Rightarrow> c_holds (p_corpus p) (ArtifactId (hp_id g)) \<and> may_step n p asked (Locator (ArtifactId (hp_id g)) []) h)"

definition route_to :: "nat \<Rightarrow> port_reads \<Rightarrow> walk_asked \<Rightarrow> hop list \<Rightarrow> string \<Rightarrow> bool" where
  "route_to n p asked route x \<longleftrightarrow> walked n p asked (rev route) \<and> route \<noteq> [] \<and> hp_id (last route) = x"

definition may_reach :: "port_reads \<Rightarrow> walk_asked \<Rightarrow> hop \<Rightarrow> bool" where
  "may_reach p asked h \<longleftrightarrow> (wa_via asked = [] \<or> hp_field h = wa_via asked) \<and>
     narrowed_to (p_corpus p) asked (ArtifactId (hp_id h)) (c_holds (p_corpus p) (ArtifactId (hp_id h))) = Inr True"

definition end_of :: "reached \<Rightarrow> string" where
  "end_of r = hp_id (last (re_route r))"

definition onward :: "port_reads \<Rightarrow> reached list \<Rightarrow> (locator \<times> hop list) list" where
  "onward p new = map (\<lambda>r. (Locator (ArtifactId (end_of r)) [], re_route r)) (filter (\<lambda>r. c_holds (p_corpus p) (ArtifactId (end_of r))) new)"

text \<open>What some steps add to what a walk has reached.\<close>

definition walk_adds :: "port_reads \<Rightarrow> walking \<Rightarrow> reached list \<Rightarrow> walking \<Rightarrow> bool" where
  "walk_adds p s new s' \<longleftrightarrow> (case (s, s') of ((found, seen, following), (found', seen', following')) \<Rightarrow>
     found' = found @ new \<and> seen' = seen \<union> end_of ` set new \<and> following' = following @ onward p new \<and>
     distinct (map end_of new) \<and> end_of ` set new \<inter> seen = {})"

lemma walk_adds_none: "walk_adds p s [] s"
  by (simp add: walk_adds_def onward_def split: prod.split)

lemma walk_adds_more: "walk_adds p s new s' \<Longrightarrow> walk_adds p s' new' s'' \<Longrightarrow> walk_adds p s (new @ new') s''"
  by (cases s; cases s'; cases s'') (auto simp: walk_adds_def onward_def)

lemma walk_links_adds:
  assumes "walk_links n y p asked route links s = Inr s'"
  shows "\<exists>new. walk_adds p s new s' \<and>
    (\<forall>r \<in> set new. \<exists>h. re_route r = route @ [h] \<and> (hp_field h, ArtifactId (hp_id h)) \<in> set links \<and> may_reach p asked h) \<and>
    (\<forall>h. (hp_field h, ArtifactId (hp_id h)) \<in> set links \<and> may_reach p asked h \<longrightarrow> hp_id h \<in> fst (snd s'))"
  using assms
proof (induction links arbitrary: s)
  case Nil
  then have "s' = s" by simp
  with walk_adds_none [of p s] show ?case by (intro exI [of _ "[]"]) simp
next
  case (Cons link links)
  obtain field other where link: "link = (field, other)" by fastforce
  obtain found seen following where s: "s = (found, seen, following)" by (cases s) auto
  let ?h = "\<lparr>hp_field = field, hp_id = iri_of other\<rparr>" and ?held = "c_holds (p_corpus p) other"
  have only: "h = ?h" if "(hp_field h, ArtifactId (hp_id h)) = (field, other)" for h :: hop using that by auto
  show ?case
  proof (cases "iri_of other \<in> seen \<or> \<not> may_reach p asked ?h")
    case True
    have "walk_links n y p asked route links s = Inr s'"
    proof (cases "iri_of other \<in> seen \<or> wa_via asked \<noteq> [] \<and> field \<noteq> wa_via asked")
      case True
      with Cons.prems link s show ?thesis by simp
    next
      case False
      with True have "narrowed_to (p_corpus p) asked other ?held \<noteq> Inr True" by (auto simp: may_reach_def)
      with False Cons.prems link s show ?thesis by (auto simp: rbind_Inr_iff Let_def split: if_splits)
    qed
    from Cons.IH [OF this] obtain new where new: "walk_adds p s new s'"
      "\<forall>r \<in> set new. \<exists>h. re_route r = route @ [h] \<and> (hp_field h, ArtifactId (hp_id h)) \<in> set links \<and> may_reach p asked h"
      "\<forall>h. (hp_field h, ArtifactId (hp_id h)) \<in> set links \<and> may_reach p asked h \<longrightarrow> hp_id h \<in> fst (snd s')" by blast
    moreover have "seen \<subseteq> fst (snd s')" using new(1) s by (cases s') (auto simp: walk_adds_def)
    ultimately show ?thesis using True only link by (intro exI [of _ new]) fastforce
  next
    case False
    then have fits: "iri_of other \<notin> seen" "may_reach p asked ?h" by simp_all
    with Cons.prems link s obtain stub where rest: "walk_links n y p asked route links (found @ [\<lparr>re_stub = stub, re_route = route @ [?h]\<rparr>],
        insert (iri_of other) seen, if ?held then following @ [(Locator other [], route @ [?h])] else following) = Inr s'" (is "walk_links n y p asked route links ?s = Inr s'")
      by (auto simp: may_reach_def rbind_Inr_iff Let_def)
    let ?r = "\<lparr>re_stub = stub, re_route = route @ [?h]\<rparr>"
    have one: "walk_adds p s [?r] ?s" using fits s by (simp add: walk_adds_def onward_def end_of_def)
    from Cons.IH [OF rest] obtain new where new: "walk_adds p ?s new s'"
      "\<forall>r \<in> set new. \<exists>h. re_route r = route @ [h] \<and> (hp_field h, ArtifactId (hp_id h)) \<in> set links \<and> may_reach p asked h"
      "\<forall>h. (hp_field h, ArtifactId (hp_id h)) \<in> set links \<and> may_reach p asked h \<longrightarrow> hp_id h \<in> fst (snd s')" by blast
    have "iri_of other \<in> fst (snd s')" using new(1) by (cases s') (simp add: walk_adds_def)
    then show ?thesis using walk_adds_more [OF one new(1)] new(2,3) fits only link by (intro exI [of _ "?r # new"]) fastforce
  qed
qed

lemma may_step_reach: "walk_step n p asked l = Inr links \<Longrightarrow>
    may_step n p asked l h \<longleftrightarrow> (hp_field h, ArtifactId (hp_id h)) \<in> set links \<and> may_reach p asked h"
  by (auto simp: may_step_def may_reach_def)

lemma walk_round_adds:
  assumes "walk_round n y p asked frontier s = Inr s'"
  shows "\<exists>new. walk_adds p s new s' \<and>
    (\<forall>r \<in> set new. \<exists>l route h. (l, route) \<in> set frontier \<and> re_route r = route @ [h] \<and> may_step n p asked l h) \<and>
    (\<forall>l route h. (l, route) \<in> set frontier \<and> may_step n p asked l h \<longrightarrow> hp_id h \<in> fst (snd s'))"
  using assms
proof (induction frontier arbitrary: s)
  case Nil
  then have "s' = s" by simp
  with walk_adds_none [of p s] show ?case by (intro exI [of _ "[]"]) simp
next
  case (Cons at frontier)
  obtain l route where at: "at = (l, route)" by fastforce
  from Cons.prems at obtain links s1 where links: "walk_step n p asked l = Inr links"
    and one: "walk_links n y p asked route links s = Inr s1" and rest: "walk_round n y p asked frontier s1 = Inr s'"
    by (auto simp: rbind_Inr_iff)
  note step = may_step_reach [OF links]
  from walk_links_adds [OF one] obtain new where new: "walk_adds p s new s1"
    "\<forall>r \<in> set new. \<exists>h. re_route r = route @ [h] \<and> may_step n p asked l h"
    "\<forall>h. may_step n p asked l h \<longrightarrow> hp_id h \<in> fst (snd s1)" unfolding step by blast
  from Cons.IH [OF rest] obtain more_new where more_new: "walk_adds p s1 more_new s'"
    "\<forall>r \<in> set more_new. \<exists>l route h. (l, route) \<in> set frontier \<and> re_route r = route @ [h] \<and> may_step n p asked l h"
    "\<forall>l route h. (l, route) \<in> set frontier \<and> may_step n p asked l h \<longrightarrow> hp_id h \<in> fst (snd s')" by blast
  have grows: "fst (snd s1) \<subseteq> fst (snd s')" using more_new(1) by (cases s1; cases s') (auto simp: walk_adds_def)
  have first: "(l, route) \<in> set (at # frontier)" using at by simp
  have rests: "x \<in> set frontier \<Longrightarrow> x \<in> set (at # frontier)" for x by simp
  have "\<exists>l route h. (l, route) \<in> set (at # frontier) \<and> re_route r = route @ [h] \<and> may_step n p asked l h" if "r \<in> set (new @ more_new)" for r
  proof (cases "r \<in> set new")
    case True
    with new(2) first show ?thesis by blast
  next
    case False
    with that have "r \<in> set more_new" by simp
    with more_new(2) rests show ?thesis by blast
  qed
  moreover have "hp_id h \<in> fst (snd s')" if "(l', route') \<in> set (at # frontier)" "may_step n p asked l' h" for l' route' h
  proof (cases "(l', route') = at")
    case True
    with that(2) new(3) grows at show ?thesis by blast
  next
    case False
    with that(1) have "(l', route') \<in> set frontier" by simp
    with that(2) more_new(3) show ?thesis by blast
  qed
  ultimately show ?case using walk_adds_more [OF new(1) more_new(1)] by blast
qed

section \<open>Each reached once, by the shortest route\<close>

definition walk_inv :: "nat \<Rightarrow> port_reads \<Rightarrow> walk_asked \<Rightarrow> nat \<Rightarrow> walking \<Rightarrow> bool" where
  "walk_inv n p asked k s \<longleftrightarrow> (case s of (found, seen, frontier) \<Rightarrow>
     seen = insert (iri_of (loc_id (wa_locator asked))) (end_of ` set found) \<and> distinct (map end_of found) \<and>
     (\<forall>r \<in> set found. walked n p asked (rev (re_route r)) \<and> re_route r \<noteq> [] \<and> length (re_route r) \<le> k \<and>
        end_of r \<noteq> iri_of (loc_id (wa_locator asked))) \<and>
     frontier = (if k = 0 then [(wa_locator asked, [])] else onward p (filter (\<lambda>r. length (re_route r) = k) found)) \<and>
     (\<forall>hs. walked n p asked hs \<and> hs \<noteq> [] \<and> length hs \<le> k \<longrightarrow>
        (\<exists>r \<in> set found. end_of r = hp_id (hd hs) \<and> length (re_route r) \<le> length hs)))"

lemma walk_inv_start: "walk_inv n p asked 0 ([], {iri_of (loc_id (wa_locator asked))}, [(wa_locator asked, [])])"
  by (simp add: walk_inv_def)

lemma onward_filter: "onward p (filter P new) = map (\<lambda>r. (Locator (ArtifactId (end_of r)) [], re_route r))
    (filter (\<lambda>r. P r \<and> c_holds (p_corpus p) (ArtifactId (end_of r))) new)"
  by (simp add: onward_def conj_commute)

lemma last_rev_hd: "hs \<noteq> [] \<Longrightarrow> last (rev hs) = hd hs"
  by (cases hs) simp_all

text \<open>A step from what the frontier holds extends the route there.\<close>

lemma frontier_walked:
  assumes "walk_inv n p asked k (found, seen, frontier)" "(l, route) \<in> set frontier" "may_step n p asked l h"
    and "hp_id h \<noteq> iri_of (loc_id (wa_locator asked))"
  shows "walked n p asked (rev (route @ [h])) \<and> length route = k"
proof (cases "k = 0")
  case True
  with assms show ?thesis by (auto simp: walk_inv_def)
next
  case False
  with assms(1,2) obtain r where r: "r \<in> set found" "length (re_route r) = k" "c_holds (p_corpus p) (ArtifactId (end_of r))"
    "l = Locator (ArtifactId (end_of r)) []" "route = re_route r" by (auto simp: walk_inv_def onward_filter)
  with assms(1) have w: "walked n p asked (rev route)" "route \<noteq> []" by (auto simp: walk_inv_def)
  then obtain g back_hops where "rev route = g # back_hops" by (cases "rev route") auto
  moreover from this have "hp_id g = end_of r" using r(5) last_rev_hd [of "rev route"] by (simp add: end_of_def)
  ultimately show ?thesis using w assms(3,4) r by simp
qed

lemma walk_inv_round:
  assumes inv: "walk_inv n p asked k (found, seen, frontier)"
    and round: "walk_round n y p asked frontier (found, seen, []) = Inr s'"
  shows "walk_inv n p asked (Suc k) s'"
proof -
  let ?start = "iri_of (loc_id (wa_locator asked))"
  from walk_round_adds [OF round] obtain new where new: "walk_adds p (found, seen, []) new s'"
    "\<forall>r \<in> set new. \<exists>l route h. (l, route) \<in> set frontier \<and> re_route r = route @ [h] \<and> may_step n p asked l h"
    "\<forall>l route h. (l, route) \<in> set frontier \<and> may_step n p asked l h \<longrightarrow> hp_id h \<in> fst (snd s')" by blast
  from new(1) have s': "s' = (found @ new, seen \<union> end_of ` set new, onward p new)" "distinct (map end_of new)" "end_of ` set new \<inter> seen = {}"
    by (cases s'; simp add: walk_adds_def)+
  from inv have i: "seen = insert ?start (end_of ` set found)" "distinct (map end_of found)"
    "\<forall>r \<in> set found. walked n p asked (rev (re_route r)) \<and> re_route r \<noteq> [] \<and> length (re_route r) \<le> k \<and> end_of r \<noteq> ?start"
    "frontier = (if k = 0 then [(wa_locator asked, [])] else onward p (filter (\<lambda>r. length (re_route r) = k) found))"
    "\<forall>hs. walked n p asked hs \<and> hs \<noteq> [] \<and> length hs \<le> k \<longrightarrow> (\<exists>r \<in> set found. end_of r = hp_id (hd hs) \<and> length (re_route r) \<le> length hs)"
    by (simp_all add: walk_inv_def)
  have fresh: "walked n p asked (rev (re_route r)) \<and> re_route r \<noteq> [] \<and> length (re_route r) = Suc k \<and> end_of r \<noteq> ?start" if "r \<in> set new" for r
  proof -
    from new(2) that obtain l route h where h: "(l, route) \<in> set frontier" "re_route r = route @ [h]" "may_step n p asked l h" by blast
    have "end_of r \<in> end_of ` set new" using that by simp
    with s'(3) i(1) have off: "end_of r \<noteq> ?start" by auto
    moreover have "hp_id h = end_of r" using h(2) by (simp add: end_of_def)
    ultimately show ?thesis using frontier_walked [OF inv h(1,3)] h(2) by simp
  qed
  have reached: "\<exists>r \<in> set (found @ new). end_of r = hp_id (hd hs) \<and> length (re_route r) \<le> length hs"
    if hs: "walked n p asked hs" "hs \<noteq> []" "length hs \<le> Suc k" for hs
  proof (cases "length hs \<le> k")
    case True
    with i(5) hs show ?thesis by fastforce
  next
    case False
    with hs(3) have len: "length hs = Suc k" by simp
    obtain h back_hops where h: "hs = h # back_hops" using hs(2) by (cases hs) auto
    have off: "hp_id h \<noteq> ?start" using hs(1) h by simp
    have ends: ?thesis if "hp_id h \<in> fst (snd s')"
    proof -
      from that off s'(1) i(1) have "hp_id h \<in> end_of ` set (found @ new)" by auto
      then obtain r where "r \<in> set (found @ new)" "end_of r = hp_id h" by (metis imageE)
      moreover from this fresh i(3) have "length (re_route r) \<le> Suc k" by fastforce
      ultimately show ?thesis using h len by auto
    qed
    show ?thesis
    proof (cases back_hops)
      case Nil
      with h len have "k = 0" by simp
      moreover have "may_step n p asked (wa_locator asked) h" using hs(1) h Nil by simp
      ultimately have "hp_id h \<in> fst (snd s')" using new(3) i(4) by (auto simp del: split_paired_All)
      then show ?thesis by (rule ends)
    next
      case (Cons g others)
      with hs(1) h have g: "walked n p asked back_hops" "c_holds (p_corpus p) (ArtifactId (hp_id g))"
        "may_step n p asked (Locator (ArtifactId (hp_id g)) []) h" by simp_all
      from i(5) g(1) h len Cons obtain r where r: "r \<in> set found" "end_of r = hp_id g" "length (re_route r) \<le> k" by fastforce
      show ?thesis
      proof (cases "length (re_route r) = k")
        case True
        have "k \<noteq> 0" using h len Cons by simp
        with i(4) r(1,2) True g(2) have "(Locator (ArtifactId (hp_id g)) [], re_route r) \<in> set frontier"
          by (auto simp: onward_filter intro!: image_eqI [where x = r])
        with new(3) g(3) have "hp_id h \<in> fst (snd s')" by blast
        then show ?thesis by (rule ends)
      next
        case False
        from i(3) r(1) have w: "walked n p asked (rev (re_route r))" "re_route r \<noteq> []" by auto
        then obtain e tail where e: "rev (re_route r) = e # tail" by (cases "rev (re_route r)") auto
        then have "hp_id e = hp_id g" using r(2) last_rev_hd [of "rev (re_route r)"] by (simp add: end_of_def)
        with w e g off have "walked n p asked (h # rev (re_route r))" by simp
        with i(5) False r(3) obtain r' where "r' \<in> set found" "end_of r' = hp_id h" "length (re_route r') \<le> Suc (length (re_route r))"
          by fastforce
        with False r(3) h len show ?thesis by (intro bexI [of _ r']) auto
      qed
    qed
  qed
  have "filter (\<lambda>r. length (re_route r) = Suc k) (found @ new) = new" using i(3) fresh by (fastforce simp: filter_empty_conv filter_id_conv)
  then show ?thesis unfolding s'(1) walk_inv_def using i(1-3) s'(2,3) fresh reached by (fastforce simp: image_Un)
qed

lemma walk_inv_rounds: "walk_inv n p asked k s \<Longrightarrow> walk_rounds n y p asked depth s = Inr s' \<Longrightarrow> walk_inv n p asked (k + depth) s'"
proof (induction depth arbitrary: k s)
  case (Suc depth)
  obtain found seen frontier where s: "s = (found, seen, frontier)" by (cases s) auto
  with Suc.prems(2) obtain s1 where one: "walk_round n y p asked frontier (found, seen, []) = Inr s1"
    "walk_rounds n y p asked depth s1 = Inr s'" by (auto simp: rbind_Inr_iff)
  from Suc.IH [OF walk_inv_round [OF Suc.prems(1) [unfolded s] one(1)] one(2)] show ?case by simp
qed simp

text \<open>
  C31: a walk gives each artifact its steps reach once, never the one asked about, each by a route of links it may follow
  no longer than the depth asked; and whatever such a route reaches it gives, by one at least as short.
\<close>

theorem walk_shortest:
  assumes "query_walk n y p asked = Inr found"
  shows "distinct (map end_of found) \<and>
    (\<forall>r \<in> set found. end_of r \<noteq> iri_of (loc_id (wa_locator asked)) \<and> length (re_route r) \<le> wa_depth asked \<and>
       route_to n p asked (re_route r) (end_of r)) \<and>
    (\<forall>route x. route_to n p asked route x \<and> length route \<le> wa_depth asked \<longrightarrow>
       (\<exists>r \<in> set found. end_of r = x \<and> length (re_route r) \<le> length route))"
proof -
  from assms obtain seen frontier where
    "walk_rounds n y p asked (wa_depth asked) ([], {iri_of (loc_id (wa_locator asked))}, [(wa_locator asked, [])]) = Inr (found, seen, frontier)"
    by (auto simp: query_walk_def rbind_Inr_iff Let_def split: if_splits)
  from walk_inv_rounds [OF walk_inv_start this] have inv: "walk_inv n p asked (wa_depth asked) (found, seen, frontier)" by simp
  have "\<exists>r \<in> set found. end_of r = x \<and> length (re_route r) \<le> length route"
    if "route_to n p asked route x" "length route \<le> wa_depth asked" for route x
  proof -
    from that have "walked n p asked (rev route)" "rev route \<noteq> []" "length (rev route) \<le> wa_depth asked" "hp_id (hd (rev route)) = x"
      by (auto simp: route_to_def hd_rev)
    with inv show ?thesis by (fastforce simp: walk_inv_def)
  qed
  with inv show ?thesis by (auto simp: walk_inv_def route_to_def end_of_def)
qed

text \<open>Two notes, the second linking to the first, walked into from the first.\<close>

definition notes_corpus :: corpus where
  "notes_corpus = \<lparr>c_holds = (\<lambda>a. iri_of a \<in> {''https://a.io/n/a'', ''https://a.io/n/b'', ''https://a.io/n''}),
     c_artifact = (\<lambda>a. Some (note_of (iri_of a) (if iri_of a = ''https://a.io/n'' then ''https://missingmass.io/kb/type@1'' else ''https://a.io/n@1''))),
     c_type_version = (\<lambda>v. Some \<lparr>tv_version = v, tv_content = [(KText ''schema'', VMap [])], tv_revision = 1, tv_title = ''N''\<rparr>),
     c_versions = (\<lambda>_. [1]), c_ids = (\<lambda>_. [])\<rparr>"

definition notes_port :: port_reads where
  "notes_port = \<lparr>p_corpus = notes_corpus, p_links_in = (\<lambda>a. if iri_of a = ''https://a.io/n/a'' then [\<lparr>ln_source = ArtifactId ''https://a.io/n/b'',
     ln_field = ''f'', ln_place = ''f'', ln_target = a, ln_part = [], ln_holder = Some []\<rparr>] else []), p_waiting = (\<lambda>_. [])\<rparr>"

definition notes_asked :: walk_asked where
  "notes_asked = \<lparr>wa_locator = Locator (ArtifactId ''https://a.io/n/a'') [], wa_kind = None, wa_depth = 2, wa_via = [],
     wa_inward = True, wa_path = None\<rparr>"

theorem walk_shortest_witness:
  "\<exists>found. query_walk 2 plain_yaml notes_port notes_asked = Inr found \<and> map end_of found = [''https://a.io/n/b''] \<and> distinct (map end_of found)"
proof -
  have "(case query_walk 2 plain_yaml notes_port notes_asked of Inl _ \<Rightarrow> False | Inr found \<Rightarrow> map end_of found = [''https://a.io/n/b''])"
    by code_simp
  then obtain found where found: "query_walk 2 plain_yaml notes_port notes_asked = Inr found" "map end_of found = [''https://a.io/n/b'']"
    by (cases "query_walk 2 plain_yaml notes_port notes_asked") (simp_all only: sum.case)
  have "distinct (map end_of found)" by (rule conjunct1 [OF walk_shortest [OF found(1)]])
  from found this show ?thesis by (intro exI conjI)
qed

end
