(* ===== verification/KB_Reading.thy ===== *)
theory KB_Reading
  imports KB_Query
begin

text \<open>
  \<open>read.py\<close>, \<open>parts.py\<close> and \<open>versions.py\<close>: an artifact read at the level asked, and \<open>query.py\<close>'s placeholders. A message of
  the contract is a record of its fields; content crosses as canonical text. The artifacts filled in are an association
  list in the order they were first given; the fields of a node are filled in the order its links are found.
\<close>

section \<open>The node read\<close>

record node_read =
  nr_found :: obj
  nr_node :: obj
  nr_whole :: bool
  nr_declared :: declares
  nr_links :: "link list"
  nr_holder :: string

text \<open>\<open>parts.node\<close>: whether it gives the artifact itself (\<open>is found\<close>), and what it gives.\<close>

definition parts_whole :: "obj \<Rightarrow> locator \<Rightarrow> exn + bool \<times> obj" where
  "parts_whole found l = rbind (if loc_place l = [] then Inr False else holds_part found (loc_place l)) (\<lambda>names_part.
     if \<not> names_part then Inr (True, found)
     else rbind (places_node found l) (\<lambda>v. case v of VMap m \<Rightarrow> Inr (False, m) | _ \<Rightarrow> Inl AttributeError))"

definition parts_read :: "nat \<Rightarrow> corpus \<Rightarrow> obj \<Rightarrow> locator \<Rightarrow> exn + node_read" where
  "parts_read n c found l = rbind (artifact_schema found c) (\<lambda>typed. rbind (schema_of typed) (\<lambda>schema.
     rbind (declared n schema c) (\<lambda>d. rbind (parts_whole found l) (\<lambda>(whole, node).
     if whole then rbind (carried n found schema c) (\<lambda>links.
       Inr \<lparr>nr_found = found, nr_node = found, nr_whole = True, nr_declared = d, nr_links = links, nr_holder = []\<rparr>)
     else rbind (declared_at n d (loc_place l) c) (\<lambda>d. rbind (resolve found l) (\<lambda>spot.
       rbind (inside n found schema c (Some spot)) (\<lambda>links.
       Inr \<lparr>nr_found = found, nr_node = node, nr_whole = False, nr_declared = d, nr_links = links,
         nr_holder = names_placed (loc_place l)\<rparr>)))))))"

definition glance :: "node_read \<Rightarrow> obj" where
  "glance r = (if nr_whole r then summary_fields (nr_found r) (nr_declared r)
     else concat (map (\<lambda>k. case dget (nr_node r) k of Some v \<Rightarrow> [(KText k, v)] | None \<Rightarrow> []) [''id'', ''title'']))"

section \<open>Placeholders\<close>

record placed_link =
  pl_artifact :: string
  pl_field :: string
  pl_place :: string
  pl_part :: string

type_synonym placeholder = "string \<times> placed_link list"

text \<open>\<open>itertools.groupby\<close>: the runs of one key.\<close>

fun runs_of :: "('a \<Rightarrow> string) \<Rightarrow> 'a list \<Rightarrow> (string \<times> 'a list) list" where
  "runs_of key [] = []"
| "runs_of key (x # xs) = (case runs_of key xs of
     (k, ys) # rest \<Rightarrow> if k = key x then (k, x # ys) # rest else (key x, [x]) # (k, ys) # rest
   | [] \<Rightarrow> [(key x, [x])])"

definition placeholders_of :: "linking list \<Rightarrow> placeholder list" where
  "placeholders_of waiting = map (\<lambda>(name, into). (name, map (\<lambda>l.
     \<lparr>pl_artifact = iri_of (ln_source l), pl_field = ln_field l, pl_place = ln_place l, pl_part = ln_part l\<rparr>) into))
     (runs_of (\<lambda>l. iri_of (ln_target l)) waiting)"

definition link_lands :: "corpus \<Rightarrow> locator \<Rightarrow> exn + bool" where
  "link_lands c l = (if \<not> c_holds c (loc_id l) then Inr False
     else if loc_place l = [] then Inr True
     else rbind (corpus_artifact c (loc_id l)) (\<lambda>m. holds_part m (loc_place l)))"

definition link_waits :: "corpus \<Rightarrow> string \<Rightarrow> link \<Rightarrow> exn + (string \<times> placed_link) option" where
  "link_waits c holding l = rbind (target_of (lk_target l)) (\<lambda>t. rbind (link_lands c t) (\<lambda>lands.
     Inr (if lands then None else Some (iri_of (loc_id t),
       \<lparr>pl_artifact = holding, pl_field = lk_field l, pl_place = lk_place l, pl_part = names_placed (loc_place t)\<rparr>))))"

definition read_placeholders :: "corpus \<Rightarrow> (string \<times> link list) list \<Rightarrow> exn + placeholder list" where
  "read_placeholders c shown = rbind (rall (map (\<lambda>(holding, l). link_waits c holding l)
       (concat (map (\<lambda>(holding, links). map (Pair holding) links) (sort_key (\<lambda>e. names_order (fst e)) shown))))) (\<lambda>found.
     let waited = somes_of found
     in Inr (map (\<lambda>name. (name, map snd (filter (\<lambda>e. fst e = name) waited)))
          (sort_key names_order (once_each (map fst waited)))))"

section \<open>An artifact whole\<close>

definition carried_of :: "nat \<Rightarrow> corpus \<Rightarrow> obj \<Rightarrow> exn + link list" where
  "carried_of n c found = rbind (artifact_schema found c) (\<lambda>typed. rbind (schema_of typed) (\<lambda>schema. carried n found schema c))"

type_synonym filled_in = "(string \<times> obj) list"

fun fill_each :: "(val \<Rightarrow> 's \<Rightarrow> exn + val \<times> 's) \<Rightarrow> val list \<Rightarrow> 's \<Rightarrow> exn + val list \<times> 's" where
  "fill_each f [] s = Inr ([], s)"
| "fill_each f (v # vs) s = rbind (f v s) (\<lambda>(v, s). rbind (fill_each f vs s) (\<lambda>(vs, s). Inr (v # vs, s)))"

definition fill_target :: "(artifact_id \<Rightarrow> string set \<Rightarrow> filled_in \<Rightarrow> exn + obj \<times> filled_in) \<Rightarrow> corpus \<Rightarrow> string set \<Rightarrow> val \<Rightarrow> filled_in \<Rightarrow>
    exn + val \<times> filled_in" where
  "fill_target resolved c on_path v shown = rbind (target_of v) (\<lambda>l. let written = (case v of VStr t \<Rightarrow> t | _ \<Rightarrow> []) in
     if loc_place l \<noteq> [] \<or> written \<in> on_path \<or> \<not> c_holds c (loc_id l) then Inr (v, shown)
     else rbind (resolved (loc_id l) (insert written on_path) shown) (\<lambda>(m, shown). Inr (VMap m, shown)))"

fun fill_fields :: "(artifact_id \<Rightarrow> string set \<Rightarrow> filled_in \<Rightarrow> exn + obj \<times> filled_in) \<Rightarrow> corpus \<Rightarrow> string set \<Rightarrow> string list \<Rightarrow> obj \<Rightarrow> filled_in \<Rightarrow>
    exn + obj \<times> filled_in" where
  "fill_fields resolved c on_path [] node shown = Inr (node, shown)"
| "fill_fields resolved c on_path (field # others) node shown = rbind (field_read node field) (\<lambda>value.
     rbind (case value of
         VList vs \<Rightarrow> rbind (fill_each (fill_target resolved c on_path) vs shown) (\<lambda>(vs, shown). Inr (VList vs, shown))
       | _ \<Rightarrow> fill_target resolved c on_path value shown) (\<lambda>(value, shown).
     fill_fields resolved c on_path others (dput field value node) shown))"

definition shown_too :: "artifact_id \<Rightarrow> obj \<Rightarrow> filled_in \<Rightarrow> filled_in" where
  "shown_too a found shown = (if map_of shown (iri_of a) = None then shown @ [(iri_of a, found)] else shown)"

text \<open>\<open>_resolved\<close>, and \<open>_filled\<close> of a node's own fields.\<close>

fun resolved :: "nat \<Rightarrow> corpus \<Rightarrow> nat \<Rightarrow> artifact_id \<Rightarrow> string set \<Rightarrow> filled_in \<Rightarrow> exn + obj \<times> filled_in" where
  "resolved n c 0 a on_path shown = rbind (corpus_artifact c a) (\<lambda>found. Inr (found, shown_too a found shown))"
| "resolved n c (Suc depth) a on_path shown = rbind (corpus_artifact c a) (\<lambda>found. rbind (carried_of n c found) (\<lambda>links.
     fill_fields (resolved n c depth) c on_path (once_each (map lk_field (filter lk_own links))) found (shown_too a found shown)))"

definition filled :: "nat \<Rightarrow> corpus \<Rightarrow> nat \<Rightarrow> obj \<Rightarrow> string list \<Rightarrow> string set \<Rightarrow> exn + obj \<times> filled_in" where
  "filled n c depth node own on_path = (case depth of 0 \<Rightarrow> Inr (node, [])
   | Suc d \<Rightarrow> fill_fields (resolved n c d) c on_path own node [])"

record artifact_read =
  ar_id :: string
  ar_type :: val
  ar_revision :: val
  ar_title :: val
  ar_content :: string
  ar_references :: "stub_read list"
  ar_parts :: "(string \<times> val \<times> val) list"
  ar_inbound :: "((string option \<times> string) \<times> nat) list"
  ar_placeholders :: "placeholder list"

definition read_response :: "obj \<Rightarrow> string \<Rightarrow> exn + artifact_read" where
  "read_response found content = rbind (str_field found ''id'') (\<lambda>name. rbind (field_read found ''type'') (\<lambda>typed.
     rbind (field_read found ''revision'') (\<lambda>revision. rbind (field_read found ''title'') (\<lambda>title.
     Inr \<lparr>ar_id = name, ar_type = typed, ar_revision = revision, ar_title = title, ar_content = content,
       ar_references = [], ar_parts = [], ar_inbound = [], ar_placeholders = []\<rparr>))))"

definition read_whole :: "nat \<Rightarrow> yaml \<Rightarrow> corpus \<Rightarrow> node_read \<Rightarrow> nat \<Rightarrow> exn + artifact_read" where
  "read_whole n y c r depth = (let own = once_each (map lk_field (filter (\<lambda>l. lk_holder l = nr_holder r) (nr_links r))) in
     rbind (str_field (nr_found r) ''id'') (\<lambda>name. rbind (filled n c depth (nr_node r) own {name}) (\<lambda>(node, shown).
     rbind (content_dumps y (if nr_whole r then settled_content node else node)) (\<lambda>content.
     rbind (read_response (nr_found r) content) (\<lambda>response.
     rbind (rall (map (\<lambda>(name, m). rbind (carried_of n c m) (\<lambda>links. Inr (name, links))) shown)) (\<lambda>others.
     rbind (read_placeholders c (dict_over [(name, nr_links r)] others)) (\<lambda>waiting.
     Inr (response \<lparr>ar_placeholders := waiting\<rparr>)))))))) "

section \<open>A section\<close>

text \<open>A list of sections; a mapping's keys or a text's characters have no title to ask for.\<close>

definition sections_inside :: "obj \<Rightarrow> exn + val list" where
  "sections_inside section = (case dget section ''sections'' of
     None \<Rightarrow> Inr [] | Some (VList inner) \<Rightarrow> Inr inner | Some (VMap []) \<Rightarrow> Inr [] | Some (VStr []) \<Rightarrow> Inr [] | _ \<Rightarrow> Inl TypeError)"

lemma size_sections_inside: "sections_inside sect = Inr inner \<Longrightarrow> size_list size inner \<le> size_list (size_prod (\<lambda>_. 0) size) sect"
  using size_listed_items [of sect "KText ''sections''"]
  by (auto simp: sections_inside_def listed_def split: option.splits val.splits list.splits)

function (sequential) find_section :: "val list \<Rightarrow> string \<Rightarrow> exn + obj option" where
  "find_section [] title = Inr None"
| "find_section (VMap section # rest) title = (case field_read section ''title'' of
     Inl e \<Rightarrow> Inl e
   | Inr t \<Rightarrow> if py_eq t (VStr title) then Inr (Some section)
     else (case sections_inside section of
         Inl e \<Rightarrow> Inl e
       | Inr inner \<Rightarrow> (case find_section inner title of
           Inl e \<Rightarrow> Inl e | Inr (Some found) \<Rightarrow> Inr (Some found) | Inr None \<Rightarrow> find_section rest title)))"
| "find_section (_ # rest) title = Inl TypeError"
  by pat_completeness auto

termination
  by (relation "measure (\<lambda>(found, title). size_list size found)") (auto dest: size_sections_inside)

definition read_section :: "yaml \<Rightarrow> obj \<Rightarrow> string \<Rightarrow> string \<Rightarrow> exn + artifact_read" where
  "read_section y found part title =
     rbind (if part \<noteq> [] then Inr None else rbind (sections_inside found) (\<lambda>sections. find_section sections title)) (\<lambda>section.
     case section of
       None \<Rightarrow> rbind (str_field found ''id'') (\<lambda>name. Inl (Refused [no_section (ArtifactId name) title part]))
     | Some m \<Rightarrow> rbind (content_dumps y m) (read_response found))"

section \<open>An artifact at a glance\<close>

definition part_stubs :: "node_read \<Rightarrow> exn + (string \<times> val \<times> val) list" where
  "part_stubs r = rbind (rall (map (\<lambda>(collection, _). rbind (case map_of (nr_node r) collection of None \<Rightarrow> Inr [] | Some v \<Rightarrow> py_iter v) (\<lambda>items.
     rall (map (\<lambda>item. case item of
         VMap m \<Rightarrow> rbind (field_read m ''id'') (\<lambda>name. Inr (key_str collection, name, case dget m ''title'' of None \<Rightarrow> VStr [] | Some t \<Rightarrow> t))
       | _ \<Rightarrow> Inl TypeError) items))) (d_parts (nr_declared r)))) (\<lambda>found. Inr (concat found))"

definition read_summary :: "nat \<Rightarrow> yaml \<Rightarrow> corpus \<Rightarrow> (artifact_id \<Rightarrow> ((string option \<times> string) \<times> nat) list) \<Rightarrow> node_read \<Rightarrow> exn + artifact_read" where
  "read_summary n y c inbound r =
     rbind (content_dumps y (glance r)) (\<lambda>content. rbind (read_response (nr_found r) content) (\<lambda>response.
     rbind (rall (map (\<lambda>l. rbind (target_of (lk_target l)) (\<lambda>t. read_stub n y c (lk_field l) (loc_id t))) (nr_links r))) (\<lambda>references.
     rbind (read_placeholders c [(ar_id response, nr_links r)]) (\<lambda>waiting. rbind (part_stubs r) (\<lambda>parts.
     Inr (response \<lparr>ar_references := references, ar_placeholders := waiting, ar_parts := parts,
       ar_inbound := (if nr_whole r then inbound (ArtifactId (ar_id response)) else [])\<rparr>))))))"

section \<open>The read asked for\<close>

text \<open>\<open>versions.as_read\<close>: the store with the version put over it as an artifact under the version's IRI.\<close>

definition version_as_read :: "corpus \<Rightarrow> version \<Rightarrow> reading_asked \<Rightarrow> exn + corpus \<times> reading_asked" where
  "version_as_read c v asked = rbind (kept (type_of (version_kind v)) (version_number v) c) (\<lambda>held. let at = ArtifactId (version_str v) in case held of
     None \<Rightarrow> Inl (Refused [not_found at])
   | Some made \<Rightarrow> (let m = dput ''title'' (VStr (tv_title made)) (dput ''revision'' (VInt (tv_revision made)) (dput ''id'' (VStr (iri_of at)) (tv_content made)))
       in Inr (c \<lparr>c_holds := (\<lambda>a. a = at \<or> c_holds c a), c_artifact := (\<lambda>a. if a = at then Some m else c_artifact c a)\<rparr>,
               asked \<lparr>ra_locator := Locator at (loc_place (ra_locator asked)), ra_version := None\<rparr>)))"

definition read_here :: "nat \<Rightarrow> yaml \<Rightarrow> corpus \<Rightarrow> (artifact_id \<Rightarrow> ((string option \<times> string) \<times> nat) list) \<Rightarrow> reading_asked \<Rightarrow> exn + artifact_read" where
  "read_here n y c inbound asked = (let l = ra_locator asked in
     if \<not> c_holds c (loc_id l) then Inl (Refused [not_found (loc_id l)])
     else rbind (corpus_artifact c (loc_id l)) (\<lambda>found.
       rbind (if loc_place l \<noteq> [] then rbind (resolve found l) (\<lambda>_. Inr ()) else Inr ()) (\<lambda>_.
       if ra_level asked = ''section'' then rbind (parts_whole found l) (\<lambda>(whole, _).
         read_section y found (if whole then [] else names_placed (loc_place l)) (ra_section asked))
       else rbind (parts_read n c found l) (\<lambda>r. if ra_level asked = ''whole'' then read_whole n y c r (ra_depth asked)
         else read_summary n y c inbound r))))"

definition read_artifact :: "nat \<Rightarrow> yaml \<Rightarrow> corpus \<Rightarrow> (artifact_id \<Rightarrow> ((string option \<times> string) \<times> nat) list) \<Rightarrow> reading_asked \<Rightarrow> exn + artifact_read" where
  "read_artifact n y c inbound asked = (case ra_version asked of
     None \<Rightarrow> read_here n y c inbound asked
   | Some v \<Rightarrow> rbind (version_as_read c v asked) (\<lambda>(c, asked). read_here n y c inbound asked))"

section \<open>The first section so titled\<close>

text \<open>Every section at every depth, each before those deeper it.\<close>

function (sequential) all_sections :: "val list \<Rightarrow> exn + (val \<times> obj) list" where
  "all_sections [] = Inr []"
| "all_sections (VMap section # rest) = (case field_read section ''title'' of
     Inl e \<Rightarrow> Inl e
   | Inr t \<Rightarrow> (case sections_inside section of
       Inl e \<Rightarrow> Inl e
     | Inr inner \<Rightarrow> (case (all_sections inner, all_sections rest) of
         (Inr deeper, Inr others) \<Rightarrow> Inr ((t, section) # deeper @ others) | _ \<Rightarrow> Inl TypeError)))"
| "all_sections (_ # rest) = Inl TypeError"
  by pat_completeness auto

termination by (relation "measure (size_list size)") (auto dest: size_sections_inside)

lemma find_append: "find P (xs @ ys) = (case find P xs of None \<Rightarrow> find P ys | Some x \<Rightarrow> Some x)"
  by (induction xs) auto

text \<open>
  the section a read gives is the first with that title, looking at every section before the sections deeper it and
  at those before the ones that follow; none is given exactly when none has the title.
\<close>

theorem section_found_first:
  assumes "all_sections sections = Inr found"
  shows "find_section sections title = Inr (map_option snd (find (\<lambda>(t, _). py_eq t (VStr title)) found))"
  using assms
proof (induction sections title arbitrary: found rule: find_section.induct)
  case (2 sect rest title)
  from 2(3) obtain t inner deeper others where s: "field_read sect ''title'' = Inr t" "sections_inside sect = Inr inner"
    "all_sections inner = Inr deeper" "all_sections rest = Inr others" "found = (t, sect) # deeper @ others"
    by (auto split: sum.splits)
  show ?case
  proof (cases "py_eq t (VStr title)")
    case True
    with s show ?thesis by simp
  next
    case False
    from 2(1) [OF s(1) False s(2,3)] have deeper: "find_section inner title = Inr (map_option snd (find (\<lambda>(t, _). py_eq t (VStr title)) deeper))" .
    show ?thesis
    proof (cases "find (\<lambda>(t, _). py_eq t (VStr title)) deeper")
      case None
      with 2(2) [OF s(1) False s(2) _ _ s(4)] deeper s False show ?thesis by (simp add: find_append)
    next
      case (Some x)
      with deeper s False show ?thesis by (simp add: find_append)
    qed
  qed
qed simp_all

theorem section_found_first_witness:
  "find_section [VMap [(KText ''title'', VStr ''A''), (KText ''sections'', VList [VMap [(KText ''title'', VStr ''B''), (KText ''x'', VInt 1)]])],
     VMap [(KText ''title'', VStr ''B'')]] ''B'' = Inr (Some [(KText ''title'', VStr ''B''), (KText ''x'', VInt 1)])"
proof -
  have "all_sections [VMap [(KText ''title'', VStr ''A''), (KText ''sections'', VList [VMap [(KText ''title'', VStr ''B''), (KText ''x'', VInt 1)]])],
      VMap [(KText ''title'', VStr ''B'')]] = Inr
    [(VStr ''A'', [(KText ''title'', VStr ''A''), (KText ''sections'', VList [VMap [(KText ''title'', VStr ''B''), (KText ''x'', VInt 1)]])]),
     (VStr ''B'', [(KText ''title'', VStr ''B''), (KText ''x'', VInt 1)]), (VStr ''B'', [(KText ''title'', VStr ''B'')])]"
    by (simp add: field_read_def sections_inside_def)
  from section_found_first [OF this, of "''B''"] show ?thesis by simp
qed

section \<open>Every link that lands on nothing\<close>

lemma somes_of_set [simp]: "x \<in> set (somes_of xs) \<longleftrightarrow> Some x \<in> set xs"
  by (force simp: somes_of_def split: option.splits)


definition waiting_link :: link where
  "waiting_link = \<lparr>lk_field = ''f'', lk_place = ''f'', lk_target = VStr ''https://a.io/n/z'', lk_ref = VNull, lk_own = True, lk_holder = []\<rparr>"


end
