(* ===== verification/KB_Asking.thy ===== *)
theory KB_Asking
  imports KB_Reading KB_Sqlite_Store KB_Journal
begin

text \<open>
  The rest of \<open>query.py\<close>: artifacts listed, words found, placeholders and the history's entries, and \<open>stubs\<close> of \<open>read.py\<close>.
  What the port selects, finds and holds of the history are arguments; on the SQLite store they are \<open>sq_ids\<close>, \<open>sq_search\<close> and
  \<open>sq_history\<close>.
\<close>

section \<open>Artifacts listed\<close>

definition read_stubs :: "nat \<Rightarrow> yaml \<Rightarrow> corpus \<Rightarrow> artifact_id list \<Rightarrow> exn + stub_read list" where
  "read_stubs n y c ids = rall (map (\<lambda>a. rbind (corpus_artifact c a) (\<lambda>m. rbind (field_read m ''type'') (\<lambda>_.
     rbind (shown_of n c m) (stub_of y [] m)))) ids)"

datatype listed_all = Listed_ids "string list" | Listed_stubs "stub_read list"

definition kinds_left_out :: "kind option \<Rightarrow> below_path option \<Rightarrow> kind list" where
  "kinds_left_out k path = (if k = None \<and> path \<noteq> None then [TYPE_KIND] else [])"

definition query_listing :: "nat \<Rightarrow> yaml \<Rightarrow> corpus \<Rightarrow>
    (kind option \<Rightarrow> (string \<times> string) list \<Rightarrow> below_path option \<Rightarrow> kind list \<Rightarrow> exn + artifact_id list) \<Rightarrow> listing_asked \<Rightarrow> exn + listed_all" where
  "query_listing n y c ids asked =
     rbind (case la_kind asked of None \<Rightarrow> Inr () | Some k \<Rightarrow> rbind (kind_type k c) (\<lambda>_. Inr ())) (\<lambda>_.
     rbind (ids (la_kind asked) (la_fields asked) (la_path asked) (kinds_left_out (la_kind asked) (la_path asked))) (\<lambda>matched.
     if la_ids asked then Inr (Listed_ids (map iri_of matched))
     else rbind (read_stubs n y c matched) (\<lambda>found. Inr (Listed_stubs found))))"

section \<open>Words found\<close>

record match_read =
  mt_stub :: stub_read
  mt_section :: string
  mt_field :: string
  mt_snippet :: string

definition query_found :: "string \<Rightarrow> nat \<Rightarrow> yaml \<Rightarrow> corpus \<Rightarrow> (string list \<Rightarrow> kind option \<Rightarrow> bool \<Rightarrow> bool \<Rightarrow> candidate_row list) \<Rightarrow>
    searching_asked \<Rightarrow> exn + match_read list" where
  "query_found dots n y c looked asked =
     rbind (case sa_kind asked of None \<Rightarrow> Inr () | Some k \<Rightarrow> rbind (kind_type k c) (\<lambda>_. Inr ())) (\<lambda>_.
     let candidates = looked (search_terms (sa_text asked)) (sa_kind asked) (sa_sections asked) (sa_fields asked);
         named = sort_key (\<lambda>a. names_order (iri_of a)) (once_each (map cd_artifact candidates))
     in rbind (if search_words (sa_text asked) = [] then Inr [] else rall (map (corpus_artifact c) named)) (\<lambda>artifacts.
        rbind (search_rank dots artifacts (sa_text asked) (sa_sections asked) (sa_fields asked)) (\<lambda>hits.
        rall (map (\<lambda>h. rbind (values_artifact_id (hit_artifact h)) (\<lambda>a. rbind (read_stub n y c [] a) (\<lambda>s.
          Inr \<lparr>mt_stub = s, mt_section = hit_section h, mt_field = hit_field h, mt_snippet = hit_snippet h\<rparr>))) hits))))"

definition query_placeholders :: "port_reads \<Rightarrow> placeholder list" where
  "query_placeholders p = placeholders_of (p_waiting p None)"

section \<open>The history's entries\<close>

text \<open>A message's field of text, and of a number of 32 bits, set from a value: unset by one absent or null.\<close>

definition message_text :: "val option \<Rightarrow> exn + string" where
  "message_text v = (case v of None \<Rightarrow> Inr [] | Some VNull \<Rightarrow> Inr [] | Some (VStr s) \<Rightarrow> Inr s | Some _ \<Rightarrow> Inl TypeError)"

definition message_int :: "val option \<Rightarrow> exn + int" where
  "message_int v = (case v of None \<Rightarrow> Inr 0 | Some VNull \<Rightarrow> Inr 0 | Some (VBool b) \<Rightarrow> Inr (of_bool b)
     | Some (VInt n) \<Rightarrow> if - (2 ^ 31) \<le> n \<and> n < 2 ^ 31 then Inr n else Inl (ValueError (''Value out of range: '' @ int_str n))
     | Some _ \<Rightarrow> Inl TypeError)"

text \<open>A message made of a mapping's entries, each a field of it.\<close>

definition message_fields :: "string list \<Rightarrow> val \<Rightarrow> exn + obj" where
  "message_fields names v = (case v of
     VMap m \<Rightarrow> if list_ex (\<lambda>k. case k of KText _ \<Rightarrow> False | _ \<Rightarrow> True) (dkeys m) then Inl TypeError
       else if list_all (\<lambda>k. k \<in> KText ` set names) (dkeys m) then Inr m else Inl (ValueError ''no such field'')
   | _ \<Rightarrow> Inl TypeError)"

record snapshot_read =
  sr_artifact :: string
  sr_revision :: int
  sr_digest :: string

definition snapshot_entry :: "val \<Rightarrow> exn + snapshot_read" where
  "snapshot_entry v = rbind (message_fields [''artifact'', ''revision'', ''digest''] v) (\<lambda>m.
     rbind (message_text (dget m ''artifact'')) (\<lambda>a. rbind (message_int (dget m ''revision'')) (\<lambda>r.
     rbind (message_text (dget m ''digest'')) (\<lambda>d. Inr \<lparr>sr_artifact = a, sr_revision = r, sr_digest = d\<rparr>))))"

record entry_read =
  er_id :: string
  er_at :: string
  er_role :: string
  er_execution :: string
  er_op :: string
  er_artifact :: string
  er_place :: string
  er_revision :: int
  er_type :: string
  er_digest :: string
  er_message :: string
  er_batch :: string
  er_read :: "snapshot_read list"

definition actor_read :: "val \<Rightarrow> exn + string \<times> string" where
  "actor_read v = rbind (message_fields [''role'', ''execution''] v) (\<lambda>m. rbind (message_text (dget m ''role'')) (\<lambda>r.
     rbind (message_text (dget m ''execution'')) (\<lambda>x. Inr (r, x))))"

definition entry_of :: "obj \<Rightarrow> exn + entry_read" where
  "entry_of m = rbind (field_read m ''id'') (\<lambda>i. rbind (field_read m ''at'') (\<lambda>at. rbind (field_read m ''actor'') (\<lambda>who.
     rbind (actor_read who) (\<lambda>(role, execution). rbind (field_read m ''op'') (\<lambda>op. rbind (field_read m ''message'') (\<lambda>said.
     rbind (field_read m ''batch'') (\<lambda>batch.
     rbind (case dget m ''read'' of None \<Rightarrow> Inr [] | Some (VList xs) \<Rightarrow> Inr xs | Some (VMap []) \<Rightarrow> Inr [] | Some (VStr []) \<Rightarrow> Inr []
       | Some _ \<Rightarrow> Inl TypeError) (\<lambda>xs. rbind (rall (map snapshot_entry xs)) (\<lambda>snaps.
     rbind (message_text (Some i)) (\<lambda>i. rbind (message_text (Some at)) (\<lambda>at. rbind (message_text (Some op)) (\<lambda>op.
     rbind (message_text (dget m ''artifact'')) (\<lambda>artifact. rbind (message_text (dget m ''path'')) (\<lambda>place.
     rbind (message_int (dget m ''revision'')) (\<lambda>revision. rbind (message_text (dget m ''type'')) (\<lambda>typed.
     rbind (message_text (dget m ''digest'')) (\<lambda>digest. rbind (message_text (Some said)) (\<lambda>said.
     rbind (message_text (Some batch)) (\<lambda>batch.
     Inr \<lparr>er_id = i, er_at = at, er_role = role, er_execution = execution, er_op = op, er_artifact = artifact, er_place = place,
       er_revision = revision, er_type = typed, er_digest = digest, er_message = said, er_batch = batch, er_read = snaps\<rparr>)))))))))))))))))))"

definition query_entries :: "(history_asked \<Rightarrow> exn + obj list) \<Rightarrow> history_asked \<Rightarrow> exn + entry_read list" where
  "query_entries history asked = rbind (history asked) (\<lambda>found. rall (map entry_of found))"

section \<open>What a change says is what its history tells\<close>

text \<open>A change stamped and signed, the entry written for it, and what the contract is to tell of it.\<close>

record told_change =
  tc_who :: signed
  tc_edit :: edit
  tc_text :: "string option"
  tc_stamp :: stamp
  tc_batch :: string

definition entry_for :: "(string \<Rightarrow> string) \<Rightarrow> told_change \<Rightarrow> entry" where
  "entry_for fingerprint t = journal_change fingerprint (tc_who t) (tc_edit t) (tc_text t) (tc_stamp t) (tc_batch t)"

definition telling_of :: "(string \<Rightarrow> string) \<Rightarrow> told_change \<Rightarrow> entry_read" where
  "telling_of fingerprint t =
     \<lparr>er_id = st_id (tc_stamp t), er_at = iso_text (st_at (tc_stamp t)), er_role = sd_role (tc_who t), er_execution = sd_execution (tc_who t),
      er_op = ed_op (tc_edit t), er_artifact = iri_of (ed_artifact (tc_edit t)), er_place = ed_path (tc_edit t),
      er_revision = ed_revision (tc_edit t), er_type = ed_type (tc_edit t),
      er_digest = (case tc_text t of None \<Rightarrow> [] | Some text \<Rightarrow> fingerprint text), er_message = sd_message (tc_who t),
      er_batch = (if tc_batch t = [] then st_id (tc_stamp t) else tc_batch t), er_read = []\<rparr>"

definition change_asked :: "history_asked \<Rightarrow> told_change \<Rightarrow> bool" where
  "change_asked h t \<longleftrightarrow> (case h_artifact h of None \<Rightarrow> True | Some a \<Rightarrow> ed_artifact (tc_edit t) = a) \<and>
     (h_role h = [] \<or> sd_role (tc_who t) = h_role h) \<and> (h_execution h = [] \<or> sd_execution (tc_who t) = h_execution h) \<and>
     (case h_since h of None \<Rightarrow> True | Some m \<Rightarrow> m \<le> st_at (tc_stamp t)) \<and>
     (h_batch h = [] \<or> (if tc_batch t = [] then st_id (tc_stamp t) else tc_batch t) = h_batch h)"

lemma entry_for_asked: "asked_of h (entry_row_of n (entry_for fingerprint t)) = change_asked h t"
  by (simp add: asked_of_def entry_row_of_def entry_for_def journal_change_def made_entry_def change_asked_def Let_def split: option.split)

lemma entry_for_keyed: "well_keyed (VMap (e_record (entry_for fingerprint t)))"
  by (simp add: entry_for_def journal_change_def made_entry_def Let_def)

lemma entry_for_read:
  assumes "- (2 ^ 31) \<le> ed_revision (tc_edit t)" "ed_revision (tc_edit t) < 2 ^ 31"
  shows "entry_of (e_record (entry_for fingerprint t)) = Inr (telling_of fingerprint t)"
  using assms
  by (simp add: entry_of_def entry_for_def journal_change_def made_entry_def telling_of_def Let_def field_read_def actor_read_def
    message_fields_def message_text_def message_int_def)

text \<open>
  C28: what a set's changes say is what their history tells: once the set lands with an entry for each change, the entries
  asked of an artifact are those told before it and then, for each of its changes that was asked for and in their order,
  the stamp, who made it and why, the operation, the artifact, the place, the revision, the type, the text's fingerprint
  and the set, each as it was given.
\<close>

theorem changes_told_in_history:
  assumes "land_set changes (map (entry_for fingerprint) ts) db = (Inr u, db')" "in_landing_order db" "h_artifact h \<noteq> None"
    and "query_entries (sq_history db) h = Inr old"
    and "\<forall>t \<in> set ts. - (2 ^ 31) \<le> ed_revision (tc_edit t) \<and> ed_revision (tc_edit t) < 2 ^ 31"
  shows "query_entries (sq_history db') h = Inr (old @ map (telling_of fingerprint) (filter (change_asked h) ts))"
proof -
  from assms(4) obtain held where held: "sq_history db h = Inr held" "rall (map entry_of held) = Inr old"
    by (auto simp: query_entries_def rbind_Inr_iff)
  have "sq_history db' h = Inr (held @ map e_record (filter (\<lambda>e. asked_of h (entry_row_of 0 e)) (map (entry_for fingerprint) ts)))"
    using history_grown [OF assms(1-3) held(1)] entry_for_keyed by auto
  also have "filter (\<lambda>e. asked_of h (entry_row_of 0 e)) (map (entry_for fingerprint) ts) = map (entry_for fingerprint) (filter (change_asked h) ts)"
    by (simp add: filter_map o_def entry_for_asked)
  finally have after: "sq_history db' h = Inr (held @ map e_record (map (entry_for fingerprint) (filter (change_asked h) ts)))" .
  have "rall (map entry_of (map e_record (map (entry_for fingerprint) (filter (change_asked h) ts)))) =
    Inr (map (telling_of fingerprint) (filter (change_asked h) ts))"
    using assms(5) entry_for_read unfolding rall_Inr_iff by simp
  with held(2) after show ?thesis by (simp add: query_entries_def rall_append del: map_map)
qed

definition note_made :: told_change where
  "note_made = \<lparr>tc_who = \<lparr>sd_role = ''r'', sd_execution = ''x'', sd_message = ''why''\<rparr>,
     tc_edit = (new_edit ''create'' (ArtifactId ''https://a.io/n'') []) \<lparr>ed_revision := 1\<rparr>, tc_text = Some ''t'',
     tc_stamp = \<lparr>st_at = 7, st_id = ''1''\<rparr>, tc_batch = []\<rparr>"

lemma changes_told_in_history_witness:
  "\<exists>db. land_set (fst (note_at 0 1)) [entry_for id note_made] made_db = (Inr (), db) \<and>
     query_entries (sq_history db) about_note = Inr [telling_of id note_made]"
proof -
  have "\<not> isl (fst (land_set (fst (note_at 0 1)) [entry_for id note_made] made_db))" by code_simp
  then obtain db where db: "land_set (fst (note_at 0 1)) [entry_for id note_made] made_db = (Inr (), db)"
    by (cases "land_set (fst (note_at 0 1)) [entry_for id note_made] made_db";
        cases "fst (land_set (fst (note_at 0 1)) [entry_for id note_made] made_db)") auto
  have "change_asked about_note note_made" "ed_revision (tc_edit note_made) = 1" by code_simp+
  moreover have "land_set (fst (note_at 0 1)) (map (entry_for id) [note_made]) made_db = (Inr (), db)" using db by simp
  moreover have "in_landing_order made_db" by (simp add: in_landing_order_def made_db_def)
  moreover have "h_artifact about_note \<noteq> None" by (simp add: about_note_def)
  moreover have "query_entries (sq_history made_db) about_note = Inr []" by code_simp
  ultimately have "query_entries (sq_history db) about_note = Inr ([] @ map (telling_of id) (filter (change_asked about_note) [note_made]))"
    by (intro changes_told_in_history) simp_all
  with db \<open>change_asked about_note note_made\<close> show ?thesis by auto
qed

end
