(* ===== verification/KB_Export.thy ===== *)
theory KB_Export
  imports KB_Asking
begin

text \<open>
  \<open>export.py\<close> and \<open>check.py\<close>: the files of an export, each artifact at the place its IRI gives and a type as its versions,
  and the check of every artifact against the version of its type it conforms to. The artifacts a selection gives are
  the port's, an argument; writing the files is not modelled.
\<close>

section \<open>The files of an export\<close>

definition placed_at :: "string \<Rightarrow> int option \<Rightarrow> exn + string" where
  "placed_at name number = (case placing name number of None \<Rightarrow> Inl IndexError | Some place \<Rightarrow> Inr place)"

definition exported_file :: "nat \<Rightarrow> yaml \<Rightarrow> corpus \<Rightarrow> string \<Rightarrow> int option \<Rightarrow> obj \<Rightarrow> exn + string \<times> string" where
  "exported_file n y c name number m = rbind (placed_at name number) (\<lambda>place. rbind (ordered_held n c m) (\<lambda>ordered.
     rbind (plain_raised (canonical_dump y ordered)) (\<lambda>t. Inr (place, t))))"

definition version_made :: "corpus \<Rightarrow> artifact_id \<Rightarrow> int \<Rightarrow> exn + obj" where
  "version_made c name number = (case c_type_version c (Version (Kind (iri_of name)) number) of
     None \<Rightarrow> Inl (KeyError (versioned (iri_of name) number))
   | Some made \<Rightarrow> rbind (str_field (tv_content made) ''type'') (\<lambda>t.
       Inr (settled_given (tv_content made) (iri_of name) t (tv_revision made) (tv_title made))))"

definition exported_versions :: "nat \<Rightarrow> yaml \<Rightarrow> corpus \<Rightarrow> artifact_id \<Rightarrow> exn + (string \<times> string) list" where
  "exported_versions n y c name = rall (map (\<lambda>number. rbind (version_made c name number) (exported_file n y c (iri_of name) (Some number)))
     (c_versions c name))"

definition exported_artifact :: "nat \<Rightarrow> yaml \<Rightarrow> corpus \<Rightarrow> artifact_id \<Rightarrow> exn + (string \<times> string) list" where
  "exported_artifact n y c name = rbind (corpus_artifact c name) (\<lambda>m. rbind (settled_typed m) (\<lambda>typed.
     if typed then exported_versions n y c name
     else rbind (exported_file n y c (iri_of name) None m) (\<lambda>fl. Inr [fl])))"

definition exported_files :: "nat \<Rightarrow> yaml \<Rightarrow> corpus \<Rightarrow> (kind option \<Rightarrow> below_path option \<Rightarrow> kind list \<Rightarrow> exn + artifact_id list) \<Rightarrow> kind option \<times> below_path option \<Rightarrow>
    exn + (string \<times> string) list" where
  "exported_files n y c ids asked =
     rbind (case fst asked of None \<Rightarrow> Inr () | Some k \<Rightarrow> rbind (kind_type k c) (\<lambda>_. Inr ())) (\<lambda>_.
     rbind (ids (fst asked) (snd asked) (kinds_left_out (fst asked) (snd asked))) (\<lambda>names.
     rbind (rall (map (exported_artifact n y c) names)) (\<lambda>found. Inr (concat found))))"

definition export_taken :: "nat \<Rightarrow> yaml \<Rightarrow> corpus \<Rightarrow> (kind option \<Rightarrow> below_path option \<Rightarrow> kind list \<Rightarrow> exn + artifact_id list) \<Rightarrow> string \<Rightarrow> kind option \<times> below_path option \<Rightarrow>
    exn + (string \<times> string) list \<times> string" where
  "export_taken n y c ids landed_last asked = rbind (exported_files n y c ids asked) (\<lambda>found. Inr (found, landed_last))"

section \<open>What is exported reads back\<close>

text \<open>An artifact as the store keeps it: under its IRI, of a type's version, with a revision and a title.\<close>

definition settled_well :: "string \<Rightarrow> obj \<Rightarrow> bool" where
  "settled_well name m \<longleftrightarrow> well_keyed (VMap m) \<and> iri name \<and> dget m ''id'' = Some (VStr name) \<and>
     (\<exists>t k. dget m ''type'' = Some (VStr t) \<and> names_version t = Some k) \<and>
     (\<exists>r. dget m ''revision'' = Some (VInt r)) \<and> (\<exists>t. dget m ''title'' = Some (VStr t))"

lemma ordered_settled_well:
  assumes "settled_well name m" "settled_order m schema = Inr r"
  shows "identified r" "text_at r ''id'' = name" "settled_typed r = settled_typed m"
    "dget m ''version'' = Some (VInt n) \<Longrightarrow> dget r ''version'' = Some (VInt n)"
proof -
  from assms(1) obtain t k rev title where m: "well_keyed (VMap m)" "iri name" "dget m ''id'' = Some (VStr name)"
    "dget m ''type'' = Some (VStr t)" "names_version t = Some k" "dget m ''revision'' = Some (VInt rev)" "dget m ''title'' = Some (VStr title)"
    by (auto simp: settled_well_def)
  have r: "dget r ''id'' = Some (VStr name)" "dget r ''type'' = Some (VStr t)" "dget r ''revision'' = Some (VInt rev)" "dget r ''title'' = Some (VStr title)"
    by (rule order_scalar [OF assms(2)], use m in \<open>simp_all add: is_list_def\<close>)+
  have "set (map KText IDENTITY) \<subseteq> set (dkeys m)"
    using m by (auto simp: IDENTITY_def dest!: map_of_SomeD) force+
  then have "take (length IDENTITY) (dkeys r) = map KText IDENTITY" using order_eq(2) [OF m(1) assms(2)] keys_opening by simp
  with r m show "identified r" "text_at r ''id'' = name" "settled_typed r = settled_typed m"
    by (simp_all add: identified_def is_str_def is_int_def text_at_def settled_typed_def settled_kind_def type_version_of_def)
  show "dget m ''version'' = Some (VInt n) \<Longrightarrow> dget r ''version'' = Some (VInt n)"
    by (rule order_scalar [OF assms(2)]) (simp_all add: is_list_def)
qed

lemma plain_raised_Inr: "plain_raised r = Inr x \<longleftrightarrow> r = Inr x"
proof (cases r)
  case (Inl e)
  then show ?thesis by (cases e) (simp_all add: plain_raised_def)
qed (simp add: plain_raised_def)

text \<open>What the writer writes, the reader reads.\<close>

definition reads_own :: "yaml \<Rightarrow> string \<Rightarrow> bool" where
  "reads_own y t \<longleftrightarrow> (\<forall>m. canonical_dump y m = Inr t \<longrightarrow> canonical_load y t = Inr (VMap m))"

definition offered_back :: "yaml \<Rightarrow> artifact_id \<Rightarrow> int option \<Rightarrow> string \<times> string \<Rightarrow> bool" where
  "offered_back y name number fl \<longleftrightarrow> (\<exists>steps e m. fst fl = join_with ''/'' steps \<and> file_offered y (steps, Content (snd fl)) = Inr e \<and>
     of_errors e = [] \<and> of_id e = Some name \<and> of_number e = number \<and> of_artifact e = Some m \<and> canonical_dump y m = Inr (snd fl))"

lemma exported_offered:
  assumes "exported_file n y c name number m = Inr fl" "settled_well name m" "reads_own y (snd fl)"
    and "case number of None \<Rightarrow> settled_typed m = Inr False
      | Some k \<Rightarrow> settled_typed m = Inr True \<and> dget m ''version'' = Some (VInt k) \<and> 1 \<le> k \<and> length (versioned name k) \<le> LONGEST"
  shows "offered_back y (ArtifactId name) number fl"
proof -
  have "iri name" using assms(2) by (simp add: settled_well_def)
  moreover have "case number of None \<Rightarrow> True | Some n \<Rightarrow> 1 \<le> n \<and> length (versioned name n) \<le> LONGEST" using assms(4) by (cases number) auto
  ultimately obtain steps where steps: "names_place name number = Some steps" "filed steps = Some (name, number)"
    using names_place_Some [of name number] filed_names_place [of name number] by (auto simp: iri_def)
  from assms(1) steps(1) obtain ordered where o: "fst fl = join_with ''/'' steps" "ordered_held n c m = Inr ordered" "canonical_dump y ordered = Inr (snd fl)"
    by (cases fl) (auto simp: exported_file_def placed_at_def placing_def plain_raised_Inr rbind_Inr_iff)
  from o(2) obtain d where d: "settled_order m (declares_map d) = Inr ordered" by (auto simp: ordered_held_def rbind_Inr_iff)
  note w = ordered_settled_well [OF assms(2) d]
  from assms(3) o(3) have load: "canonical_load y (snd fl) = Inr (VMap ordered)" by (simp add: reads_own_def)
  let ?e = "\<lparr>of_file = join_with ''/'' steps, of_name = Some (offers_named name number), of_number = number, of_text = [],
    of_artifact = None, of_errors = []\<rparr>"
  have name: "of_id ?e = Some (ArtifactId name)"
    using assms(4) names_version_iff [of "versioned name k" name k for k] \<open>iri name\<close> by (cases number) (auto simp: of_id_def offers_named_def)
  have "file_misplaced ?e (VMap ordered) = Inr None"
    using w name assms(4) by (cases number) (auto simp: file_misplaced_def of_typed_def)
  then have "file_offered y (steps, Content (snd fl)) = Inr (?e \<lparr>of_text := snd fl, of_artifact := Some ordered\<rparr>)"
    using steps(2) load by (simp add: file_offered_def)
  with o(1,3) name show ?thesis unfolding offered_back_def
    by (intro exI [of _ steps] exI [of _ "?e \<lparr>of_text := snd fl, of_artifact := Some ordered\<rparr>"] exI [of _ ordered]) (simp add: of_id_def)
qed

definition exportable :: "corpus \<Rightarrow> artifact_id \<Rightarrow> obj \<Rightarrow> bool" where
  "exportable c name m \<longleftrightarrow> settled_well (iri_of name) m \<and> (settled_typed m = Inr True \<longrightarrow> (\<forall>k \<in> set (c_versions c name). \<exists>v.
     version_made c name k = Inr v \<and> settled_well (iri_of name) v \<and> settled_typed v = Inr True \<and> dget v ''version'' = Some (VInt k) \<and>
     1 \<le> k \<and> length (versioned (iri_of name) k) \<le> LONGEST))"


text \<open>One note exported, by a writer and reader of that note alone.\<close>

definition noting_yaml :: yaml where
  "noting_yaml = \<lparr>y_scan = (\<lambda>_. []), y_parse = (\<lambda>_. Inr []), y_compose = (\<lambda>_. None),
     y_load = (\<lambda>_. Inr (VMap (note_of ''https://a.io/n/a'' ''https://a.io/n@1''))),
     y_dump = (\<lambda>p. if p = PMap (map (\<lambda>(k, v). (k, PScalar v)) (note_of ''https://a.io/n/a'' ''https://a.io/n@1'')) then ''note'' else [])\<rparr>"

lemma prosed_scalars: "prosed_entries m place = Inr (map (\<lambda>(k, v). (k, PScalar v)) es) \<Longrightarrow> m = es"
proof (induction m arbitrary: es)
  case (Cons e m)
  have scalar: "prosed v place = Inr (PScalar w) \<Longrightarrow> v = w" for v w place by (cases v) (auto simp: rbind_Inr_iff)
  have "prose t place \<noteq> Inr (PScalar w)" for t w place by (simp add: prose_def split: list.splits)
  with Cons scalar show ?case by (cases e; cases es) (auto simp: rbind_Inr_iff split: bool.splits val.splits if_splits)
qed simp

lemma noting_reads: "reads_own noting_yaml ''note''"
  by (auto simp: reads_own_def canonical_dump_def canonical_load_def canonical_check_def noting_yaml_def rbind_Inr_iff Let_def
    split: if_splits dest: prosed_scalars)


section \<open>The check of a store\<close>

record checked_store =
  ch_violations :: "fault list"
  ch_stale :: "(artifact_id \<times> int \<times> int) list"
  ch_placeholders :: "placeholder list"

definition artifact_checked :: "outside \<Rightarrow> port_reads \<Rightarrow> linking list \<Rightarrow> artifact_id \<Rightarrow> exn + fault list \<times> (artifact_id \<times> int \<times> int) list" where
  "artifact_checked out p waiting a = (let c = p_corpus p; n = read_fuel out in
     rbind (corpus_artifact c a) (\<lambda>m. rbind (conforming m) (\<lambda>v. rbind (artifact_schema m c) (\<lambda>typed.
     rbind (rbind (kind_schema (version_kind v) c) (\<lambda>s. int_field s ''version'')) (\<lambda>standing.
     rbind (schema_of typed) (\<lambda>schema.
     rbind (validate (misshaped out) (built_fuel out) n (iri_of a) (settled_checked m) schema c
       (held_waiting (filter (\<lambda>l. ln_source l = a) waiting)) False) (\<lambda>found.
     rbind (declared n schema c) (\<lambda>d. rbind (faults_ordered found (settled_checked m) (declares_map d)) (\<lambda>ordered.
     Inr (ordered, if version_number v < standing then [(a, version_number v, standing)] else [])))))))))) "

definition check_everything :: "outside \<Rightarrow> port_reads \<Rightarrow> artifact_id list \<Rightarrow> exn + checked_store" where
  "check_everything out p ids = (let waiting = p_waiting p None in
     rbind (rall (map (artifact_checked out p waiting) ids)) (\<lambda>found.
     Inr \<lparr>ch_violations = concat (map fst found), ch_stale = concat (map snd found), ch_placeholders = placeholders_of waiting\<rparr>))"

end
