(* ===== verification/KB_Start.thy ===== *)
theory KB_Start
  imports KB_Query KB_Write
begin

text \<open>
  \<open>start\<close> of \<open>write.py\<close> and \<open>metaschema.py\<close>: the type of types, the one artifact of a new store, and the first set, which
  lands it. Whether the root is vacant is an argument; making the directory and the file is not modelled. From there on,
  the stores that are reached.
\<close>

section \<open>A new store\<close>

definition METASCHEMA :: obj where
  "METASCHEMA =
    [(KText ''title'', VStr ''Schema''),
     (KText ''version'', VInt 1),
     (KText ''schema'', VMap
       [(KText ''type'', VStr ''object''),
        (KText ''properties'', VMap
          [(KText ''title'', VMap [(KText ''type'', VStr ''string'')]),
           (KText ''version'', VMap [(KText ''type'', VStr ''integer'')]),
           (KText ''schema'', VMap [(KText ''$ref'', VStr ''https://json-schema.org/draft/2020-12/schema'')])]),
        (KText ''required'', VList [VStr ''title'', VStr ''version'', VStr ''schema''])])]"

definition METASCHEMA_ID :: artifact_id where "METASCHEMA_ID = type_of TYPE_KIND"

definition METASCHEMA_VERSION :: version where "METASCHEMA_VERSION = Version TYPE_KIND 1"

definition started_type :: "exn + obj" where
  "started_type = settled_order
     (settled_given (settled_content METASCHEMA) (iri_of METASCHEMA_ID) (version_str METASCHEMA_VERSION) 1 ''Schema'')
     (as_map (dget METASCHEMA ''schema''))"

definition started_entry :: "(string \<Rightarrow> string) \<Rightarrow> string \<times> string \<Rightarrow> string \<Rightarrow> stamp \<Rightarrow> entry" where
  "started_entry fingerprint actor text st = journal_change fingerprint
     \<lparr>sd_role = fst actor, sd_execution = snd actor, sd_message = ''initialise store''\<rparr>
     ((new_edit ''create'' METASCHEMA_ID []) \<lparr>ed_revision := 1, ed_type := version_str METASCHEMA_VERSION\<rparr>) (Some text) st []"

definition started_change :: "obj \<Rightarrow> (string \<times> string \<times> string) list \<Rightarrow> change" where
  "started_change meta searched = \<lparr>ch_artifact = METASCHEMA_ID, ch_content = Some meta, ch_links = [], ch_parts = [], ch_read = 0,
     ch_revision = 1, ch_through = [], ch_searched = searched, ch_kind = Some TYPE_KIND,
     ch_version = Some \<lparr>vd_version = METASCHEMA_VERSION, vd_title = ''Schema''\<rparr>\<rparr>"

definition write_start :: "(string \<Rightarrow> string) \<Rightarrow> yaml \<Rightarrow> clock \<Rightarrow> exn + unit \<Rightarrow> string \<times> string \<Rightarrow> exn + refusal + db" where
  "write_start fingerprint y clock vacant actor =
     rbind (first_stamp clock) (\<lambda>st. rbind vacant (\<lambda>_. rbind started_type (\<lambda>meta. rbind (content_dumps y meta) (\<lambda>text.
     rbind (search_rows meta) (\<lambda>searched.
     Inr (case land False [started_change meta searched] [started_entry fingerprint actor text st] (opened_db made_db) of
       (Inl refused, _) \<Rightarrow> Inl refused | (Inr _, c) \<Rightarrow> Inr (k_committed c)))))))"

section \<open>The rows artifacts are found by\<close>

text \<open>
  A row of the index is numbered once, is that of the artifact its number is kept for, and is of an artifact held.
\<close>

definition search_ok :: "db \<Rightarrow> bool" where
  "search_ok db \<longleftrightarrow> distinct (map fst (t_searched db)) \<and>
     (\<lambda>r. (q_row r, q_artifact r)) ` set (t_search db) = set (t_searched db) \<and>
     (\<forall>r \<in> set (t_search db). sq_holds db (ArtifactId (q_artifact r)))"

lemma searched_once: "distinct (map fst xs) \<Longrightarrow> (n, a) \<in> set xs \<Longrightarrow> (n, b) \<in> set xs \<Longrightarrow> a = b"
  by (rule eq_key_imp_eq_value)

lemma unsearched_rows:
  assumes "search_ok db"
  shows "t_search (unsearched name db) = filter (\<lambda>r. q_artifact r \<noteq> name) (t_search db)"
proof -
  have "(q_row r, name) \<in> set (t_searched db) \<longleftrightarrow> q_artifact r = name" if "r \<in> set (t_search db)" for r
    using assms that searched_once [of "t_searched db" "q_row r"] unfolding search_ok_def by (metis (mono_tags, lifting) image_eqI)
  then show ?thesis by (auto simp: unsearched_def intro: filter_cong)
qed

lemma held_iff: "sq_holds db a \<longleftrightarrow> iri_of a \<in> a_id ` set (t_artifacts db)"
  unfolding sq_holds_def sq_rows_def filter_empty_conv by (metis image_iff)

lemma enum_from_once: "distinct (map fst (enum_from n xs))"
  by (simp add: enum_from_def)

lemma searchable_ok:
  assumes "distinct (map fst (t_searched db))" "(\<lambda>r. (q_row r, q_artifact r)) ` set (t_search db) = set (t_searched db)"
    and "\<forall>r \<in> set (t_search db). sq_holds db (ArtifactId (q_artifact r))" "sq_holds db (ArtifactId name)"
  shows "search_ok (searchable name k rows db)"
proof -
  define from_row :: nat where "from_row = (if t_searched db = [] then 0 else Max (set (map fst (t_searched db))))"
  have under: "fst x \<le> from_row" if "x \<in> set (t_searched db)" for x
    using that by (auto simp: from_row_def)
  have "distinct (map (\<lambda>e. from_row + fst e + 1) (enum_from 0 rows))"
    using enum_from_once [of 0 rows] by (auto simp: distinct_map inj_on_def)
  then have "distinct (map fst (t_searched (searchable name k rows db)))"
    using assms(1) under by (fastforce simp: searchable_def Let_def from_row_def [symmetric] comp_def case_prod_unfold)
  moreover have "(\<lambda>r. (q_row r, q_artifact r)) ` set (t_search (searchable name k rows db)) = set (t_searched (searchable name k rows db))"
    using assms(2) by (auto simp: searchable_def Let_def image_Un image_image case_prod_unfold)
  moreover have "\<forall>r \<in> set (t_search (searchable name k rows db)). sq_holds (searchable name k rows db) (ArtifactId (q_artifact r))"
    using assms(3,4) by (auto simp: searchable_def Let_def held_iff)
  ultimately show ?thesis by (simp add: search_ok_def)
qed

lemma searched_kept:
  "(\<lambda>r. (q_row r, q_artifact r)) ` set xs = S \<Longrightarrow>
   (\<lambda>r. (q_row r, q_artifact r)) ` {r \<in> set xs. q_artifact r \<noteq> name} = {r \<in> S. snd r \<noteq> name}"
  by (auto intro!: image_eqI)

lemma set_written_search:
  assumes "set_written ch landed step db = (Inr u, db')" "search_ok db"
  shows "search_ok db'"
proof -
  let ?name = "iri_of (ch_artifact ch)"
  let ?out = "taken_out ch landed step db"
  have rows: "t_search ?out = filter (\<lambda>r. q_artifact r \<noteq> ?name) (t_search db)" "t_searched ?out = filter (\<lambda>r. snd r \<noteq> ?name) (t_searched db)"
    "t_artifacts ?out = filter (\<lambda>r. a_id r \<noteq> ?name) (t_artifacts db)"
    using unsearched_rows [OF assms(2), of ?name] by (auto simp: taken_out_def relinked_def unsearched_def Let_def)
  have out: "search_ok ?out" unfolding search_ok_def
  proof (intro conjI)
    show "distinct (map fst (t_searched ?out))" using assms(2) by (simp add: rows search_ok_def distinct_map_filter)
    show "(\<lambda>r. (q_row r, q_artifact r)) ` set (t_search ?out) = set (t_searched ?out)"
      using assms(2) searched_kept [of "t_search db" "set (t_searched db)" ?name] by (simp add: rows search_ok_def)
    show "\<forall>r \<in> set (t_search ?out). sq_holds ?out (ArtifactId (q_artifact r))"
      using assms(2) by (auto simp: rows search_ok_def held_iff)
  qed
  show ?thesis
  proof (cases "ch_content ch")
    case None
    then have "db' = types_removed ?name ?out" using assms(1) by (auto simp: set_written_def acts)
    with out show ?thesis by (simp add: search_ok_def types_removed_def held_iff)
  next
    case (Some content)
    then obtain k where k: "ch_kind ch = Some k" using set_written_Inr(6) [OF assms(1)] by auto
    have put: "search_ok (put_in ch k (encoded content) ?out)" unfolding put_in_def Let_def
      by (rule searchable_ok) (use out in \<open>auto simp: search_ok_def held_iff\<close>)
    have "t_search db' = t_search (put_in ch k (encoded content) ?out)" "t_searched db' = t_searched (put_in ch k (encoded content) ?out)"
      "t_artifacts db' = t_artifacts (put_in ch k (encoded content) ?out)"
      using assms(1) Some k by (auto simp: set_written_def acts types_made_def split: option.splits if_splits)
    with put show ?thesis by (simp add: search_ok_def held_iff)
  qed
qed

lemma set_written_type_ids:
  assumes "set_written ch landed step db = (Inr u, db')" "distinct (map y_id (t_types db))"
  shows "distinct (map y_id (t_types db'))"
  using assms
  by (auto simp: set_written_def acts taken_out_def put_in_def types_made_def types_removed_def unsearched_def searchable_def
      relinked_def Let_def distinct_map_filter split: option.splits if_splits)

lemma changes_written_kept:
  assumes "changes_written landed step changes before db = (Inr before', db')" "search_ok db" "distinct (map y_id (t_types db))"
  shows "search_ok db' \<and> distinct (map y_id (t_types db'))"
  using assms
proof (induction changes arbitrary: step before db)
  case (Cons ch changes)
  from Cons.prems(1) obtain db1 bef where w: "set_written ch landed step db = (Inr (), db1)"
    "changes_written landed (Suc step) changes bef db1 = (Inr before', db')"
    by (auto simp: changes_written_Cons simp del: changes_written.simps(2))
  from Cons.IH [OF w(2)] set_written_search [OF w(1)] set_written_type_ids [OF w(1)] Cons.prems show ?case by simp
qed (simp add: act_return_def)

lemma recorded_rest:
  "recorded entries db = (Inr u, db') \<Longrightarrow> t_search db' = t_search db \<and> t_searched db' = t_searched db \<and> t_types db' = t_types db \<and>
     t_artifacts db' = t_artifacts db \<and> map n_id (t_entries db') = map n_id (t_entries db) @ map e_id entries"
  unfolding recorded_def by (induction entries arbitrary: db) (auto simp: acts entry_added_def split: if_splits prod.splits sum.splits)

lemma set_added_rest:
  "set_added entries db = (Inr landed, db') \<Longrightarrow> t_search db' = t_search db \<and> t_searched db' = t_searched db \<and> t_types db' = t_types db \<and>
     t_artifacts db' = t_artifacts db \<and> t_entries db' = t_entries db"
  by (auto simp: set_added_def Let_def split: if_splits)

section \<open>Every store reached is in order\<close>

definition kept_in_order :: "db \<Rightarrow> bool" where
  "kept_in_order db \<longleftrightarrow> db_ok db \<and> search_ok db \<and> in_landing_order db \<and> distinct (map n_id (t_entries db)) \<and> distinct (map y_id (t_types db))"

lemma landing_keeps_all:
  assumes "land_set changes entries db = (Inr u, db')" "kept_in_order db" "revised changes"
  shows "kept_in_order db'"
proof -
  from assms(1) obtain db1 db2 landed before where w: "set (map n_id (t_entries db)) \<inter> set (map e_id entries) = {}" "distinct (map e_id entries)"
    "set_added entries db = (Inr landed, db1)" "changes_written landed 0 changes [] db1 = (Inr before, db2)" "recorded entries db2 = (Inr (), db')"
    by (rule land_set_Inr)
  note rest = set_added_rest [OF w(3)] recorded_rest [OF w(5)]
  have "search_ok db1" "distinct (map y_id (t_types db1))" using assms(2) rest(1) by (auto simp: kept_in_order_def search_ok_def held_iff)
  from changes_written_kept [OF w(4) this] rest(2) have "search_ok db'" "distinct (map y_id (t_types db'))"
    by (auto simp: search_ok_def held_iff)
  moreover have "distinct (map n_id (t_entries db'))"
    using assms(2) w(1,2) rest written_entries [OF w(4)] by (simp add: kept_in_order_def)
  ultimately show ?thesis
    using landing_keeps_ok [OF assms(1) _ assms(3)] land_set_entries [OF assms(1)] assms(2) by (simp add: kept_in_order_def)
qed

text \<open>The stores reached: one started, and what a set handed over, each change leaving a revision, lands in one reached.\<close>

inductive store_reached :: "db \<Rightarrow> bool" where
  started: "write_start fingerprint y clock (Inr ()) actor = Inr (Inr db) \<Longrightarrow> store_reached db"
| landed_in: "store_reached db \<Longrightarrow> revised changes \<Longrightarrow> land_set changes entries db = (Inr (), db') \<Longrightarrow> store_reached db'"

lemma made_in_order: "kept_in_order made_db"
  by (simp add: kept_in_order_def made_db_def db_ok_def search_ok_def in_landing_order_def)

lemma committed_new: "k_committed (opened_db db) = db"
  by (simp add: opened_db_def)

lemma land_from_new:
  assumes "land_set changes entries db = (r, db')"
  shows "land False changes entries (opened_db db) = (r, opened_db (case r of Inl _ \<Rightarrow> db | Inr _ \<Rightarrow> db'))"
  using assms
  by (cases r) (simp_all add: land_def exclusive_def saved_def on_db_def opened_db_def view_def sql_begin_def sql_commit_def sql_rollback_def
    sql_savepoint_def sql_release_def sql_rollback_to_def)

lemma write_start_lands:
  assumes "write_start fingerprint y clock vacant actor = Inr (Inr db)"
  obtains meta searched e where "started_type = Inr meta" "land_set [started_change meta searched] [e] made_db = (Inr (), db)"
proof -
  from assms obtain st meta said searched where s: "started_type = Inr meta"
    "(case land False [started_change meta searched] [started_entry fingerprint actor said st] (opened_db made_db) of
       (Inl refused, _) \<Rightarrow> Inl refused | (Inr _, c) \<Rightarrow> Inr (k_committed c)) = Inr db"
    by (auto simp: write_start_def rbind_Inr_iff)
  obtain r db' where l: "land_set [started_change meta searched] [started_entry fingerprint actor said st] made_db = (r, db')" by fastforce
  with s(2) have "r = Inr ()" "db' = db" unfolding land_from_new [OF l] by (auto simp: opened_db_def split: sum.splits)
  with s(1) l that show ?thesis by blast
qed

text \<open>What a new store keeps and every landing keeps, every store reached keeps.\<close>

locale store_invariant =
  fixes ok :: "db \<Rightarrow> bool"
  assumes made: "ok made_db"
    and landing: "land_set changes entries db = (Inr (), db') \<Longrightarrow> ok db \<Longrightarrow> revised changes \<Longrightarrow> ok db'"
begin

lemma reached: "store_reached db \<Longrightarrow> ok db"
proof (induction rule: store_reached.induct)
  case (started fingerprint y clock actor db)
  then obtain meta searched e where "land_set [started_change meta searched] [e] made_db = (Inr (), db)" by (rule write_start_lands)
  then show ?case by (rule landing [OF _ made]) (simp add: revised_def started_change_def)
next
  case (landed_in db changes entries db')
  then show ?case by (blast intro: landing)
qed

end

interpretation kept: store_invariant kept_in_order
  by unfold_locales (rule made_in_order, rule landing_keeps_all)


section \<open>A store starts with the type of types\<close>

definition started_meta :: obj where
  "started_meta = [(KText ''id'', VStr TYPES), (KText ''type'', VStr ''https://missingmass.io/kb/type@1''), (KText ''revision'', VInt 1),
     (KText ''title'', VStr ''Schema''), (KText ''version'', VInt 1), (KText ''schema'', the (dget METASCHEMA ''schema''))]"

lemma new_store_lands:
  assumes "ch_through ch = []" "ch_read ch = 0" "ch_links ch = []" "ch_content ch = Some content" "ch_kind ch = Some k" "ch_version ch = Some v"
  shows "\<exists>db. land_set [ch] [e] made_db = (Inr (), db) \<and>
    t_artifacts db = [\<lparr>a_id = iri_of (ch_artifact ch), a_kind = kind_name k, a_revision = ch_revision ch, a_content = encoded content\<rparr>] \<and>
    map n_record (t_entries db) = [encoded (e_record e)]"
  using assms
  by (simp add: land_set_def acts unheld_def made_db_def set_added_def unmoved_def compared_def sq_rows_def set_written_def
    taken_out_def unsearched_def relinked_def put_in_def searchable_def types_made_def integral_def unlanded_links_def last_changes_def
    broken_links_def recorded_def entry_added_def next_landing_def setdefault_def Let_def dict_over_def)

lemma start_ends:
  assumes "clock 0 = Inr at" "canonical_dump y started_meta = Inr said"
  obtains db and e :: entry where "write_start fingerprint y clock (Inr ()) actor = Inr (Inr db)"
    "t_artifacts db = [\<lparr>a_id = TYPES, a_kind = TYPES, a_revision = 1, a_content = encoded started_meta\<rparr>]"
    "map n_record (t_entries db) = [encoded (e_record e)]"
proof -
  have meta: "started_type = Inr started_meta" by code_simp
  have "artifact_sections started_meta = []" by code_simp
  then obtain found where found: "search_rows started_meta = Inr found" by (simp add: search_rows_def)
  from assms(1) obtain st where st: "first_stamp clock = Inr st" by (simp add: first_stamp_def)
  let ?e = "started_entry fingerprint actor said st"
  obtain db where db: "land_set [started_change started_meta found] [?e] made_db = (Inr (), db)"
    "t_artifacts db = [\<lparr>a_id = TYPES, a_kind = TYPES, a_revision = 1, a_content = encoded started_meta\<rparr>]"
    "map n_record (t_entries db) = [encoded (e_record ?e)]"
    using new_store_lands [of "started_change started_meta found" started_meta TYPE_KIND _ ?e]
    by (auto simp: started_change_def METASCHEMA_ID_def type_of_def TYPE_KIND_def)
  have "content_dumps y started_meta = Inr said" using assms(2) by (simp add: content_dumps_def plain_raised_def)
  then have "write_start fingerprint y clock (Inr ()) actor = Inr (Inr db)"
    by (simp add: write_start_def st meta found land_from_new [OF db(1)] committed_new)
  from that [OF this db(2,3)] show ?thesis .
qed

text \<open>
  C33: a store always starts where its root is vacant, its clock gives a moment and the type of types can be written: what is
  started holds one artifact, the type of types, as it is written under its IRI, of its own first version, its schema
  having nothing against it as a type's, and one entry.
\<close>

theorem store_starts:
  assumes "clock 0 = Inr at" "canonical_dump y started_meta = Inr said"
  shows "\<exists>db. write_start fingerprint y clock (Inr ()) actor = Inr (Inr db) \<and> map a_id (t_artifacts db) = [TYPES] \<and>
    sq_artifact db METASCHEMA_ID = Inr started_meta \<and> artifact_kind started_meta = Inr TYPE_KIND \<and>
    definition_faults METASCHEMA_ID started_meta (sq_corpus written db) = Inr [] \<and> length (t_entries db) = 1"
proof -
  from start_ends [where clock = clock and at = at and y = y and said = said and fingerprint = fingerprint and actor = actor, OF assms] obtain db and e :: entry where db: "write_start fingerprint y clock (Inr ()) actor = Inr (Inr db)"
    "t_artifacts db = [\<lparr>a_id = TYPES, a_kind = TYPES, a_revision = 1, a_content = encoded started_meta\<rparr>]"
    "map n_record (t_entries db) = [encoded (e_record e)]" .
  have "decoded (encoded started_meta) = Inr started_meta" by (rule stored_reads_back) code_simp
  then have held: "sq_artifact db METASCHEMA_ID = Inr started_meta"
    by (simp add: sq_artifact_def sq_rows_def db(2) METASCHEMA_ID_def type_of_def TYPE_KIND_def)
  have kind: "artifact_kind started_meta = Inr TYPE_KIND" by code_simp
  have faults: "definition_faults METASCHEMA_ID started_meta (sq_corpus written db) = Inr []" by code_simp
  have "length (t_entries db) = 1" using arg_cong [OF db(3), of length] by simp
  with db(1,2) held kind faults show ?thesis by (intro exI conjI) simp_all
qed

text \<open>A store started by a writer that writes anything as one word.\<close>

definition one_word :: yaml where
  "one_word = \<lparr>y_scan = (\<lambda>_. []), y_parse = (\<lambda>_. Inr []), y_compose = (\<lambda>_. None), y_load = (\<lambda>_. Inr VNull), y_dump = (\<lambda>_. ''word'')\<rparr>"

lemma one_word_writes: "canonical_dump one_word started_meta = Inr ''word''"
  by code_simp

theorem store_starts_witness:
  "\<exists>db. write_start id one_word (\<lambda>_. Inr 7) (Inr ()) (''r'', ''x'') = Inr (Inr db) \<and> map a_id (t_artifacts db) = [TYPES]"
  by (rule exE [OF store_starts [where clock = "\<lambda>_. Inr 7" and at = 7 and fingerprint = id and actor = "(''r'', ''x'')" and written = "\<lambda>_. []",
    OF refl one_word_writes]]) (elim conjE, intro exI conjI)


end
