(* ===== verification/KB_Locating.thy ===== *)
theory KB_Locating
  imports KB_Offers KB_Examining "HOL-Library.Sublist"
begin

text \<open>
  \<open>store.py\<close>, \<open>roots.py\<close> and \<open>served.py\<close>: where a store is and what marks it, the store or the connection a call goes to,
  whether a store can be started, and whether one is served. A path is the steps below \<open>/\<close>; what stands at each is a
  record of functions, and a path as it is named is how it is printed, where it is and where it resolves to. What starting
  a store does to the files is in KB_Staging.
\<close>

section \<open>The files and the names given them\<close>

type_synonym path = "string list"

record disk =
  dk_file :: "path \<Rightarrow> reading option"
  dk_there :: "path \<Rightarrow> bool"
  dk_directory :: "path \<Rightarrow> bool"
  dk_symlink :: "path \<Rightarrow> bool"
  dk_writable :: "path \<Rightarrow> bool"
  dk_held :: "path \<Rightarrow> bool"

definition is_file :: "disk \<Rightarrow> path \<Rightarrow> bool" where
  "is_file d p \<longleftrightarrow> dk_file d p \<noteq> None"

record named_path =
  np_given :: string
  np_shown :: string
  np_absolute :: bool
  np_at :: path
  np_real :: path

definition path_str :: "path \<Rightarrow> string" where
  "path_str p = CHR ''/'' # join_with ''/'' p"

definition below_shown :: "string \<Rightarrow> path \<Rightarrow> string" where
  "below_shown shown p = (if shown = ''/'' then shown @ join_with ''/'' p
     else if shown = ''.'' then join_with ''/'' p else shown @ ''/'' @ join_with ''/'' p)"

definition named_at :: "path \<Rightarrow> named_path" where
  "named_at p = \<lparr>np_given = path_str p, np_shown = path_str p, np_absolute = True, np_at = p, np_real = p\<rparr>"

definition MARKER :: path where "MARKER = [''kb'', ''store.yaml'']"
definition DATABASE :: path where "DATABASE = [''kb'', ''store.sqlite3'']"
definition CONNECTION_FILE :: path where "CONNECTION_FILE = [''kb'', ''server.yaml'']"
definition LOCK_FILE :: path where "LOCK_FILE = [''kb'', ''served.yaml'']"
definition STORE_FORM :: int where "STORE_FORM = 2"
definition EARLIER_FORM :: int where "EARLIER_FORM = 1"
definition STAGING :: string where "STAGING = ''.kb-starting''"

text \<open>\<open>roots.root\<close>, of a name that is text, or of anything else said as Python prints it.\<close>

definition roots_root :: "(string \<Rightarrow> named_path) \<Rightarrow> string + string \<Rightarrow> exn + named_path" where
  "roots_root placed asked = (case asked of
     Inl other \<Rightarrow> Inl (Refused [Fault [] [] ROOT (''a store is started in a directory named as text or as a path; it was named '' @ other)])
   | Inr t \<Rightarrow> if t = [] then Inl (Refused [Fault [] [] ROOT
         ''a store is started in a directory that was named and that exists; no directory was named''])
       else Inr (placed t))"

section \<open>A store's marker\<close>

text \<open>Text read from a file as YAML: nothing where it cannot be opened, is not UTF-8 or is not plain.\<close>

definition loaded_from :: "yaml \<Rightarrow> reading option \<Rightarrow> exn + val option" where
  "loaded_from y found = (case found of
     Some (Content t) \<Rightarrow> (case canonical_load y t of
         Inr v \<Rightarrow> Inr (Some v) | Inl (NotCanonical _ _) \<Rightarrow> Inr None | Inl (Escaped e) \<Rightarrow> Inl e)
   | _ \<Rightarrow> Inr None)"

definition names_form :: "yaml \<Rightarrow> obj \<Rightarrow> int \<Rightarrow> exn + bool" where
  "names_form y marker form = rbind (plain_raised (canonical_dump y marker)) (\<lambda>t.
     rbind (plain_raised (canonical_dump y [(KText ''store'', VInt form)])) (\<lambda>own. Inr (t = own)))"

datatype standing_form = Own_form | Earlier_kb | Later_kb

definition told_apart :: "yaml \<Rightarrow> disk \<Rightarrow> path \<Rightarrow> exn + standing_form" where
  "told_apart y d root = rbind (loaded_from y (dk_file d (root @ MARKER))) (\<lambda>marker. case marker of
     Some (VMap m) \<Rightarrow> rbind (names_form y m STORE_FORM) (\<lambda>own.
       if own then Inr Own_form
       else if dget m ''contract'' \<noteq> None then Inr Earlier_kb
       else rbind (names_form y m EARLIER_FORM) (\<lambda>earlier. Inr (if earlier then Earlier_kb else Later_kb)))
   | _ \<Rightarrow> Inr Later_kb)"

section \<open>The store or the connection a call goes to\<close>

record found_root =
  fr_root :: named_path
  fr_address :: "address option"

definition connection_at :: "yaml \<Rightarrow> disk \<Rightarrow> path \<Rightarrow> exn + address option" where
  "connection_at y d p = rbind (loaded_from y (dk_file d p)) (\<lambda>loaded. case loaded of
     Some (VMap m) \<Rightarrow> (case dget m ''address'' of
         Some (VStr t) \<Rightarrow> (case read_address t of Inr a \<Rightarrow> Inr (Some a) | Inl _ \<Rightarrow> Inr None)
       | _ \<Rightarrow> Inr None)
   | _ \<Rightarrow> Inr None)"

definition found_at :: "yaml \<Rightarrow> disk \<Rightarrow> named_path \<Rightarrow> exn + fault + found_root" where
  "found_at y d root =
     (if is_file d (np_at root @ MARKER) \<and> is_file d (np_at root @ CONNECTION_FILE) then
        Inr (Inl (Fault [] [] STORE (np_shown root @ '' holds both a store and the connection to a server; neither is guessed at'')))
      else if is_file d (np_at root @ MARKER) then Inr (Inr \<lparr>fr_root = root, fr_address = None\<rparr>)
      else rbind (connection_at y d (np_at root @ CONNECTION_FILE)) (\<lambda>named. case named of
          None \<Rightarrow> Inr (Inl (connection (below_shown (np_shown root) CONNECTION_FILE)))
        | Some a \<Rightarrow> Inr (Inr \<lparr>fr_root = root, fr_address = Some a\<rparr>)))"

definition marks :: "disk \<Rightarrow> path \<Rightarrow> bool" where
  "marks d p \<longleftrightarrow> is_file d (p @ MARKER) \<or> is_file d (p @ CONNECTION_FILE)"

text \<open>\<open>(start, *start.parents)\<close>.\<close>

definition upward :: "path \<Rightarrow> path list" where
  "upward p = map (\<lambda>n. take n p) (rev [0..<Suc (length p)])"

definition find_above :: "disk \<Rightarrow> path \<Rightarrow> path option" where
  "find_above d start = find (\<lambda>p. is_file d (p @ MARKER)) (upward start)"

definition search_above :: "disk \<Rightarrow> path \<Rightarrow> path option" where
  "search_above d start = find (marks d) (upward start)"

definition nothing_found :: "path option \<Rightarrow> fault" where
  "nothing_found cwd = Fault [] [] STORE (case cwd of
     None \<Rightarrow> ''no store was found: the working directory is gone, and nothing named one outright''
   | Some p \<Rightarrow> ''no store was found, neither above '' @ path_str p @ '' nor named outright'')"

definition locate :: "yaml \<Rightarrow> disk \<Rightarrow> (string \<Rightarrow> named_path) \<Rightarrow> path option \<Rightarrow> string option \<Rightarrow> exn + fault + found_root" where
  "locate y d placed cwd env =
     (let higher = (case cwd of None \<Rightarrow> None | Some p \<Rightarrow> search_above d p)
      in case env of
         None \<Rightarrow> (case higher of None \<Rightarrow> Inr (Inl (nothing_found cwd)) | Some p \<Rightarrow> found_at y d (named_at p))
       | Some value \<Rightarrow>
           if value = [] \<or> \<not> marks d (np_at (placed value))
             then Inr (Inl (Fault [] [] STORE (''KB_ROOT names a directory that holds no store: '' @ value)))
           else if (case higher of None \<Rightarrow> False | Some p \<Rightarrow> p \<noteq> np_real (placed value))
             then Inr (Inl (Fault [] [] STORE (''KB_ROOT names a store other than the one '' @ path_str (the cwd) @ '' is working in: KB_ROOT is ''
               @ np_shown (placed value) @ '', the working directory is inside '' @ path_str (the higher) @ ''; neither is guessed at'')))
           else found_at y d (placed value))"

definition locate_from :: "yaml \<Rightarrow> disk \<Rightarrow> named_path \<Rightarrow> exn + fault + found_root" where
  "locate_from y d root = (case search_above d (np_at root) of
     None \<Rightarrow> Inr (Inl (Fault [] [] STORE (''the root given holds no store, nor does anything above it: '' @ np_shown root)))
   | Some p \<Rightarrow> found_at y d (named_at p))"

definition directly :: "found_root \<Rightarrow> fault option" where
  "directly found = (case fr_address found of
     None \<Rightarrow> None
   | Some a \<Rightarrow> Some (Fault [] [] STORE (''these commands run where the store is, not through a server: '' @ np_shown (fr_root found)
       @ '' holds the connection to the server at '' @ address_str a)))"

definition root_given :: "disk \<Rightarrow> named_path \<Rightarrow> fault option" where
  "root_given d root = (if is_file d (np_at root @ MARKER) then None
     else Some (Fault [] [] STORE (''the root given holds no store: '' @ np_shown root)))"

section \<open>Where a store can be started\<close>

definition refused_root :: "string \<Rightarrow> exn + unit" where
  "refused_root message = Inl (Refused [Fault [] [] ROOT message])"

definition vacant :: "disk \<Rightarrow> path option \<Rightarrow> string \<Rightarrow> named_path \<Rightarrow> exn + unit" where
  "vacant d cwd verb root = (let named = repr_str (np_given root); at = np_at root in
     if \<not> np_absolute root \<and> cwd = None then refused_root
       (''a store is started in a directory that exists; whether '' @ named @ '' does depends on the working directory, and it is gone'')
     else if \<not> dk_there d at then refused_root (''a store is started in a directory that exists; '' @ named @ '' does not'')
     else if \<not> dk_directory d at then refused_root (''a store is started in a directory, and '' @ named @ '' is not one'')
     else if is_file d (at @ MARKER) then refused_root
       (''a store is never '' @ verb @ '' over another; '' @ named @ '' already has a store inside it'')
     else if dk_there d (at @ [hd MARKER]) \<or> dk_symlink d (at @ [hd MARKER]) then refused_root
       (''a store goes in a place of its own, and '' @ named @ '' already holds something in that place'')
     else case find_above d (butlast (np_real root)) of
       Some outer \<Rightarrow> refused_root (''stores do not nest; '' @ named @ '' is inside the store at '' @ repr_str (path_str outer))
     | None \<Rightarrow> if \<not> dk_writable d at then refused_root
         (''a store is '' @ verb @ '' in a directory kb can write, and '' @ named @ '' is not one'')
       else Inr ())"

section \<open>Whether a store is served\<close>

text \<open>\<open>_named\<close>: the address the lock's file names; what it holds is read as it stands.\<close>

definition served_named :: "yaml \<Rightarrow> disk \<Rightarrow> path \<Rightarrow> exn + address" where
  "served_named y d root = (case dk_file d (root @ LOCK_FILE) of
     Some (Content t) \<Rightarrow> rbind (plain_raised (canonical_load y t)) (\<lambda>v. case v of
         VMap m \<Rightarrow> (case dget m ''address'' of None \<Rightarrow> Inl (KeyError ''address'')
           | Some (VStr a) \<Rightarrow> read_address a | Some _ \<Rightarrow> Inl AttributeError)
       | _ \<Rightarrow> Inl TypeError)
   | Some Not_utf8 \<Rightarrow> Inl (ValueError ''it is not text in UTF-8'')
   | _ \<Rightarrow> Inl (ValueError ''it cannot be opened''))"

definition serving_at :: "yaml \<Rightarrow> disk \<Rightarrow> path \<Rightarrow> exn + address option" where
  "serving_at y d root = (if \<not> is_file d (root @ LOCK_FILE) then Inr None
     else if dk_held d (root @ LOCK_FILE) then rbind (served_named y d root) (\<lambda>a. Inr (Some a)) else Inr None)"

definition unserved :: "yaml \<Rightarrow> disk \<Rightarrow> path \<Rightarrow> exn + unit" where
  "unserved y d root = rbind (serving_at y d root) (\<lambda>at. case at of
     None \<Rightarrow> Inr () | Some a \<Rightarrow> Inl (Refused [served (address_str a)]))"

text \<open>\<open>owned\<close>: the file opened to append to, made where there is none, and its lock taken; \<open>mark\<close>: its text written anew.\<close>

definition lock_owned :: "yaml \<Rightarrow> disk \<Rightarrow> path \<Rightarrow> (exn + unit) \<times> disk" where
  "lock_owned y d root = (let p = root @ LOCK_FILE;
       d1 = (if dk_file d p = None then d \<lparr>dk_file := (dk_file d) (p := Some (Content []))\<rparr> else d)
     in if dk_held d p then (rbind (served_named y d1 root) (\<lambda>a. Inl (Refused [served (address_str a)])), d1)
        else (Inr (), d1 \<lparr>dk_held := (dk_held d1) (p := True)\<rparr>))"

definition lock_marked :: "yaml \<Rightarrow> disk \<Rightarrow> path \<Rightarrow> address \<Rightarrow> exn + disk" where
  "lock_marked y d root a = rbind (plain_raised (canonical_dump y [(KText ''address'', VStr (address_str a))])) (\<lambda>t.
     Inr (d \<lparr>dk_file := (dk_file d) (root @ LOCK_FILE := Some (Content t))\<rparr>))"

section \<open>Lemmas\<close>

lemma set_upward: "p \<in> set (upward q) \<longleftrightarrow> prefix p q"
proof
  assume "p \<in> set (upward q)"
  then show "prefix p q" by (auto simp: upward_def take_is_prefix)
next
  assume "prefix p q"
  then have "p = take (length p) q" "length p \<in> set (rev [0..<Suc (length q)])" by (auto simp: prefix_def)
  then show "p \<in> set (upward q)" unfolding upward_def set_map by (rule image_eqI)
qed

lemma nearest_upward:
  assumes "find P (upward q) = Some p"
  shows "P p" "prefix p q" "\<lbrakk>prefix r q; strict_prefix p r\<rbrakk> \<Longrightarrow> \<not> P r"
proof -
  from assms obtain i where i: "i < length (upward q)" "p = upward q ! i" "P p" "\<forall>j < i. \<not> P (upward q ! j)"
    by (auto simp: find_Some_iff)
  have nth: "upward q ! j = take (length q - j) q" if "j \<le> length q" for j
    using that by (simp add: upward_def rev_nth del: upt_Suc)
  have len: "length (upward q) = Suc (length q)" by (simp add: upward_def)
  show "P p" by (rule i(3))
  show "prefix p q" using i(1,2) nth len by (simp add: take_is_prefix)
  show "\<not> P r" if r: "prefix r q" "strict_prefix p r"
  proof -
    have p: "p = take (length q - i) q" "i \<le> length q" using i(1,2) nth len by auto
    have "length p < length r" "length r \<le> length q" using r by (auto dest: prefix_length_less prefix_length_le)
    then have j: "length q - length r < i" "length q - length r \<le> length q" using p by auto
    have "r = take (length r) q" using r(1) by (auto simp: prefix_def)
    then have "upward q ! (length q - length r) = r" using nth [OF j(2)] \<open>length r \<le> length q\<close> by simp
    with i(4) j(1) show ?thesis by metis
  qed
qed

lemma nothing_upward: "find P (upward q) = None \<longleftrightarrow> (\<forall>p. prefix p q \<longrightarrow> \<not> P p)"
  by (simp add: find_None_iff set_upward)

lemma found_at_exact:
  assumes "found_at y d root = Inr (Inr found)"
  shows "fr_root found = root" "is_file d (np_at root @ MARKER) \<longleftrightarrow> fr_address found = None"
    "fr_address found = None \<longrightarrow> \<not> is_file d (np_at root @ CONNECTION_FILE)"
    "fr_address found = Some a \<Longrightarrow> connection_at y d (np_at root @ CONNECTION_FILE) = Inr (Some a)"
  using assms by (auto simp: found_at_def rbind_Inr_iff split: if_splits option.splits)

text \<open>One store, at \<open>/a\<close>, looked for from \<open>/a/b\<close>.\<close>

definition one_store :: disk where
  "one_store = \<lparr>dk_file = (\<lambda>p. if p = ''a'' # MARKER then Some (Content ''store: 2'') else None),
     dk_there = (\<lambda>p. p \<in> {[], [''a''], [''a'', ''kb''], ''a'' # MARKER, [''a'', ''b'']}), dk_directory = (\<lambda>p. p \<in> {[], [''a''], [''a'', ''kb''], [''a'', ''b'']}),
     dk_symlink = (\<lambda>_. False), dk_writable = (\<lambda>_. True), dk_held = (\<lambda>_. False)\<rparr>"


section \<open>Where a store is started, none is above\<close>

lemma vacant_above:
  assumes "vacant d cwd verb root = Inr ()"
  shows "\<not> is_file d (np_at root @ MARKER)" "prefix p (butlast (np_real root)) \<Longrightarrow> \<not> is_file d (p @ MARKER)"
    "\<not> dk_there d (np_at root @ [''kb''])" "dk_directory d (np_at root)"
  using assms nothing_upward [of "\<lambda>p. is_file d (p @ MARKER)" "butlast (np_real root)"]
  by (auto simp: vacant_def Let_def refused_root_def find_above_def MARKER_def split: if_splits option.splits)

text \<open>A store is started above another, which is then inside it: only what is above is looked at.\<close>

lemma stores_nest_downward:
  "vacant one_store (Some []) ''started'' (named_at []) = Inr () \<and> is_file one_store ([''a''] @ MARKER)"
  by code_simp

text \<open>
  Between taking the lock and naming the address, a store served for the first time is served at an empty file's address: what
  asks to write is not refused as served but raises.
\<close>

lemma owned_unmarked:
  assumes "dk_file d (root @ LOCK_FILE) = None" "\<not> dk_held d (root @ LOCK_FILE)" "canonical_load y [] = Inr VNull"
  shows "\<exists>d'. lock_owned y d root = (Inr (), d') \<and> unserved y d' root = Inl TypeError"
  using assms by (simp add: lock_owned_def Let_def unserved_def serving_at_def is_file_def served_named_def plain_raised_def)

text \<open>
  A marker holding prose that cannot be written back, as no kb writes one, is not said to be a later kb's: comparing it
  with kb's own raises.
\<close>

lemma told_apart_raises:
  assumes "dk_file d (root @ MARKER) = Some (Content t)" "canonical_load y t = Inr (VMap [(KText ''body'', VStr ''a '')])"
  shows "\<exists>problem. told_apart y d root = Inl (ValueError problem)"
proof -
  have "(case canonical_dump y [(KText ''body'', VStr ''a '')] of Inl (NotCanonical _ _) \<Rightarrow> True | _ \<Rightarrow> False)" by code_simp
  then obtain problem where "plain_raised (canonical_dump y [(KText ''body'', VStr ''a '')]) = Inl (ValueError problem)"
    by (auto simp: plain_raised_def split: sum.splits unplain.splits)
  with assms show ?thesis by (simp add: told_apart_def loaded_from_def names_form_def)
qed

end
