(* ===== verification/KB_Boundary.thy ===== *)
theory KB_Boundary
  imports KB_Locating KB_Start KB_Export
begin

text \<open>
  \<open>boundary.py\<close>, \<open>escapes.py\<close>, \<open>responses.py\<close>, \<open>servicer.py\<close> and \<open>client.py\<close>: every call made inside one boundary, which
  answers it with a result or a refusal whatever is raised, over the store opened for it; the calls of the contract; and what
  a client's call goes to. How Python prints an exception is given, and so is what the network answers.
\<close>

section \<open>What escapes\<close>

datatype failing = By_port refusal | Earlier_store string | Later_store string | Unreadable_store string

definition escape_fault :: "(failing \<Rightarrow> string) \<Rightarrow> failing \<Rightarrow> fault" where
  "escape_fault said e = (case e of
     By_port (Raised (ClockFailed problem)) \<Rightarrow> clock_failed problem
   | By_port Busy_store \<Rightarrow> busy
   | Earlier_store root \<Rightarrow> earlier_kb root
   | Later_store root \<Rightarrow> later_kb root
   | Unreadable_store problem \<Rightarrow> unreadable problem
   | By_port (Integrity_error column) \<Rightarrow> unreadable (''UNIQUE constraint failed: '' @ column)
   | _ \<Rightarrow> escaped (said e))"

definition refusal_faults :: "(failing \<Rightarrow> string) \<Rightarrow> failing \<Rightarrow> fault list" where
  "refusal_faults said e = (case e of By_port (Raised (Refused faults)) \<Rightarrow> faults | _ \<Rightarrow> [escape_fault said e])"

text \<open>\<open>guarded\<close>: the client's clock, which raises, said as Python says it, or gives something, a moment or not.\<close>

definition guarded_clock :: "(nat \<Rightarrow> string + string + int) \<Rightarrow> clock" where
  "guarded_clock asked i = (case asked i of
     Inl raised \<Rightarrow> Inl (ClockFailed raised)
   | Inr (Inl other) \<Rightarrow> Inl (ClockFailed (''it gave '' @ other @ '', which is not a moment''))
   | Inr (Inr moment) \<Rightarrow> Inr moment)"

section \<open>The boundary\<close>

text \<open>A response: the result in its outcome or the refusal, never both; one with no outcome carries its faults alone.\<close>

datatype 'a answer = Answered 'a | Declined "fault list"

record opened_by =
  op_disk :: disk
  op_root :: named_path
  op_hosted :: bool
  op_unopened :: "string option"
  op_said :: "failing \<Rightarrow> string"

text \<open>\<open>store.opened\<close>: the marker told apart, then the adapter's opening, which may find the database unreadable.\<close>

definition store_opened :: "yaml \<Rightarrow> opened_by \<Rightarrow> failing option" where
  "store_opened y via = (case told_apart y (op_disk via) (np_at (op_root via)) of
     Inl e \<Rightarrow> Some (By_port (Raised e))
   | Inr Earlier_kb \<Rightarrow> Some (Earlier_store (np_shown (op_root via)))
   | Inr Later_kb \<Rightarrow> Some (Later_store (np_shown (op_root via)))
   | Inr Own_form \<Rightarrow> map_option Unreadable_store (op_unopened via))"

definition boundary_call :: "yaml \<Rightarrow> opened_by \<Rightarrow> bool \<Rightarrow> bool \<Rightarrow> (conn, 'a) act \<Rightarrow> conn \<Rightarrow> 'a answer \<times> conn" where
  "boundary_call y via writes at_moment rpc c = (let declined = (\<lambda>e. Declined (refusal_faults (op_said via) e)) in
     case (if writes \<and> \<not> op_hosted via then unserved y (op_disk via) (np_at (op_root via)) else Inr ()) of
       Inl e \<Rightarrow> (declined (By_port (Raised e)), c)
     | Inr _ \<Rightarrow> (case store_opened y via of
         Some e \<Rightarrow> (declined e, c)
       | None \<Rightarrow> (case (if at_moment then at_one_moment rpc else rpc) c of
           (Inl r, c') \<Rightarrow> (declined (By_port r), c')
         | (Inr x, c') \<Rightarrow> (Answered x, c'))))"

definition of_raised :: "exn + 'a \<Rightarrow> (conn, 'a) act" where
  "of_raised r c = (case r of Inl e \<Rightarrow> (Inl (Raised e), c) | Inr x \<Rightarrow> (Inr x, c))"

text \<open>\<open>streamed\<close>: what is given becomes messages until one raises, whose refusal is the last.\<close>

fun stream_messages :: "(failing \<Rightarrow> string) \<Rightarrow> (exn + 'a) list \<Rightarrow> 'a answer list" where
  "stream_messages said [] = []"
| "stream_messages said (Inl e # rest) = [Declined (refusal_faults said (By_port (Raised e)))]"
| "stream_messages said (Inr x # rest) = Answered x # stream_messages said rest"

definition boundary_stream :: "yaml \<Rightarrow> opened_by \<Rightarrow> (exn + 'a) list \<Rightarrow> 'a answer list" where
  "boundary_stream y via gives = (case store_opened y via of
     Some e \<Rightarrow> [Declined (refusal_faults (op_said via) e)] | None \<Rightarrow> stream_messages (op_said via) gives)"

section \<open>The calls that change\<close>

datatype change_call =
    Create_call signature create_item
  | Replace_call signature replace_item
  | Add_call signature add_item
  | Remove_call signature remove_item
  | Batch_create signature "create_item list" bool
  | Batch_replace signature "replace_item list" bool
  | Batch_add signature "add_item list"
  | Batch_remove signature "remove_item list"

definition call_set :: "yaml \<Rightarrow> change_call \<Rightarrow> exn + operation list \<times> signed" where
  "call_set y call = (case call of
     Create_call s i \<Rightarrow> creating y s i | Replace_call s i \<Rightarrow> replacing y s i
   | Add_call s i \<Rightarrow> adding y s i | Remove_call s i \<Rightarrow> removing s i
   | Batch_create s is _ \<Rightarrow> creating_many y s is | Batch_replace s is _ \<Rightarrow> replacing_many y s is
   | Batch_add s is \<Rightarrow> adding_many y s is | Batch_remove s is \<Rightarrow> removing_many s is)"

definition checked_only :: "change_call \<Rightarrow> bool" where
  "checked_only call = (case call of Batch_create _ _ only \<Rightarrow> only | Batch_replace _ _ only \<Rightarrow> only | _ \<Rightarrow> False)"

text \<open>What one change answers: its artifact or item, its revision, and, for an item added, the artifact it went to.\<close>

datatype changed =
    Created_answer string int
  | Replaced_answer string int
  | Added_answer string int string
  | Removed_answer string int

definition responses_created :: "set_result \<Rightarrow> changed" where
  "responses_created r = Created_answer (iri_of (rs_artifact r)) (rs_revision r)"
definition responses_replaced :: "set_result \<Rightarrow> changed" where
  "responses_replaced r = Replaced_answer (iri_of (rs_artifact r)) (rs_revision r)"
definition responses_added :: "set_result \<Rightarrow> changed" where
  "responses_added r = Added_answer (rs_item r) (rs_revision r) (iri_of (rs_artifact r))"
definition responses_removed :: "set_result \<Rightarrow> changed" where
  "responses_removed r = Removed_answer (iri_of (rs_artifact r)) (rs_revision r)"

datatype change_answer = One_change changed | Set_landed string "changed list"

definition responses_landed :: "landed \<Rightarrow> (set_result \<Rightarrow> changed) \<Rightarrow> change_answer" where
  "responses_landed l each = Set_landed (ld_batch l) (map each (ld_results l))"

definition first_result :: "landed \<Rightarrow> (set_result \<Rightarrow> changed) \<Rightarrow> (conn, change_answer) act" where
  "first_result l each = of_raised (case ld_results l of [] \<Rightarrow> Inl IndexError | r # _ \<Rightarrow> Inr (One_change (each r)))"

definition call_answer :: "change_call \<Rightarrow> landed \<Rightarrow> (conn, change_answer) act" where
  "call_answer call l = (case call of
     Create_call _ _ \<Rightarrow> first_result l responses_created | Replace_call _ _ \<Rightarrow> first_result l responses_replaced
   | Add_call _ _ \<Rightarrow> first_result l responses_added | Remove_call _ _ \<Rightarrow> first_result l responses_removed
   | Batch_create _ _ _ \<Rightarrow> act_return (responses_landed l responses_created)
   | Batch_replace _ _ _ \<Rightarrow> act_return (responses_landed l responses_replaced)
   | Batch_add _ _ \<Rightarrow> act_return (responses_landed l responses_added)
   | Batch_remove _ _ \<Rightarrow> act_return (responses_landed l responses_removed))"

definition servicer_change :: "writing \<Rightarrow> opened_by \<Rightarrow> between \<Rightarrow> clock \<Rightarrow> change_call \<Rightarrow> conn \<Rightarrow> change_answer answer \<times> conn" where
  "servicer_change w via b clock call = boundary_call (yaml_of (w_outside w)) via (\<not> checked_only call) False
     (act_bind (of_raised (call_set (yaml_of (w_outside w)) call)) (\<lambda>(ops, who).
      act_bind (if checked_only call then write_checked w ops else write_land w b ops who clock) (call_answer call)))"

section \<open>A refused call writes nothing\<close>

lemma minted_empty: "minted held [] = []"
  by (simp add: minted_def)

lemma landing_results: "set_landing w who other f (dr, moments) c = (Inr l, c') \<Longrightarrow> ld_results l = drafted_results dr \<and> moments \<noteq> []"
  by (cases moments) (auto simp: set_landing_def minted_empty split: list.splits prod.splits sum.splits)

lemma readied_moments: "readied w db ops clock = Inr (dr, moments) \<Longrightarrow> length moments = length (df_changes dr)"
  by (auto simp: readied_def clock_moments_def rbind_Inr_iff rall_Inr_iff dest!: arg_cong [of _ _ length])

lemma exclusive_Inr: "exclusive other body c = (Inr x, c') \<Longrightarrow> \<exists>c1 c2. body c1 = (Inr x, c2)"
  by (auto simp: exclusive_def split: if_splits prod.splits sum.splits)

lemma landed_has_results:
  assumes "write_land w b ops who clock c = (Inr l, c')"
  shows "ld_results l \<noteq> []"
proof -
  have lands: "ld_results l \<noteq> []"
    if "readied w db ops clock' = Inr (dr, moments)" "set_landing w who other f (dr, moments) c1 = (Inr l, c2)" for db clock' dr moments other f c1 c2
  proof -
    from landing_results [OF that(2)] have "ld_results l = drafted_results dr" "moments \<noteq> []" by simp_all
    with readied_moments [OF that(1)] show ?thesis by (auto simp: drafted_results_def)
  qed
  have locked: "ld_results l \<noteq> []" if "landed_locked w who other ops clock' c1 = (Inr l, c2)" for other clock' c1 c2
  proof -
    from exclusive_Inr [OF that [unfolded landed_locked_def]] obtain c3 c4 where
      "(case readied w (view c3) ops clock' of Inl e \<Rightarrow> (Inl (Raised e), c3) | Inr ready \<Rightarrow> set_landing w who False id ready c3) = (Inr l, c4)" by blast
    then obtain dr moments where "readied w (view c3) ops clock' = Inr (dr, moments)" "set_landing w who False id (dr, moments) c3 = (Inr l, c4)"
      by (cases "readied w (view c3) ops clock'") auto
    then show ?thesis by (rule lands)
  qed
  from assms show ?thesis
    by (auto simp: write_land_def Let_def split: sum.splits prod.splits if_splits dest: locked lands)
qed

lemma of_raised_simps [simp]: "of_raised (Inl e) = act_refuse (Raised e)" "of_raised (Inr x) = act_return x"
  by (auto simp: of_raised_def act_refuse_def act_return_def)

lemma call_answered: "ld_results l \<noteq> [] \<Longrightarrow> \<exists>x. call_answer call l c = (Inr x, c)"
  by (cases "ld_results l"; cases call) (simp_all add: call_answer_def first_result_def act_return_def)

lemma call_answer_same: "snd (call_answer call l c) = c"
  by (cases "ld_results l"; cases call) (simp_all add: call_answer_def first_result_def act_return_def act_refuse_def)


text \<open>A note removed from the store of one note, its marker read as this kb's.\<close>

definition kept_writing :: writing where
  "kept_writing = plain_writing \<lparr>w_outside := (w_outside plain_writing)
     \<lparr>yaml_of := plain_yaml \<lparr>y_load := (\<lambda>_. Inr (VMap [(KText ''store'', VInt 2)]))\<rparr>\<rparr>\<rparr>"

definition kept_open :: opened_by where
  "kept_open = \<lparr>op_disk = one_store, op_root = named_at [''a''], op_hosted = False, op_unopened = None, op_said = (\<lambda>_. [])\<rparr>"

definition note_removal_call :: change_call where
  "note_removal_call = Remove_call \<lparr>sg_role = ''r'', sg_execution = [], sg_message = ''m''\<rparr>
     \<lparr>xi_locator = \<lparr>req_id = ''https://a.io/t/x'', req_place = []\<rparr>, xi_revision = 3\<rparr>"


section \<open>Times asked for\<close>

text \<open>
  A time as ISO 8601 gives it: microseconds since 1970 as it is written, and its offset from UTC where it has one; reading the
  text is given. A moment UTC cannot write, before the year 1 or after 9999, is \<open>OverflowError\<close>.
\<close>

definition FIRST_MOMENT :: int where "FIRST_MOMENT = -62135596800000000"
definition LAST_MOMENT :: int where "LAST_MOMENT = 253402300799999999"

definition in_utc :: "int \<times> int option \<Rightarrow> exn + int" where
  "in_utc t = (let at = fst t - (case snd t of None \<Rightarrow> 0 | Some offset \<Rightarrow> offset)
     in if at < FIRST_MOMENT \<or> LAST_MOMENT < at then Inl OverflowError else Inr at)"

definition values_since :: "(string \<Rightarrow> (int \<times> int option) option) \<Rightarrow> string \<Rightarrow> exn + int" where
  "values_since calendar t = (case calendar t of
     None \<Rightarrow> Inl (Refused [Fault [] [] SINCE
       (''a time is written in ISO 8601, as 2026-09-22 or 2026-09-22T09:00:00Z; '' @ repr_str t @ '' is not'')])
   | Some moment \<Rightarrow> in_utc moment)"

definition history_of :: "(string \<Rightarrow> (int \<times> int option) option) \<Rightarrow> string \<Rightarrow> string \<Rightarrow> string \<Rightarrow> string \<Rightarrow> string \<Rightarrow> exn + history_asked" where
  "history_of calendar artifact role execution since batch =
     rbind (converted values_artifact_id artifact False) (\<lambda>(a, faults).
     rbind (converted (values_since calendar) since False) (\<lambda>(at, more_faults).
     if faults @ more_faults \<noteq> [] then Inl (Refused (faults @ more_faults))
     else Inr \<lparr>h_artifact = a, h_role = role, h_execution = execution, h_since = at, h_batch = batch\<rparr>))"

text \<open>A time written before the year 1 in UTC is no refusal of the time: it raises, and is answered as the store's failing.\<close>

lemma since_overflows:
  assumes "calendar t = Some (FIRST_MOMENT, Some 18000000000)" "t \<noteq> []"
  shows "history_of calendar [] role execution t batch = Inl OverflowError"
    and "refusal_faults said (By_port (Raised OverflowError)) = [escaped (said (By_port (Raised OverflowError)))]"
  using assms by (simp_all add: history_of_def converted_def values_since_def in_utc_def refusal_faults_def escape_fault_def)

section \<open>The calls that only read\<close>

datatype read_call =
    Read_call locator_request "string option" nat string
  | Check_call
  | History_call string string string string string
  | Search_call string string scope
  | Follow_call locator_request string nat string bool string
  | List_call string string "(string \<times> string) list" bool
  | Placeholders_call

datatype read_answer =
    Read_answer artifact_read
  | Checked_answer checked_store
  | Entries_answer "entry_read list"
  | Found_answer "match_read list"
  | Followed_answer "reached list"
  | Listed_answer listed_all
  | Placeholders_answer "placeholder list"

record looking =
  lo_matches :: "string \<Rightarrow> string list \<Rightarrow> bool"
  lo_dots :: string
  lo_iso :: "string \<Rightarrow> (int \<times> int option) option"

definition servicer_reads :: "writing \<Rightarrow> looking \<Rightarrow> read_call \<Rightarrow> db \<Rightarrow> exn + read_answer" where
  "servicer_reads w lo call db =
     (let out = w_outside w; n = read_fuel out; y = yaml_of out; written = w_written w; c = sq_corpus written db; p = sq_port written db;
          ids = (\<lambda>k fields path leaving. sq_ids written db k fields path leaving)
      in case call of
        Read_call request level depth title \<Rightarrow> rbind (reading_of request level depth title) (\<lambda>asked.
          rbind (read_artifact n y c (sq_inbound db) asked) (\<lambda>r. Inr (Read_answer r)))
      | Check_call \<Rightarrow> rbind (ids None [] None []) (\<lambda>names. rbind (check_everything out p names) (\<lambda>r. Inr (Checked_answer r)))
      | History_call artifact role execution since batch \<Rightarrow> rbind (history_of (lo_iso lo) artifact role execution since batch) (\<lambda>asked.
          rbind (query_entries (sq_history db) asked) (\<lambda>r. Inr (Entries_answer r)))
      | Search_call k t sc \<Rightarrow> rbind (searching_of k t sc) (\<lambda>asked.
          rbind (query_found (lo_dots lo) n y c (sq_search (lo_matches lo) db) asked) (\<lambda>r. Inr (Found_answer r)))
      | Follow_call request k depth via inward path \<Rightarrow> rbind (following_of request k depth via inward path) (\<lambda>asked.
          rbind (query_walk n y p asked) (\<lambda>r. Inr (Followed_answer r)))
      | List_call k path in_fields only_ids \<Rightarrow> rbind (listing_of k path in_fields only_ids) (\<lambda>asked.
          rbind (query_listing n y c ids asked) (\<lambda>r. Inr (Listed_answer r)))
      | Placeholders_call \<Rightarrow> Inr (Placeholders_answer (query_placeholders p)))"

definition servicer_read :: "writing \<Rightarrow> looking \<Rightarrow> opened_by \<Rightarrow> read_call \<Rightarrow> conn \<Rightarrow> read_answer answer \<times> conn" where
  "servicer_read w lo via call = boundary_call (yaml_of (w_outside w)) via False True (\<lambda>c. of_raised (servicer_reads w lo call (view c)) c)"

definition servicer_snapshot :: "writing \<Rightarrow> opened_by \<Rightarrow> between \<Rightarrow> clock \<Rightarrow> signature \<Rightarrow> string list \<Rightarrow> conn \<Rightarrow> string answer \<times> conn" where
  "servicer_snapshot w via b clock s names = boundary_call (yaml_of (w_outside w)) via True False
     (act_bind (of_raised (snapshot_of s names)) (\<lambda>(named, who). write_record w b named who clock))"

text \<open>A call that only reads leaves the store as it was, and answers of the store as it stood when it began.\<close>

lemma reads_leave:
  assumes "idle c" "servicer_read w lo via call c = (answer, c')"
  shows "c' = c" "answer = Answered x \<Longrightarrow> servicer_reads w lo call (k_committed c) = Inr x"
proof -
  let ?r = "servicer_reads w lo call (k_committed c)"
  have moment: "at_one_moment (\<lambda>c. of_raised (servicer_reads w lo call (view c)) c) c =
    (case ?r of Inl e \<Rightarrow> Inl (Raised e) | Inr x \<Rightarrow> Inr x, c)"
    using at_one_moment_idle [OF assms(1), where f = "servicer_reads w lo call" and g = "\<lambda>x. x"] by (simp add: of_raised_def)
  from assms(2) moment show "c' = c" "answer = Answered x \<Longrightarrow> servicer_reads w lo call (k_committed c) = Inr x"
    by (auto simp: servicer_read_def boundary_call_def Let_def split: sum.splits option.splits)
qed

section \<open>What a client's call goes to\<close>

record where_answer =
  wh_root :: string
  wh_address :: string
  wh_faults :: "fault list"

definition client_where :: "fault + found_root \<Rightarrow> where_answer" where
  "client_where found = (case found of
     Inl fault \<Rightarrow> \<lparr>wh_root = [], wh_address = [], wh_faults = [fault]\<rparr>
   | Inr f \<Rightarrow> \<lparr>wh_root = np_shown (fr_root f), wh_address = (case fr_address f of None \<Rightarrow> [] | Some a \<Rightarrow> address_str a), wh_faults = []\<rparr>)"

definition client_call :: "fault + found_root \<Rightarrow> bool \<Rightarrow> bool \<Rightarrow> (address \<Rightarrow> 'a answer) \<Rightarrow> (named_path \<Rightarrow> conn \<Rightarrow> 'a answer \<times> conn) \<Rightarrow>
    conn \<Rightarrow> 'a answer \<times> conn" where
  "client_call found has_clock writes called local c = (case found of
     Inl fault \<Rightarrow> (Declined [fault], c)
   | Inr f \<Rightarrow> (case fr_address f of
       Some a \<Rightarrow> if has_clock \<and> writes then (Declined [clock_with_a_server], c) else (called a, c)
     | None \<Rightarrow> local (fr_root f) c))"

definition client_found :: "yaml \<Rightarrow> disk \<Rightarrow> (string \<Rightarrow> named_path) \<Rightarrow> path option \<Rightarrow> string option \<Rightarrow> named_path option \<Rightarrow> exn + fault + found_root" where
  "client_found y d placed cwd env root = (case root of Some r \<Rightarrow> locate_from y d r | None \<Rightarrow> locate y d placed cwd env)"

definition client_operated :: "fault + found_root \<Rightarrow> (named_path \<Rightarrow> conn \<Rightarrow> 'a answer \<times> conn) \<Rightarrow> conn \<Rightarrow> 'a answer \<times> conn" where
  "client_operated found command c = (case found of
     Inl fault \<Rightarrow> (Declined [fault], c)
   | Inr f \<Rightarrow> (case directly f of Some fault \<Rightarrow> (Declined [fault], c) | None \<Rightarrow> command (fr_root f) c))"

section \<open>Streams\<close>

text \<open>A stream gives what was read before anything raised, and then, at most once and last, the refusal.\<close>

lemma stream_shape:
  "stream_messages said gives = map Answered (map projr (takeWhile (\<lambda>x. \<not> isl x) gives)) @
     (case dropWhile (\<lambda>x. \<not> isl x) gives of [] \<Rightarrow> [] | x # _ \<Rightarrow> [Declined (refusal_faults said (By_port (Raised (projl x))))])"
  by (induction said gives rule: stream_messages.induct) auto

end
