(* ===== verification/KB_Staging.thy ===== *)
theory KB_Staging
  imports KB_Boundary KB_Importing
begin

text \<open>
  \<open>staging.py\<close>, \<open>start\<close> of \<open>store.py\<close> and the restoring of \<open>backups.py\<close>: a store made in a staging place beneath its root and
  put in place by one rename. What stands in the root is a record of the place a store goes and of the staging place; a run
  is the states it passes through, one for each call to the file system, and how it ends, so that stopping anywhere leaves
  one of them. Which calls fail, and what is left in a directory while it is being removed, are given.
\<close>

section \<open>A root and the runs over it\<close>

record store_place =
  pl_database :: "db option"
  pl_marker :: "string option"

record yard =
  yd_store :: "store_place option"
  yd_staging :: "store_place option option"

datatype halted = Not_started "fault list" | Uncaught "fault list" | Os_failed

type_synonym 'a run = "yard \<Rightarrow> yard list \<times> (halted + 'a)"

definition after :: "yard \<Rightarrow> yard list \<Rightarrow> yard" where
  "after y passed = last (y # passed)"

definition run_bind :: "'a run \<Rightarrow> ('a \<Rightarrow> 'b run) \<Rightarrow> 'b run" where
  "run_bind m f y = (case m y of
     (passed, Inl e) \<Rightarrow> (passed, Inl e)
   | (passed, Inr x) \<Rightarrow> (case f x (after y passed) of (later, r) \<Rightarrow> (passed @ later, r)))"

definition run_return :: "'a \<Rightarrow> 'a run" where "run_return x y = ([], Inr x)"
definition run_halt :: "halted \<Rightarrow> 'a run" where "run_halt e y = ([], Inl e)"

text \<open>\<open>finally\<close>: what ends last says how the run ends, when it fails.\<close>

definition run_finally :: "'a run \<Rightarrow> unit run \<Rightarrow> 'a run" where
  "run_finally m final y = (case m y of (passed, r) \<Rightarrow> (case final (after y passed) of
     (later, Inl e) \<Rightarrow> (passed @ later, Inl e) | (later, Inr _) \<Rightarrow> (passed @ later, r)))"

definition run_call :: "bool \<Rightarrow> halted \<Rightarrow> (yard \<Rightarrow> yard) \<Rightarrow> unit run" where
  "run_call fails e f y = (if fails then ([], Inl e) else ([f y], Inr ()))"

text \<open>What the file system does: which of its calls fail, and what is left of a directory at each point of its removal.\<close>

datatype os_call = Clear_first | Make_staging | Make_place | Make_database | Write_marker | End_marker | Remove_place | Rename | Take_back | Clear_last

record weather =
  we_fails :: "os_call \<Rightarrow> bool"
  we_left :: "os_call \<Rightarrow> store_place option list"
  we_left_place :: "store_place list"
  we_said :: string

definition os_faults :: "weather \<Rightarrow> fault list" where "os_faults w = [escaped (we_said w)]"

section \<open>The staging place\<close>

definition staging_cleared :: "weather \<Rightarrow> os_call \<Rightarrow> halted \<Rightarrow> unit run" where
  "staging_cleared w call e y = (if yd_staging y = None then ([], Inr ())
     else (let partial = map (\<lambda>p. y \<lparr>yd_staging := Some p\<rparr>) (we_left w call)
           in if we_fails w call then (partial, Inl e) else (partial @ [y \<lparr>yd_staging := None\<rparr>], Inr ())))"

definition staging_emptied :: "weather \<Rightarrow> unit run" where
  "staging_emptied w = run_bind (staging_cleared w Clear_first (Not_started (os_faults w))) (\<lambda>_.
     run_call (we_fails w Make_staging) (Not_started (os_faults w)) (\<lambda>y. y \<lparr>yd_staging := Some None\<rparr>))"

definition staged :: "weather \<Rightarrow> 'a run \<Rightarrow> 'a run" where
  "staged w body = run_bind (staging_emptied w) (\<lambda>_. run_finally body (staging_cleared w Clear_last Os_failed))"

text \<open>\<open>os.rename\<close> of the place in the staging place to where a store goes, and back.\<close>

definition staging_placed :: "weather \<Rightarrow> unit run" where
  "staging_placed w y = (case yd_staging y of
     Some (Some p) \<Rightarrow> if yd_store y = None then run_call (we_fails w Rename) Os_failed (\<lambda>y. y \<lparr>yd_store := Some p, yd_staging := Some None\<rparr>) y
       else ([], Inl Os_failed)
   | _ \<Rightarrow> ([], Inl Os_failed))"

definition taken_back :: "weather \<Rightarrow> unit run" where
  "taken_back w = staged w (\<lambda>y. case yd_store y of
     Some p \<Rightarrow> run_call (we_fails w Take_back) Os_failed (\<lambda>y. y \<lparr>yd_store := None, yd_staging := Some (Some p)\<rparr>) y
   | None \<Rightarrow> ([], Inl Os_failed))"

section \<open>A store made in the staging place\<close>

text \<open>
  \<open>store.start\<close> there: the place, the database, what fills it committed in one transaction, and the marker last; the
  place is removed again when the database or the marker cannot be made.
\<close>

definition in_staging :: "(store_place \<Rightarrow> store_place) \<Rightarrow> yard \<Rightarrow> yard" where
  "in_staging f y = y \<lparr>yd_staging := map_option (map_option f) (yd_staging y)\<rparr>"

definition place_removed :: "weather \<Rightarrow> fault list \<Rightarrow> unit run" where
  "place_removed w faults y = (let partial = map (\<lambda>p. y \<lparr>yd_staging := Some (Some p)\<rparr>) (we_left_place w)
     in if we_fails w Remove_place then (partial, Inl (Not_started (os_faults w)))
        else (partial @ [y \<lparr>yd_staging := Some None\<rparr>], Inl (Not_started faults)))"

definition run_else :: "unit run \<Rightarrow> (fault list \<Rightarrow> unit run) \<Rightarrow> unit run" where
  "run_else m handler y = (case m y of
     (passed, Inl (Not_started faults)) \<Rightarrow> (case handler faults (after y passed) of (later, r) \<Rightarrow> (passed @ later, r))
   | ended \<Rightarrow> ended)"

text \<open>What is raised while the database is filled; SQLite's own errors remove the place, as the file system's do.\<close>

definition filled_or_halted :: "(failing \<Rightarrow> string) \<Rightarrow> refusal + db \<Rightarrow> unit run" where
  "filled_or_halted said fills = (case fills of
     Inl r \<Rightarrow> run_halt ((case r of Integrity_error _ \<Rightarrow> Not_started | _ \<Rightarrow> Uncaught) (refusal_faults said (By_port r)))
   | Inr db \<Rightarrow> run_call False Os_failed (in_staging (pl_database_update (\<lambda>_. Some db))))"

definition place_filled :: "weather \<Rightarrow> (failing \<Rightarrow> string) \<Rightarrow> db \<Rightarrow> refusal + db \<Rightarrow> string \<Rightarrow> unit run" where
  "place_filled w said made fills marker =
     run_bind (run_call (we_fails w Make_database) (Not_started (os_faults w)) (in_staging (pl_database_update (\<lambda>_. Some made)))) (\<lambda>_.
     run_bind (filled_or_halted said fills) (\<lambda>_.
     run_bind (run_call (we_fails w Write_marker) (Not_started (os_faults w)) (in_staging (pl_marker_update (\<lambda>_. Some [])))) (\<lambda>_.
     run_call (we_fails w End_marker) (Not_started (os_faults w)) (in_staging (pl_marker_update (\<lambda>_. Some marker))))))"

definition store_start :: "weather \<Rightarrow> (failing \<Rightarrow> string) \<Rightarrow> db \<Rightarrow> refusal + db \<Rightarrow> string \<Rightarrow> unit run" where
  "store_start w said made fills marker =
     run_bind (run_call (we_fails w Make_place) (Not_started (os_faults w))
       (\<lambda>y. y \<lparr>yd_staging := Some (Some \<lparr>pl_database = None, pl_marker = None\<rparr>)\<rparr>)) (\<lambda>_.
     run_else (place_filled w said made fills marker) (place_removed w))"

section \<open>Stores started, seeded and restored\<close>

text \<open>\<open>starting.init\<close>: every exception is a refusal of the start.\<close>

definition run_noted :: "unit run \<Rightarrow> unit run" where
  "run_noted m y = (case m y of
     (passed, Inl (Uncaught faults)) \<Rightarrow> (passed, Inl (Not_started faults)) | ended \<Rightarrow> ended)"

definition staging_init :: "weather \<Rightarrow> (failing \<Rightarrow> string) \<Rightarrow> exn + refusal + db \<Rightarrow> string \<Rightarrow> unit run" where
  "staging_init w said begun marker = (case begun of
     Inl e \<Rightarrow> run_halt (Not_started (refusal_faults said (By_port (Raised e))))
   | Inr fills \<Rightarrow> run_noted (store_start w said made_db fills marker))"

definition not_refused :: "fault list \<Rightarrow> 'a run \<Rightarrow> 'a run" where
  "not_refused faults m = (if faults \<noteq> [] then run_halt (Not_started faults) else m)"

definition staging_started :: "weather \<Rightarrow> (failing \<Rightarrow> string) \<Rightarrow> fault list \<Rightarrow> exn + refusal + db \<Rightarrow> string \<Rightarrow> unit run" where
  "staging_started w said occupied begun marker = not_refused occupied
     (staged w (run_bind (staging_init w said begun marker) (\<lambda>_. staging_placed w)))"

text \<open>A store seeded: the directory's files imported into the one started, and placed only when the import has no faults.\<close>

definition staging_imported :: "(conn \<Rightarrow> 'a answer \<times> conn) \<Rightarrow> ('a \<Rightarrow> fault list) \<Rightarrow> fault list run" where
  "staging_imported command faults_in y = (case yd_staging y of
     Some (Some p) \<Rightarrow> (case pl_database p of
         Some db \<Rightarrow> (case command (opened_db db) of (answer, c) \<Rightarrow>
             ([in_staging (pl_database_update (\<lambda>_. Some (k_committed c))) y],
              Inr (case answer of Declined faults \<Rightarrow> faults | Answered report \<Rightarrow> faults_in report)))
       | None \<Rightarrow> ([], Inl Os_failed))
   | _ \<Rightarrow> ([], Inl Os_failed))"

definition staging_seeded :: "weather \<Rightarrow> (failing \<Rightarrow> string) \<Rightarrow> fault list \<Rightarrow> exn + refusal + db \<Rightarrow> string \<Rightarrow>
    (conn \<Rightarrow> 'a answer \<times> conn) \<Rightarrow> ('a \<Rightarrow> fault list) \<Rightarrow> fault list run" where
  "staging_seeded w said occupied begun marker command faults_in = not_refused occupied
     (staged w (run_bind (staging_init w said begun marker) (\<lambda>_.
        run_bind (staging_imported command faults_in) (\<lambda>faults.
        if faults \<noteq> [] then run_return faults else run_bind (staging_placed w) (\<lambda>_. run_return [])))))"

text \<open>\<open>backups.read\<close>, of the mark and the form a file's header holds, nothing where it has none; then the copy restored.\<close>

definition backup_read :: "string \<Rightarrow> int \<Rightarrow> (int \<times> int) option \<Rightarrow> fault list" where
  "backup_read named own_mark header = (case header of
     None \<Rightarrow> [not_a_backup named]
   | Some (mark, form) \<Rightarrow> if mark \<noteq> own_mark then [not_a_backup named]
       else if form < STORE_FORM then [backup_by_earlier_kb named]
       else if STORE_FORM < form then [backup_by_later_kb named] else [])"

definition run_answered :: "unit run \<Rightarrow> fault list run" where
  "run_answered m y = (case m y of
     (passed, Inr _) \<Rightarrow> (passed, Inr [])
   | (passed, Inl (Not_started faults)) \<Rightarrow> (passed, Inr faults)
   | (passed, Inl e) \<Rightarrow> (passed, Inl e))"

definition staging_restored :: "weather \<Rightarrow> (failing \<Rightarrow> string) \<Rightarrow> fault list \<Rightarrow> fault list \<Rightarrow> db \<Rightarrow> string \<Rightarrow> fault list run" where
  "staging_restored w said occupied unreadable_backup copy marker = not_refused occupied (not_refused unreadable_backup
     (staged w (run_bind (run_answered (run_noted (store_start w said copy (Inr copy) marker))) (\<lambda>faults.
        if faults \<noteq> [] then run_return faults else run_bind (staging_placed w) (\<lambda>_. run_return [])))))"

text \<open>A store started for a server: taken back out unless it was kept, or another server owns it.\<close>

datatype block_end = Block_kept | Block_refused | Block_left

definition staging_serving :: "weather \<Rightarrow> weather \<Rightarrow> (failing \<Rightarrow> string) \<Rightarrow> fault list \<Rightarrow> exn + refusal + db \<Rightarrow> string \<Rightarrow> block_end \<Rightarrow> unit run" where
  "staging_serving w w' said occupied begun marker ended =
     run_bind (staging_started w said occupied begun marker) (\<lambda>_. if ended = Block_left then taken_back w' else run_return ())"

section \<open>The operator's commands, and where a store may start\<close>

definition operator_import_check :: "writing \<Rightarrow> opened_by \<Rightarrow> directory \<Rightarrow> conn \<Rightarrow> checked_files answer \<times> conn" where
  "operator_import_check w via dir = (let out = w_outside w in boundary_call (yaml_of out) via False True (\<lambda>c. of_raised
     (rbind (offers_offered (yaml_of out) dir (\<lambda>_. False)) (\<lambda>offered.
      rbind (examined out (sq_port (w_written w) (view c)) offered) (\<lambda>(report, _). Inr report))) c))"

definition operator_import :: "writing \<Rightarrow> opened_by \<Rightarrow> bool \<Rightarrow> clock \<Rightarrow> string \<Rightarrow> directory \<Rightarrow> string \<Rightarrow> bool \<Rightarrow> (string list \<Rightarrow> bool) \<Rightarrow>
    conn \<Rightarrow> checked_files answer \<times> conn" where
  "operator_import w via other clock named dir role skip_errors passed_over = boundary_call (yaml_of (w_outside w)) via True False
     (act_bind (of_raised (signature_signed \<lparr>sg_role = role, sg_execution = [], sg_message = ''import '' @ named\<rparr>)) (\<lambda>who.
      import_directory w other dir passed_over who skip_errors clock))"

text \<open>\<open>backups.made\<close>, of what copying the database there gives: nothing raised, something already there, or what the system said.\<close>

datatype copying = Copied | Copy_there | Copy_failed string

definition backup_made :: "disk \<Rightarrow> named_path \<Rightarrow> copying \<Rightarrow> exn + unit" where
  "backup_made d to copy = (let refuse = (\<lambda>fault. Inl (Refused [fault])) in
     if dk_symlink d (np_at to) \<or> dk_there d (np_at to) then refuse (backup_would_overwrite (np_given to))
     else case copy of
       Copied \<Rightarrow> Inr ()
     | Copy_there \<Rightarrow> refuse (backup_would_overwrite (np_given to))
     | Copy_failed problem \<Rightarrow> refuse (backup_cannot_be_written (np_given to) problem))"

definition starting_refused :: "(failing \<Rightarrow> string) \<Rightarrow> disk \<Rightarrow> path option \<Rightarrow> (string \<Rightarrow> named_path) \<Rightarrow> string + string \<Rightarrow> string \<Rightarrow> fault list" where
  "starting_refused said d cwd placed asked verb = (case rbind (roots_root placed asked) (vacant d cwd verb) of
     Inl e \<Rightarrow> refusal_faults said (By_port (Raised e)) | Inr _ \<Rightarrow> [])"

definition staging_wanted :: "disk \<Rightarrow> named_path \<Rightarrow> bool" where
  "staging_wanted d root \<longleftrightarrow> root_given d root \<noteq> None \<and> \<not> is_file d (np_at root @ CONNECTION_FILE)"

section \<open>What holds of every state passed through\<close>

text \<open>
  From a state where \<open>P\<close> and \<open>Q\<close> hold, \<open>Q\<close> holds of every state the run passes through, \<open>R\<close> of how it ends and \<open>E\<close> of how it
  halts.
\<close>

definition runs :: "(yard \<Rightarrow> bool) \<Rightarrow> (yard \<Rightarrow> bool) \<Rightarrow> 'a run \<Rightarrow> ('a \<Rightarrow> yard \<Rightarrow> bool) \<Rightarrow> (halted \<Rightarrow> yard \<Rightarrow> bool) \<Rightarrow> bool" where
  "runs Q P m R E \<longleftrightarrow> (\<forall>y. Q y \<and> P y \<longrightarrow> (\<forall>z \<in> set (fst (m y)). Q z) \<and>
     (case snd (m y) of Inl e \<Rightarrow> E e (after y (fst (m y))) | Inr x \<Rightarrow> R x (after y (fst (m y)))))"

lemma after_append: "after y (xs @ ys) = after (after y xs) ys"
  by (cases ys rule: rev_cases; cases xs rule: rev_cases) (simp_all add: after_def)

lemma after_Nil [simp]: "after y [] = y"
  by (simp add: after_def)

lemma after_one [simp]: "after y [z] = z"
  by (simp add: after_def)

lemma after_fine: "Q y \<Longrightarrow> \<forall>z \<in> set passed. Q z \<Longrightarrow> Q (after y passed)"
  by (cases passed rule: rev_cases) (simp_all add: after_def)

lemma runs_bind:
  assumes "runs Q P m R E" "\<And>x. runs Q (R x) (f x) S E"
  shows "runs Q P (run_bind m f) S E"
  unfolding runs_def
proof (intro allI impI)
  fix y assume y: "Q y \<and> P y"
  obtain passed r where m: "m y = (passed, r)" by fastforce
  from assms(1) y have "(\<forall>z \<in> set (fst (m y)). Q z) \<and>
      (case snd (m y) of Inl e \<Rightarrow> E e (after y (fst (m y))) | Inr x \<Rightarrow> R x (after y (fst (m y))))" unfolding runs_def by blast
  with m have passed: "\<forall>z \<in> set passed. Q z" "case r of Inl e \<Rightarrow> E e (after y passed) | Inr x \<Rightarrow> R x (after y passed)"
    by (cases r; simp)+
  show "(\<forall>z \<in> set (fst (run_bind m f y)). Q z) \<and> (case snd (run_bind m f y) of Inl e \<Rightarrow> E e (after y (fst (run_bind m f y)))
      | Inr x \<Rightarrow> S x (after y (fst (run_bind m f y))))"
  proof (cases r)
    case (Inl e)
    with m passed show ?thesis by (simp add: run_bind_def)
  next
    case (Inr x)
    obtain later r' where f: "f x (after y passed) = (later, r')" by fastforce
    have "Q (after y passed) \<and> R x (after y passed)" using after_fine [OF _ passed(1)] y passed(2) Inr by simp
    with assms(2) [of x] have "(\<forall>z \<in> set (fst (f x (after y passed))). Q z) \<and> (case snd (f x (after y passed)) of
        Inl e \<Rightarrow> E e (after (after y passed) (fst (f x (after y passed)))) | Inr x' \<Rightarrow> S x' (after (after y passed) (fst (f x (after y passed)))))"
      unfolding runs_def by blast
    with f have "\<forall>z \<in> set later. Q z" "case r' of Inl e \<Rightarrow> E e (after (after y passed) later) | Inr x \<Rightarrow> S x (after (after y passed) later)"
      by (cases r'; simp)+
    with m f Inr passed(1) show ?thesis by (cases r') (auto simp: run_bind_def after_append)
  qed
qed

lemma runs_weaken:
  assumes "runs Q P m R E" "\<And>y. P' y \<Longrightarrow> P y" "\<And>x y. R x y \<Longrightarrow> R' x y" "\<And>e y. E e y \<Longrightarrow> E' e y"
  shows "runs Q P' m R' E'"
  unfolding runs_def
proof (intro allI impI)
  fix y assume y: "Q y \<and> P' y"
  with assms(1,2) have "(\<forall>z \<in> set (fst (m y)). Q z) \<and>
      (case snd (m y) of Inl e \<Rightarrow> E e (after y (fst (m y))) | Inr x \<Rightarrow> R x (after y (fst (m y))))" unfolding runs_def by blast
  with assms(3,4) show "(\<forall>z \<in> set (fst (m y)). Q z) \<and>
      (case snd (m y) of Inl e \<Rightarrow> E' e (after y (fst (m y))) | Inr x \<Rightarrow> R' x (after y (fst (m y))))" by (cases "snd (m y)") auto
qed

lemma runs_call: "(\<And>y. Q y \<Longrightarrow> P y \<Longrightarrow> E e y \<and> Q (f y) \<and> R () (f y)) \<Longrightarrow> runs Q P (run_call fails e f) R E"
  by (auto simp: runs_def run_call_def)

lemma runs_halt: "(\<And>y. Q y \<Longrightarrow> P y \<Longrightarrow> E e y) \<Longrightarrow> runs Q P (run_halt e) R E"
  by (auto simp: runs_def run_halt_def)

lemma runs_return: "(\<And>y. Q y \<Longrightarrow> P y \<Longrightarrow> R x y) \<Longrightarrow> runs Q P (run_return x) R E"
  by (auto simp: runs_def run_return_def)

text \<open>A run kept to the staging place, which leaves where a store goes as it is.\<close>

definition stays_staged :: "'a run \<Rightarrow> bool" where
  "stays_staged m \<longleftrightarrow> (\<forall>y. \<forall>z \<in> set (fst (m y)). yd_store z = yd_store y)"

lemma stays_after: "stays_staged m \<Longrightarrow> yd_store (after y (fst (m y))) = yd_store y"
  by (cases "fst (m y)" rule: rev_cases) (auto simp: stays_staged_def after_def)

lemma stays_run: "stays_staged m \<Longrightarrow> m y = (passed, r) \<Longrightarrow> (\<forall>z \<in> set passed. yd_store z = yd_store y) \<and> yd_store (after y passed) = yd_store y"
  using stays_after [of m y] by (auto simp: stays_staged_def)

lemma stays_bind:
  assumes "stays_staged m" "\<And>x. stays_staged (f x)"
  shows "stays_staged (run_bind m f)"
  unfolding stays_staged_def
proof (intro allI ballI)
  fix y z assume z: "z \<in> set (fst (run_bind m f y))"
  obtain passed r where m: "m y = (passed, r)" by fastforce
  note first = stays_run [OF assms(1) m]
  show "yd_store z = yd_store y"
  proof (cases r)
    case (Inl e)
    with m z first show ?thesis by (simp add: run_bind_def)
  next
    case (Inr x)
    obtain later r' where f: "f x (after y passed) = (later, r')" by fastforce
    with m Inr z have "z \<in> set passed \<or> z \<in> set later" by (simp add: run_bind_def)
    with first stays_run [OF assms(2) f] show ?thesis by auto
  qed
qed

lemma stays_call: "(\<And>y. yd_store (f y) = yd_store y) \<Longrightarrow> stays_staged (run_call fails e f)"
  by (simp add: stays_staged_def run_call_def)

lemma stays_cleared: "stays_staged (staging_cleared w call e)"
  by (auto simp: stays_staged_def staging_cleared_def Let_def)

lemma in_staging_store [simp]: "yd_store (in_staging f y) = yd_store y"
  by (simp add: in_staging_def)

lemma stays_filled: "stays_staged (place_filled w said made fills marker)"
  unfolding place_filled_def filled_or_halted_def
  by (intro stays_bind stays_call) (auto simp: stays_staged_def run_halt_def run_call_def split: sum.splits)

lemma stays_else:
  assumes "stays_staged m" "\<And>faults. stays_staged (h faults)"
  shows "stays_staged (run_else m h)"
  unfolding stays_staged_def
proof (intro allI ballI)
  fix y z assume z: "z \<in> set (fst (run_else m h y))"
  obtain passed r where m: "m y = (passed, r)" by fastforce
  note first = stays_run [OF assms(1) m]
  show "yd_store z = yd_store y"
  proof (cases "\<exists>faults. r = Inl (Not_started faults)")
    case True
    then obtain faults where r: "r = Inl (Not_started faults)" by blast
    obtain later r' where h: "h faults (after y passed) = (later, r')" by fastforce
    with m r z have "z \<in> set passed \<or> z \<in> set later" by (simp add: run_else_def)
    with first stays_run [OF assms(2) h] show ?thesis by auto
  next
    case False
    then have "run_else m h y = (passed, r)" using m by (auto simp: run_else_def split: sum.split halted.split)
    with first z show ?thesis by simp
  qed
qed

lemma stays_start: "stays_staged (store_start w said made fills marker)"
  unfolding store_start_def
  by (intro stays_bind stays_call stays_else stays_filled) (auto simp: stays_staged_def place_removed_def Let_def split: if_splits)

lemma stays_noted: "stays_staged m \<Longrightarrow> stays_staged (run_noted m)"
  by (auto simp: stays_staged_def run_noted_def split: prod.splits sum.splits halted.splits)

lemma stays_answered: "stays_staged m \<Longrightarrow> stays_staged (run_answered m)"
  by (auto simp: stays_staged_def run_answered_def split: prod.splits sum.splits halted.splits)

section \<open>A store whole, or none\<close>

definition whole_place :: "(db \<Rightarrow> bool) \<Rightarrow> string \<Rightarrow> store_place \<Rightarrow> bool" where
  "whole_place ok marker p \<longleftrightarrow> (\<exists>db. ok db \<and> p = \<lparr>pl_database = Some db, pl_marker = Some marker\<rparr>)"

definition none_or_whole :: "(db \<Rightarrow> bool) \<Rightarrow> string \<Rightarrow> yard \<Rightarrow> bool" where
  "none_or_whole ok marker y \<longleftrightarrow> (\<forall>p. yd_store y = Some p \<longrightarrow> whole_place ok marker p)"

definition stands_whole :: "(db \<Rightarrow> bool) \<Rightarrow> string \<Rightarrow> yard \<Rightarrow> bool" where
  "stands_whole ok marker y \<longleftrightarrow> (\<exists>p. yd_store y = Some p \<and> whole_place ok marker p)"

definition staged_whole :: "(db \<Rightarrow> bool) \<Rightarrow> string \<Rightarrow> yard \<Rightarrow> bool" where
  "staged_whole ok marker y \<longleftrightarrow> (\<exists>p. yd_staging y = Some (Some p) \<and> whole_place ok marker p)"

abbreviation no_store :: "yard \<Rightarrow> bool" where "no_store y \<equiv> yd_store y = None"

lemma stays_runs:
  assumes "stays_staged m"
  shows "runs (none_or_whole ok marker) (\<lambda>y. C (yd_store y)) m (\<lambda>_ y. C (yd_store y)) (\<lambda>_ y. C (yd_store y))"
  unfolding runs_def
proof (intro allI impI)
  fix y assume y: "none_or_whole ok marker y \<and> C (yd_store y)"
  obtain passed r where m: "m y = (passed, r)" by fastforce
  from stays_run [OF assms m] y m show "(\<forall>z \<in> set (fst (m y)). none_or_whole ok marker z) \<and>
      (case snd (m y) of Inl e \<Rightarrow> C (yd_store (after y (fst (m y)))) | Inr x \<Rightarrow> C (yd_store (after y (fst (m y)))))"
    by (cases r) (auto simp: none_or_whole_def)
qed

lemma runs_also:
  assumes "runs Q P m R E" "\<And>y x passed. Q y \<Longrightarrow> P y \<Longrightarrow> m y = (passed, Inr x) \<Longrightarrow> S x (after y passed)"
  shows "runs Q P m (\<lambda>x y. R x y \<and> S x y) E"
  unfolding runs_def
proof (intro allI impI)
  fix y assume y: "Q y \<and> P y"
  obtain passed r where m: "m y = (passed, r)" by fastforce
  from assms(1) y have "(\<forall>z \<in> set (fst (m y)). Q z) \<and>
      (case snd (m y) of Inl e \<Rightarrow> E e (after y (fst (m y))) | Inr x \<Rightarrow> R x (after y (fst (m y))))" unfolding runs_def by blast
  with m assms(2) [of y passed] y show "(\<forall>z \<in> set (fst (m y)). Q z) \<and>
      (case snd (m y) of Inl e \<Rightarrow> E e (after y (fst (m y))) | Inr x \<Rightarrow> R x (after y (fst (m y))) \<and> S x (after y (fst (m y))))"
    by (cases r) simp_all
qed

lemma store_start_ends:
  "store_start w said made fills marker y = (passed, Inr u) \<Longrightarrow>
     \<exists>db. fills = Inr db \<and> yd_staging (after y passed) = Some (Some \<lparr>pl_database = Some db, pl_marker = Some marker\<rparr>)"
  by (auto simp: store_start_def place_filled_def filled_or_halted_def run_bind_def run_call_def run_halt_def run_else_def place_removed_def Let_def
    in_staging_def after_def split: if_splits sum.splits prod.splits halted.splits refusal.splits)

lemma noted_ends: "run_noted m y = (passed, Inr u) \<Longrightarrow> m y = (passed, Inr u)"
  by (auto simp: run_noted_def split: prod.splits sum.splits halted.splits)

lemma placed_runs:
  "runs (none_or_whole ok marker) (\<lambda>y. no_store y \<and> staged_whole ok marker y) (staging_placed w)
     (\<lambda>_. stands_whole ok marker) (\<lambda>_. no_store)"
  by (cases "we_fails w Rename") (auto simp: runs_def staging_placed_def run_call_def staged_whole_def stands_whole_def none_or_whole_def)

lemma emptied_stays: "stays_staged (staging_emptied w)"
  unfolding staging_emptied_def by (intro stays_bind stays_cleared stays_call) simp

lemma cleared_ends: "staging_cleared w call e y = (passed, r) \<Longrightarrow> case r of Inl e' \<Rightarrow> e' = e | Inr _ \<Rightarrow> yd_staging (after y passed) = None"
  by (auto simp: staging_cleared_def Let_def after_append split: if_splits)

text \<open>
  The one rule for what is done in a staging place: a body that ends with a store whole in place, or keeps none there, is still
  so when the staging place is emptied before it and cleared after it.
\<close>

lemma staged_runs:
  assumes "runs (none_or_whole ok marker) (\<lambda>y. C (yd_store y)) body (\<lambda>x y. R x (yd_store y)) (\<lambda>_ y. F (yd_store y))"
    and "\<And>s. C s \<Longrightarrow> F s"
  shows "runs (none_or_whole ok marker) (\<lambda>y. C (yd_store y)) (staged w body) (\<lambda>x y. R x (yd_store y) \<and> yd_staging y = None)
    (\<lambda>e y. e = Os_failed \<or> F (yd_store y))"
  unfolding staged_def
proof (rule runs_bind [where R = "\<lambda>_ y. C (yd_store y)"])
  show "runs (none_or_whole ok marker) (\<lambda>y. C (yd_store y)) (staging_emptied w) (\<lambda>_ y. C (yd_store y)) (\<lambda>e y. e = Os_failed \<or> F (yd_store y))"
    by (rule runs_weaken [OF stays_runs [OF emptied_stays, where C = C]]) (simp_all add: assms(2))
next
  let ?final = "staging_cleared w Clear_last Os_failed"
  show "runs (none_or_whole ok marker) (\<lambda>y. C (yd_store y)) (run_finally body ?final) (\<lambda>x y. R x (yd_store y) \<and> yd_staging y = None)
      (\<lambda>e y. e = Os_failed \<or> F (yd_store y))" for x :: unit
    unfolding runs_def
  proof (intro allI impI)
    fix y assume y: "none_or_whole ok marker y \<and> C (yd_store y)"
    obtain passed r where m: "body y = (passed, r)" by fastforce
    obtain later r' where f: "?final (after y passed) = (later, r')" by fastforce
    from assms(1) y have "(\<forall>z \<in> set (fst (body y)). none_or_whole ok marker z) \<and>
      (case snd (body y) of Inl e \<Rightarrow> F (yd_store (after y (fst (body y)))) | Inr x \<Rightarrow> R x (yd_store (after y (fst (body y)))))"
      unfolding runs_def by blast
    with m have body: "\<forall>z \<in> set passed. none_or_whole ok marker z"
      "case r of Inl e \<Rightarrow> F (yd_store (after y passed)) | Inr x \<Rightarrow> R x (yd_store (after y passed))" by (cases r; simp)+
    have "none_or_whole ok marker (after y passed)" using after_fine [OF _ body(1)] y by blast
    with stays_run [OF stays_cleared f] have final: "\<forall>z \<in> set later. none_or_whole ok marker z"
      "yd_store (after (after y passed) later) = yd_store (after y passed)" by (simp_all add: none_or_whole_def)
    note ends = cleared_ends [OF f]
    have run: "run_finally body ?final y = (passed @ later, case r' of Inl e \<Rightarrow> Inl e | Inr _ \<Rightarrow> r)"
      using m f by (simp add: run_finally_def split: sum.split)
    show "(\<forall>z \<in> set (fst (run_finally body ?final y)). none_or_whole ok marker z) \<and>
        (case snd (run_finally body ?final y) of
           Inl e \<Rightarrow> e = Os_failed \<or> F (yd_store (after y (fst (run_finally body ?final y))))
         | Inr x \<Rightarrow> R x (yd_store (after y (fst (run_finally body ?final y)))) \<and> yd_staging (after y (fst (run_finally body ?final y))) = None)"
      using body final ends by (cases r; cases r') (auto simp: run after_append)
  qed
qed

section \<open>Starting, seeding and restoring leave a store whole, or none\<close>

definition init_ok :: "(db \<Rightarrow> bool) \<Rightarrow> exn + refusal + db \<Rightarrow> bool" where
  "init_ok ok begun \<longleftrightarrow> (\<forall>db. begun = Inr (Inr db) \<longrightarrow> ok db)"

lemma stays_init: "stays_staged (staging_init w said begun marker)"
  by (cases begun) (simp_all add: staging_init_def stays_noted stays_start, simp add: stays_staged_def run_halt_def)

lemma init_ends:
  assumes "staging_init w said begun marker y = (passed, Inr u)" "init_ok ok begun"
  shows "staged_whole ok marker (after y passed)"
proof (cases begun)
  case (Inl e)
  with assms(1) show ?thesis by (simp add: staging_init_def run_halt_def)
next
  case (Inr fills)
  with assms(1) have "run_noted (store_start w said made_db fills marker) y = (passed, Inr u)" by (simp add: staging_init_def)
  from store_start_ends [OF noted_ends [OF this]] Inr assms(2) show ?thesis
    by (auto simp: staged_whole_def whole_place_def init_ok_def)
qed

lemma init_runs:
  assumes "init_ok ok begun"
  shows "runs (none_or_whole ok marker) no_store (staging_init w said begun marker) (\<lambda>_ y. no_store y \<and> staged_whole ok marker y) (\<lambda>_. no_store)"
  by (rule runs_also [OF stays_runs [OF stays_init, where C = "\<lambda>s. s = None"]]) (rule init_ends [OF _ assms])

lemma not_refused_runs: "runs Q P m R E \<Longrightarrow> (\<And>y. P y \<Longrightarrow> E (Not_started faults) y) \<Longrightarrow> runs Q P (not_refused faults m) R E"
  unfolding not_refused_def by (auto intro: runs_halt)

lemma started_runs:
  assumes "init_ok ok begun"
  shows "runs (none_or_whole ok marker) no_store (staging_started w said occupied begun marker)
    (\<lambda>_ y. stands_whole ok marker y \<and> yd_staging y = None) (\<lambda>e y. e = Os_failed \<or> no_store y)"
proof -
  have body: "runs (none_or_whole ok marker) no_store (run_bind (staging_init w said begun marker) (\<lambda>_. staging_placed w))
      (\<lambda>_ y. \<exists>p. yd_store y = Some p \<and> whole_place ok marker p) (\<lambda>_. no_store)"
    by (rule runs_bind [OF init_runs [OF assms]]) (rule placed_runs [unfolded stands_whole_def])
  show ?thesis unfolding staging_started_def stands_whole_def
    by (rule not_refused_runs [OF staged_runs [where C = "\<lambda>s. s = None" and F = "\<lambda>s. s = None", OF body]]) simp_all
qed

lemma taken_back_runs:
  "runs (none_or_whole ok marker) (stands_whole ok marker) (taken_back w) (\<lambda>_ y. no_store y \<and> yd_staging y = None) (\<lambda>_ _. True)"
proof -
  have body: "runs (none_or_whole ok marker) (\<lambda>y. \<exists>p. yd_store y = Some p \<and> whole_place ok marker p)
      (\<lambda>y. case yd_store y of
         Some p \<Rightarrow> run_call (we_fails w Take_back) Os_failed (\<lambda>y. y \<lparr>yd_store := None, yd_staging := Some (Some p)\<rparr>) y
       | None \<Rightarrow> ([], Inl Os_failed)) (\<lambda>_. no_store) (\<lambda>_ _. True)"
    by (cases "we_fails w Take_back") (auto simp: runs_def run_call_def none_or_whole_def)
  show ?thesis unfolding taken_back_def stands_whole_def
    by (rule runs_weaken [OF staged_runs [where C = "\<lambda>s. \<exists>p. s = Some p \<and> whole_place ok marker p" and R = "\<lambda>_ s. s = None" and F = "\<lambda>_. True", OF body]]) simp_all
qed

lemma serving_runs:
  assumes "init_ok ok begun"
  shows "runs (none_or_whole ok marker) no_store (staging_serving w w' said occupied begun marker ended)
    (\<lambda>_ y. (if ended = Block_left then no_store y else stands_whole ok marker y) \<and> yd_staging y = None) (\<lambda>_ _. True)"
  unfolding staging_serving_def
proof (rule runs_bind)
  show "runs (none_or_whole ok marker) no_store (staging_started w said occupied begun marker)
      (\<lambda>_ y. stands_whole ok marker y \<and> yd_staging y = None) (\<lambda>_ _. True)"
    by (rule runs_weaken [OF started_runs [OF assms]]) simp_all
next
  show "runs (none_or_whole ok marker) (\<lambda>y. stands_whole ok marker y \<and> yd_staging y = None)
      (if ended = Block_left then taken_back w' else run_return ())
      (\<lambda>_ y. (if ended = Block_left then no_store y else stands_whole ok marker y) \<and> yd_staging y = None) (\<lambda>_ _. True)" for x :: unit
    by (cases "ended = Block_left") (auto intro: runs_return runs_weaken [OF taken_back_runs])
qed

lemma faults_or_placed_runs:
  "runs (none_or_whole ok marker) (\<lambda>y. no_store y \<and> (faults = [] \<longrightarrow> staged_whole ok marker y))
     (if faults \<noteq> [] then run_return faults else run_bind (staging_placed w) (\<lambda>_. run_return []))
     (\<lambda>faults y. if faults = [] then \<exists>p. yd_store y = Some p \<and> whole_place ok marker p else no_store y) (\<lambda>_. no_store)"
proof (cases faults)
  case Nil
  have "runs (none_or_whole ok marker) (\<lambda>y. no_store y \<and> staged_whole ok marker y) (run_bind (staging_placed w) (\<lambda>_. run_return []))
     (\<lambda>faults y. if faults = [] then \<exists>p. yd_store y = Some p \<and> whole_place ok marker p else no_store y) (\<lambda>_. no_store)"
    by (rule runs_bind [OF placed_runs], rule runs_return) (simp add: stands_whole_def)
  with Nil show ?thesis by simp
next
  case (Cons f fs)
  then show ?thesis by (auto intro: runs_return)
qed

definition keeps_ok :: "(db \<Rightarrow> bool) \<Rightarrow> (conn \<Rightarrow> 'a answer \<times> conn) \<Rightarrow> bool" where
  "keeps_ok ok command \<longleftrightarrow> (\<forall>db. ok db \<longrightarrow> ok (k_committed (snd (command (opened_db db)))))"

lemma stays_imported: "stays_staged (staging_imported command faults_in)"
  by (auto simp: stays_staged_def staging_imported_def split: option.splits prod.splits)

lemma imported_whole:
  assumes "staging_imported command faults_in y = (passed, Inr faults)" "staged_whole ok marker y" "keeps_ok ok command"
  shows "staged_whole ok marker (after y passed)"
proof -
  from assms(2) obtain db where db: "ok db" "yd_staging y = Some (Some \<lparr>pl_database = Some db, pl_marker = Some marker\<rparr>)"
    by (auto simp: staged_whole_def whole_place_def)
  obtain answer c where "command (opened_db db) = (answer, c)" by fastforce
  with assms(1,3) db show ?thesis by (force simp: keeps_ok_def staging_imported_def staged_whole_def whole_place_def in_staging_def)
qed

lemma imported_runs:
  assumes "keeps_ok ok command"
  shows "runs (none_or_whole ok marker) (\<lambda>y. no_store y \<and> staged_whole ok marker y) (staging_imported command faults_in)
    (\<lambda>faults y. no_store y \<and> (faults = [] \<longrightarrow> staged_whole ok marker y)) (\<lambda>_. no_store)"
  unfolding runs_def
proof (intro allI impI)
  fix y assume y: "none_or_whole ok marker y \<and> no_store y \<and> staged_whole ok marker y"
  obtain passed r where m: "staging_imported command faults_in y = (passed, r)" by fastforce
  with stays_run [OF stays_imported m] imported_whole [of command faults_in y passed _ ok marker, OF _ _ assms] y
  show "(\<forall>z \<in> set (fst (staging_imported command faults_in y)). none_or_whole ok marker z) \<and>
      (case snd (staging_imported command faults_in y) of Inl e \<Rightarrow> no_store (after y (fst (staging_imported command faults_in y)))
       | Inr faults \<Rightarrow> no_store (after y (fst (staging_imported command faults_in y))) \<and>
          (faults = [] \<longrightarrow> staged_whole ok marker (after y (fst (staging_imported command faults_in y)))))"
    by (cases r) (auto simp: none_or_whole_def)
qed

lemma seeded_runs:
  assumes "init_ok ok begun" "keeps_ok ok command"
  shows "runs (none_or_whole ok marker) no_store (staging_seeded w said occupied begun marker command faults_in)
    (\<lambda>faults y. (if faults = [] then \<exists>p. yd_store y = Some p \<and> whole_place ok marker p else no_store y) \<and> yd_staging y = None)
    (\<lambda>e y. e = Os_failed \<or> no_store y)"
  unfolding staging_seeded_def
  by (rule not_refused_runs [OF staged_runs [where C = "\<lambda>s. s = None" and F = "\<lambda>s. s = None"
      and R = "\<lambda>faults s. if faults = [] then \<exists>p. s = Some p \<and> whole_place ok marker p else s = None",
      OF runs_bind [OF init_runs [OF assms(1)] runs_bind [OF imported_runs [OF assms(2)] faults_or_placed_runs]]]]) simp_all

text \<open>What is restored is the backup's copy, and no other database, or nothing.\<close>

lemma start_refused_says:
  "run_noted (store_start w said copy (Inr db) marker) y = (passed, Inl e) \<Longrightarrow> e \<noteq> Not_started []"
  by (auto simp: run_noted_def store_start_def place_filled_def filled_or_halted_def run_bind_def run_call_def run_halt_def run_else_def
    place_removed_def os_faults_def Let_def split: if_splits sum.splits prod.splits halted.splits)

lemma restored_start_runs:
  "runs (none_or_whole (\<lambda>db. db = copy) marker) no_store (run_answered (run_noted (store_start w said copy (Inr copy) marker)))
     (\<lambda>faults y. no_store y \<and> (faults = [] \<longrightarrow> staged_whole (\<lambda>db. db = copy) marker y)) (\<lambda>_. no_store)"
proof (rule runs_weaken [OF runs_also [OF stays_runs [OF stays_answered [OF stays_noted [OF stays_start]], where C = "\<lambda>s. s = None"],
      where S = "\<lambda>faults y. faults = [] \<longrightarrow> staged_whole (\<lambda>db. db = copy) marker y"]])
  fix y passed and faults :: "fault list"
  assume run: "run_answered (run_noted (store_start w said copy (Inr copy) marker)) y = (passed, Inr faults)"
  show "faults = [] \<longrightarrow> staged_whole (\<lambda>db. db = copy) marker (after y passed)"
  proof
    assume none: "faults = []"
    obtain sts r where m: "run_noted (store_start w said copy (Inr copy) marker) y = (sts, r)" by fastforce
    show "staged_whole (\<lambda>db. db = copy) marker (after y passed)"
    proof (cases r)
      case (Inl e)
      then show ?thesis using run m none by (cases e) (auto simp: run_answered_def dest: start_refused_says)
    next
      case (Inr u)
      with run m have "run_noted (store_start w said copy (Inr copy) marker) y = (passed, Inr u)" by (simp add: run_answered_def)
      from store_start_ends [OF noted_ends [OF this]] show ?thesis by (auto simp: staged_whole_def whole_place_def)
    qed
  qed
qed simp_all

lemma restored_runs:
  "runs (none_or_whole (\<lambda>db. db = copy) marker) no_store (staging_restored w said occupied unreadable_backup copy marker)
    (\<lambda>faults y. (if faults = [] then \<exists>p. yd_store y = Some p \<and> whole_place (\<lambda>db. db = copy) marker p else no_store y) \<and> yd_staging y = None)
    (\<lambda>e y. e = Os_failed \<or> no_store y)"
  unfolding staging_restored_def
  by (rule not_refused_runs [OF not_refused_runs [OF staged_runs [where C = "\<lambda>s. s = None" and F = "\<lambda>s. s = None"
      and R = "\<lambda>faults s. if faults = [] then \<exists>p. s = Some p \<and> whole_place (\<lambda>db. db = copy) marker p else s = None",
      OF runs_bind [OF restored_start_runs faults_or_placed_runs]]]]) simp_all

lemma start_reached: "init_ok store_reached (write_start fingerprint yl clock empty_place actor)"
  unfolding init_ok_def
proof (intro allI impI)
  fix db assume begun: "write_start fingerprint yl clock empty_place actor = Inr (Inr db)"
  show "store_reached db"
  proof (cases empty_place)
    case (Inl e)
    with begun show ?thesis by (cases "first_stamp clock") (auto simp: write_start_def split: sum.splits)
  next
    case (Inr u)
    with begun have "write_start fingerprint yl clock (Inr ()) actor = Inr (Inr db)" by simp
    then show ?thesis by (rule store_reached.started)
  qed
qed

lemma runs_over:
  assumes "runs (none_or_whole ok marker) no_store m R E" "yd_store y = None" "m y = (passed, r)"
  shows "(\<forall>z \<in> set (y # passed). none_or_whole ok marker z) \<and> (case r of Inl e \<Rightarrow> E e (after y passed) | Inr x \<Rightarrow> R x (after y passed))"
proof -
  have y: "none_or_whole ok marker y" using assms(2) by (simp add: none_or_whole_def)
  with assms(1,2) have "(\<forall>z \<in> set (fst (m y)). none_or_whole ok marker z) \<and>
      (case snd (m y) of Inl e \<Rightarrow> E e (after y (fst (m y))) | Inr x \<Rightarrow> R x (after y (fst (m y))))" unfolding runs_def by blast
  with y assms(3) show ?thesis by (cases r) simp_all
qed

text \<open>
  C7: however a start for a server to serve goes, whichever calls to the file system fail and wherever the run is stopped, each
  state it passes through has nothing where a store goes or the whole of a store that is reached, its marker written out; when
  it ends served, refused or kept, that store stands there, when its block ends with none of these it has been taken back, and
  either way nothing is left in the staging place.
\<close>

theorem started_whole_or_none:
  assumes "yd_store y = None"
    and "staging_serving w w' said occupied (write_start fingerprint yl clock empty_place actor) marker ended y = (passed, r)"
  shows "(\<forall>z \<in> set (y # passed). none_or_whole store_reached marker z) \<and>
    (r = Inr () \<longrightarrow> (if ended = Block_left then yd_store (after y passed) = None else stands_whole store_reached marker (after y passed)) \<and>
       yd_staging (after y passed) = None)"
  using runs_over [OF serving_runs [OF start_reached] assms] by (cases r) simp_all

text \<open>
  C29: a store restored is the backup's copy or there is none: in each state a restore passes through, whichever calls fail, what
  stands where a store goes is nothing or that copy under its marker; it answers no faults just when the copy stands there and
  faults just when nothing does, with the staging place gone, and it halts otherwise with nothing there unless removing the
  staging place failed.
\<close>

theorem restored_whole_or_none:
  assumes "yd_store y = None"
    and "staging_restored w said occupied unreadable_backup copy marker y = (passed, r)"
  shows "(\<forall>z \<in> set (y # passed). yd_store z = None \<or> yd_store z = Some \<lparr>pl_database = Some copy, pl_marker = Some marker\<rparr>) \<and>
    (case r of Inr faults \<Rightarrow> yd_store (after y passed) =
         (if faults = [] then Some \<lparr>pl_database = Some copy, pl_marker = Some marker\<rparr> else None) \<and> yd_staging (after y passed) = None
     | Inl e \<Rightarrow> e = Os_failed \<or> yd_store (after y passed) = None)"
proof -
  have whole: "whole_place (\<lambda>db. db = copy) marker p \<longleftrightarrow> p = \<lparr>pl_database = Some copy, pl_marker = Some marker\<rparr>" for p
    by (simp add: whole_place_def)
  have held: "none_or_whole (\<lambda>db. db = copy) marker z \<longleftrightarrow>
      yd_store z = None \<or> yd_store z = Some \<lparr>pl_database = Some copy, pl_marker = Some marker\<rparr>" for z
    by (cases "yd_store z") (simp_all add: none_or_whole_def whole)
  from runs_over [OF restored_runs assms] show ?thesis unfolding held whole by (cases r) (simp_all split: if_splits)
qed

text \<open>A day when no call fails, over what a stopped run left in the staging place.\<close>

definition calm :: weather where
  "calm = \<lparr>we_fails = (\<lambda>_. False), we_left = (\<lambda>_. []), we_left_place = [], we_said = ''OSError''\<rparr>"

definition left_behind :: yard where
  "left_behind = \<lparr>yd_store = None, yd_staging = Some (Some \<lparr>pl_database = None, pl_marker = None\<rparr>)\<rparr>"

lemmas run_calm = staging_serving_def staging_started_def staging_restored_def not_refused_def staged_def staging_emptied_def
  staging_cleared_def run_finally_def run_bind_def run_return_def run_call_def run_else_def run_noted_def run_answered_def
  staging_init_def store_start_def place_filled_def filled_or_halted_def staging_placed_def in_staging_def after_def Let_def
  calm_def left_behind_def

theorem started_whole_or_none_witness:
  "\<exists>passed. staging_serving calm calm (\<lambda>_. []) [] (write_start id one_word (\<lambda>_. Inr 7) (Inr ()) (''r'', ''x'')) ''word'' Block_kept left_behind
     = (passed, Inr ()) \<and> stands_whole store_reached ''word'' (after left_behind passed)"
proof -
  obtain db where db: "write_start id one_word (\<lambda>_. Inr 7) (Inr ()) (''r'', ''x'') = Inr (Inr db)"
    by (rule start_ends [where clock = "\<lambda>_. Inr 7" and at = 7 and fingerprint = id and actor = "(''r'', ''x'')", OF refl one_word_writes])
  have left: "yd_store left_behind = None" by (simp add: left_behind_def)
  obtain passed r where run: "staging_serving calm calm (\<lambda>_. []) [] (write_start id one_word (\<lambda>_. Inr 7) (Inr ()) (''r'', ''x''))
      ''word'' Block_kept left_behind = (passed, r)" by fastforce
  then have "r = Inr ()" unfolding db by (auto simp: run_calm)
  with run started_whole_or_none [OF left run] show ?thesis by auto
qed

theorem restored_whole_or_none_witness:
  "yd_store left_behind = None \<and> (\<exists>passed. staging_restored calm (\<lambda>_. []) [] [] made_db ''word'' left_behind = (passed, Inr []) \<and>
     yd_store (after left_behind passed) = Some \<lparr>pl_database = Some made_db, pl_marker = Some ''word''\<rparr>)"
proof -
  have left: "yd_store left_behind = None" by (simp add: left_behind_def)
  obtain passed r where run: "staging_restored calm (\<lambda>_. []) [] [] made_db ''word'' left_behind = (passed, r)" by fastforce
  then have "r = Inr []" by (auto simp: run_calm)
  with left run restored_whole_or_none [OF left run] show ?thesis by auto
qed

end
