(* ===== verification/Spec2Isabelle.thy ===== *)
theory Spec2Isabelle
  imports KB_Revisions KB_Journal KB_Server KB_Importing KB_Export KB_Start KB_Staging
begin

text \<open>
  A verification development of kb (\<open>src/src/kb\<close>): a store of typed, linked artifacts. An artifact is a mapping filed
  under an IRI, conforming to a numbered version of a type, itself an artifact; its fields may be links to other
  artifacts or to parts inside them, and a link to what the store does not hold waits under the nearest type above
  its IRI. Changes come as sets. A set is read from a request (\<open>requests.py\<close>, \<open>changes.py\<close>), each operation is done
  on a draft laid over the store (\<open>edits.py\<close>, \<open>draft.py\<close>), the whole is validated (\<open>validation.py\<close>), handed to the
  storage port with what was read (\<open>handing.py\<close>, \<open>drafting.py\<close>), and landed by the port in one transaction, which
  compares the revisions read and judges every link again (\<open>sqlite_store.py\<close>); on a conflict it is drafted again
  under the write lock (\<open>write.py\<close>). Everything else reads: composition of types, links, walks, search, the check of a
  directory for import.

  Theories, in the order the code builds on itself, and what each models:

  \<^item> KB_Prelude, KB_Data: results that may raise (\<open>exn + 'a\<close>, chained with \<open>rbind\<close>), Python's values, their equality and
    printing, dicts as association lists in insertion order.
  \<^item> KB_Names (\<open>names.py\<close>), KB_Values (\<open>values.py\<close>, \<open>addresses.py\<close>, \<open>rules.py\<close>), KB_Item_Names (\<open>item_names.py\<close>),
    KB_Refusals (\<open>refusals.py\<close>, \<open>type_refusals.py\<close>, \<open>file_refusals.py\<close>), KB_Settled (\<open>settled.py\<close>), KB_Places
    (\<open>places.py\<close>): IRIs, versions, addresses and places; the names of items; the faults; an artifact's own keys.
  \<^item> KB_Composition (\<open>composition.py\<close>), KB_Keywords (\<open>keywords.py\<close>), KB_Definitions (\<open>definitions.py\<close>): a type read
    through what it is built on, and what a type must say. A corpus is the record of reads these ask of a store.
  \<^item> KB_Port_Values (\<open>port_values.py\<close>), KB_Links (\<open>links.py\<close>): what is handed to the port, and an artifact's links.
  \<^item> KB_Stored, KB_Sqlite_Reads, KB_Sqlite, KB_Sqlite_Land, KB_Sqlite_Store (\<open>sqlite_*.py\<close>): the tables as lists of
    rows, a connection with its open transaction, savepoints and lock; reads, the checks, the landing, and what they keep.
  \<^item> KB_Draft (\<open>draft.py\<close>), KB_Validation (\<open>validation.py\<close>), KB_Standing (\<open>standing.py\<close>, \<open>naming.py\<close>), KB_Edits and
    KB_Revisions (\<open>edits.py\<close>), KB_Fault_Order (\<open>fault_order.py\<close>), KB_Search (\<open>search.py\<close>), KB_Canonical
    (\<open>canonical.py\<close>, \<open>content.py\<close>), KB_Drafting (\<open>drafting.py\<close>, \<open>handing.py\<close>): a set from its operations to what is
    handed over.
  \<^item> KB_Requests (\<open>requests.py\<close>, \<open>changes.py\<close>, \<open>signatures.py\<close>, \<open>content_values.py\<close>), KB_Journal (\<open>journal.py\<close>),
    KB_Write (\<open>write.py\<close>): requests read, entries stamped, sets landed once.
  \<^item> KB_Chains and KB_Offers (\<open>skipping.py\<close>, \<open>offers.py\<close>), KB_Examining (\<open>comparing.py\<close>, \<open>judging.py\<close>,
    \<open>examining.py\<close>), KB_Importing (\<open>importing.py\<close>): a directory offered, examined and landed as one set.
  \<^item> KB_Query, KB_Reading, KB_Asking (\<open>query.py\<close>, \<open>read.py\<close>, \<open>parts.py\<close>, \<open>versions.py\<close>), KB_Export (\<open>export.py\<close>, \<open>check.py\<close>): walks,
    reads, listings, words found, the history told, the files of an export, and the check of every artifact.
  \<^item> KB_Start (\<open>metaschema.py\<close>, \<open>start\<close> of \<open>write.py\<close>): a new store, and every store reached from one.
  \<^item> KB_Locating (\<open>store.py\<close>, \<open>roots.py\<close>, \<open>served.py\<close>): what marks a store, the store or the server's connection a call goes to,
    where a store may start, and the lock that says one is served.
  \<^item> KB_Boundary (\<open>boundary.py\<close>, \<open>escapes.py\<close>, \<open>responses.py\<close>, \<open>servicer.py\<close>, \<open>client.py\<close>): a call of the contract from its
    request to its answer, whatever is raised on the way becoming its refusal, and where a client's call goes.
  \<^item> KB_Staging (\<open>staging.py\<close>, \<open>starting.py\<close>, \<open>backups.py\<close>, \<open>operating.py\<close>, \<open>start\<close> of \<open>store.py\<close>): a store made in a staging
    place and moved in by one rename, as the states a root passes through.
  \<^item> KB_Server (\<open>server.py\<close>): the calls that write taken one at a time, as a step relation over the ticket lock.

  State and operations. A database is the record \<open>db\<close> of its tables, a connection the record \<open>conn\<close>; an operation on
  either is a function to a refusal or a result and the state it leaves, whether or not it refused. A draft is the record
  \<open>draft\<close> over a port's reads, threaded through the operations; a port is a record of functions. What other
  connections commit between the steps of a write is given as functions of the database. An exception of Python's is a
  constructor of \<open>exn\<close>, and the faults of a refusal are carried by \<open>Refused\<close>.

  What the groups of lemmas show. Round trips: versions, places, addresses and stored content read back. Types:
  composition returns unless a type is built on itself, and nearest declarations win; a type is accepted exactly when its
  references, keywords and link fields are in order. Items: every item is named, and names given are kept. Links: what is
  handed tells the links carried, and moving named items changes no telling. The port: a set lands whole or not at all,
  never from a stale reading, breaks no link held outside it, and keeps the tables in order; a landing refines a map from
  artifacts to content. Drafts: a draft reads as the store its changes land in. Writes: a set is written once or not at
  all whatever is committed meanwhile, its changes follow one another by revision, and a check answers what landing would.
  Import: files are read in once each behind their types, held back exactly when a type they are read through is broken,
  skipped by shortest chains, and landed only when sound. Reading back: a walk reaches what it may by shortest routes, a
  read's placeholders are what it shows that lands on nothing, a set's entries are told as its changes were made, and what an
  export writes an import offers back. A store starts in order and every store reached from it is. Around the
  store: what a call goes to is never guessed at, a call answered with a refusal has written nothing, and a root holds no
  store or a whole one wherever a start or a restore is stopped.

  Interfaces stated as locales: \<open>readable\<close>, reads that always answer, from which the reads of types are shown to answer,
  interpreted on databases and on drafts; \<open>optimistic_store\<close>, what a caller of the port relies on of a landing, interpreted on
  the database; \<open>store_invariant\<close>, what a new store and every landing keep, interpreted on the order of the tables.

  Bounds. \<open>composition\<close> takes how many calls may nest, and \<open>validation\<close>'s composed schema how many levels of collections;
  running out is Python's \<open>RecursionError\<close>. The bound matters only for types built on each other in a circle:
  \<open>composition_returns\<close> and \<open>read_through_exact\<close> say how much is enough otherwise. Loops over files, queues and
  retries are total functions with measures.

  Given to the model as arguments: the errors of the JSON Schema validator (\<open>misshaped\<close>), what ruamel.yaml scans, parses,
  composes, constructs and emits (\<open>yaml\<close>), the clock, the fingerprint of a text, the text SQLite keeps of a value, the
  rows FTS5 matches, the files below a directory, what stands at each path and where it resolves to, which calls to the
  file system fail and what is left of a directory as it is removed, how Python prints an exception, the reading of ISO 8601
  text, and what the network answers.

  Limits. Texts are over code points below 256. The draft's cache of types a removed type's readers leave behind is not
  carried on. The faults of every failed call to the file system are said alike. A seeded store is shown whole for an import
  that keeps what is asked of the database (\<open>seeded_runs\<close>).

  Not modelled, being input and output: SQLite's opening and copying of a file (\<open>sqlite_backup.py\<close>, the connection's settings in
  \<open>sqlite_store.py\<close>), writing an export's files (\<open>written\<close> of \<open>export.py\<close>) and the rpc that streams them, what is printed
  (\<open>reports.py\<close>, \<open>cli.py\<close>), gRPC's channels and the server's sockets, pools and signals (\<open>network.py\<close>, \<open>server.py\<close>); the code
  generated from \<open>kb.proto\<close>; and the benchmarks and image checks.
\<close>

end
